(* ===== verification/Prelude.thy ===== *)
theory Prelude
  imports Main "HOL-Library.Word" "HOL-Library.Monad_Syntax"
begin

text \<open>
  What the components share: C arrays whose accesses are checked (an access out of range is
  \<open>None\<close>, the undefined behaviour of the C program), arrays that hold a list in a prefix
  and \<open>NULL\<close> behind it, the interface of a FIFO queue, and transition systems with their
  reachable states. The collections of facts are declared here.
\<close>

named_theorems arr_simps \<open>evaluation of checked array accesses\<close>
named_theorems inv_intros \<open>preservation of invariants by single operations\<close>

type_synonym i32 = "32 word"
type_synonym addr = nat

section \<open>Checked C arrays\<close>

definition arr_get :: "'a list \<Rightarrow> int \<Rightarrow> 'a option" where
  "arr_get a i = (if 0 \<le> i \<and> nat i < length a then Some (a ! nat i) else None)"

definition arr_set :: "'a list \<Rightarrow> int \<Rightarrow> 'a \<Rightarrow> 'a list option" where
  "arr_set a i v = (if 0 \<le> i \<and> nat i < length a then Some (a[nat i := v]) else None)"

lemma arr_get_nat [arr_simps]: "i < length a \<Longrightarrow> arr_get a (int i) = Some (a ! i)"
  by (simp add: arr_get_def)

lemma arr_set_nat [arr_simps]: "i < length a \<Longrightarrow> arr_set a (int i) v = Some (a[i := v])"
  by (simp add: arr_set_def)

lemma arr_get_Some: "arr_get a i = Some v \<Longrightarrow> 0 \<le> i \<and> nat i < length a \<and> v = a ! nat i"
  by (auto simp: arr_get_def split: if_splits)

lemma arr_set_Some:
  "arr_set a i v = Some b \<Longrightarrow> 0 \<le> i \<and> nat i < length a \<and> b = a[nat i := v]"
  by (auto simp: arr_set_def split: if_splits)

lemma nth_upd: "xs[i := v] ! k = (if i = k \<and> k < length xs then v else xs ! k)"
  by (metis list_update_beyond nth_list_update_eq nth_list_update_neq not_less)

text \<open>Two computations that start with related results and go on relatedly.\<close>

lemma rel_option_bind:
  assumes "rel_option P x y" and "\<And>a b. P a b \<Longrightarrow> rel_option Q (f a) (g b)"
  shows "rel_option Q (Option.bind x f) (Option.bind y g)"
  using assms by (cases x; cases y) auto

lemma rel_option_bind_same:
  assumes "\<And>a. x = Some a \<Longrightarrow> rel_option Q (f a) (g a)"
  shows "rel_option Q (Option.bind x f) (Option.bind x g)"
  using assms by (cases x) auto

section \<open>A list kept in the prefix of a pointer array\<close>

definition pad :: "nat \<Rightarrow> 'a list \<Rightarrow> 'a option list" where
  "pad n xs = map Some xs @ replicate (n - length xs) None"

lemma length_pad [simp]: "length xs \<le> n \<Longrightarrow> length (pad n xs) = n"
  by (simp add: pad_def)

lemma pad_Nil: "pad n [] = replicate n None"
  by (simp add: pad_def)

lemma nth_pad:
  "i < n \<Longrightarrow> length xs \<le> n \<Longrightarrow> pad n xs ! i = (if i < length xs then Some (xs ! i) else None)"
  by (auto simp: pad_def nth_append)

lemma pad_eqI:
  assumes "length a = n" and "length xs \<le> n"
    and "\<And>i. i < n \<Longrightarrow> a ! i = (if i < length xs then Some (xs ! i) else None)"
  shows "a = pad n xs"
  using assms by (intro nth_equalityI) (auto simp: nth_pad)

lemma pad_snoc:
  "length xs < n \<Longrightarrow> (pad n xs)[length xs := Some x] = pad n (xs @ [x])"
  by (rule pad_eqI) (auto simp: nth_pad nth_list_update nth_append)

lemma pad_update:
  "i < length xs \<Longrightarrow> length xs \<le> n \<Longrightarrow> (pad n xs)[i := Some x] = pad n (xs[i := x])"
  by (rule pad_eqI) (auto simp: nth_pad nth_list_update)

lemma pad_drop_last:
  "xs \<noteq> [] \<Longrightarrow> length xs \<le> n \<Longrightarrow> (pad n xs)[length xs - Suc 0 := None] = pad n (butlast xs)"
  by (rule pad_eqI) (auto simp: nth_pad nth_list_update nth_butlast)

lemma pad_fill_hole:
  assumes "i < length xs - Suc 0" and "length xs \<le> n"
  shows "(pad n xs)[i := Some (last xs), length xs - Suc 0 := None] = pad n ((butlast xs)[i := last xs])"
  using assms by (intro pad_eqI) (auto simp: nth_pad nth_list_update nth_butlast)

lemma pad_get [arr_simps]:
  "i < length xs \<Longrightarrow> length xs \<le> n \<Longrightarrow> arr_get (pad n xs) (int i) = Some (Some (xs ! i))"
  by (simp add: arr_get_def nth_pad)

section \<open>The interface of a FIFO queue\<close>

text \<open>
  The representation invariant, the abstraction to a list and the two operations. The job list
  of the thread pool and the waiting queue of the scheduler both provide it.
\<close>

locale fifo =
  fixes inv :: "'q \<Rightarrow> bool"
    and abs :: "'q \<Rightarrow> 'a list"
    and enq :: "'a \<Rightarrow> 'q \<Rightarrow> 'q option"
    and deq :: "'q \<Rightarrow> ('a \<times> 'q) option"
    and room :: "'a \<Rightarrow> 'q \<Rightarrow> bool"
  assumes enq_ok: "\<lbrakk>inv q; room x q\<rbrakk> \<Longrightarrow> \<exists>q'. enq x q = Some q' \<and> inv q' \<and> abs q' = abs q @ [x]"
    and deq_ok: "\<lbrakk>inv q; abs q \<noteq> []\<rbrakk> \<Longrightarrow>
      \<exists>q'. deq q = Some (hd (abs q), q') \<and> inv q' \<and> abs q' = tl (abs q)"
begin

lemma enq_abs: "\<lbrakk>inv q; room x q; enq x q = Some q'\<rbrakk> \<Longrightarrow> inv q' \<and> abs q' = abs q @ [x]"
  using enq_ok by fastforce

lemma deq_abs:
  "\<lbrakk>inv q; abs q \<noteq> []; deq q = Some (x, q')\<rbrakk> \<Longrightarrow> inv q' \<and> abs q = x # abs q'"
  using deq_ok [of q] by auto

text \<open>An element added to a queue comes out after exactly the elements that were there before.\<close>

fun deq_n :: "nat \<Rightarrow> 'q \<Rightarrow> ('a list \<times> 'q) option" where
  "deq_n 0 q = Some ([], q)"
| "deq_n (Suc n) q = do { (x, q1) \<leftarrow> deq q; (xs, q2) \<leftarrow> deq_n n q1; Some (x # xs, q2) }"

lemma deq_n_take:
  "\<lbrakk>inv q; n \<le> length (abs q)\<rbrakk> \<Longrightarrow>
    \<exists>q'. deq_n n q = Some (take n (abs q), q') \<and> inv q' \<and> abs q' = drop n (abs q)"
proof (induction n arbitrary: q)
  case 0
  then show ?case by simp
next
  case (Suc n)
  from Suc.prems have ne: "abs q \<noteq> []" by auto
  with Suc.prems deq_ok obtain q1 where
    q1: "deq q = Some (hd (abs q), q1)" "inv q1" "abs q1 = tl (abs q)" by blast
  from Suc.prems(2) ne q1(3) have "n \<le> length (abs q1)"
    by (cases "abs q") auto
  from Suc.IH [OF q1(2) this] obtain q2 where
    "deq_n n q1 = Some (take n (abs q1), q2)" "inv q2" "abs q2 = drop n (abs q1)" by blast
  with q1 ne show ?case
    by (auto simp: take_Suc drop_Suc)
qed

lemma fifo_order:
  assumes "inv q" and "room x q"
  shows "\<exists>q1 q2. enq x q = Some q1 \<and> deq_n (Suc (length (abs q))) q1 = Some (abs q @ [x], q2)
    \<and> abs q2 = []"
proof -
  from enq_ok [OF assms] obtain q1 where
    "enq x q = Some q1" "inv q1" "abs q1 = abs q @ [x]" by blast
  with deq_n_take [of q1 "Suc (length (abs q))"] show ?thesis by auto
qed

end

section \<open>Transition systems and their invariants\<close>

inductive reach :: "('s \<Rightarrow> 's \<Rightarrow> bool) \<Rightarrow> 's \<Rightarrow> 's \<Rightarrow> bool" for step s0 where
  reach_init: "reach step s0 s0"
| reach_step: "\<lbrakk>reach step s0 s; step s t\<rbrakk> \<Longrightarrow> reach step s0 t"

declare reach_init [intro, simp]

lemma reach_trans: "reach r b c \<Longrightarrow> reach r a b \<Longrightarrow> reach r a c"
  by (induction rule: reach.induct) (auto intro: reach_step)

locale transition_invariant =
  fixes step :: "'s \<Rightarrow> 's \<Rightarrow> bool"
    and start :: "'s \<Rightarrow> bool"
    and inv :: "'s \<Rightarrow> bool"
  assumes start_inv: "start s \<Longrightarrow> inv s"
    and step_inv: "\<lbrakk>inv s; step s t\<rbrakk> \<Longrightarrow> inv t"
begin

lemma reach_inv_from: "reach step s t \<Longrightarrow> inv s \<Longrightarrow> inv t"
  by (induction rule: reach.induct) (auto intro: step_inv)

lemma reach_inv: "\<lbrakk>start s; reach step s t\<rbrakk> \<Longrightarrow> inv t"
  by (blast intro: reach_inv_from start_inv)

end

text \<open>
  Two systems that simulate each other: what is reachable in one is, up to the relation, reachable
  in the other.
\<close>

locale bisimulation =
  fixes step1 :: "'a \<Rightarrow> 'a \<Rightarrow> bool"
    and step2 :: "'b \<Rightarrow> 'b \<Rightarrow> bool"
    and sim :: "'a \<Rightarrow> 'b \<Rightarrow> bool"
  assumes forward: "\<lbrakk>sim c d; step1 c c'\<rbrakk> \<Longrightarrow> \<exists>d'. step2 d d' \<and> sim c' d'"
    and backward: "\<lbrakk>sim c d; step2 d d'\<rbrakk> \<Longrightarrow> \<exists>c'. step1 c c' \<and> sim c' d'"
begin

lemma reach_forward: "\<lbrakk>reach step1 c c'; sim c d\<rbrakk> \<Longrightarrow> \<exists>d'. reach step2 d d' \<and> sim c' d'"
  by (induction rule: reach.induct) (metis reach_init, metis forward reach_step)

lemma reach_backward: "\<lbrakk>reach step2 d d'; sim c d\<rbrakk> \<Longrightarrow> \<exists>c'. reach step1 c c' \<and> sim c' d'"
  by (induction rule: reach.induct) (metis reach_init, metis backward reach_step)

end

end
