(* ===== verification/Ult_Sched.thy ===== *)
theory Ult_Sched
  imports Prelude
begin

text \<open>
  The scheduler of the user-level thread library (\<open>UserLevelThreadLibrary/scheduler.c\<close>) over the
  globals of \<open>main.c\<close> and the thread control blocks of \<open>threadtools.h\<close>. Pointers to control
  blocks are indices into the list of allocated blocks, \<open>NULL\<close> is \<open>None\<close>; the two queues are
  arrays of \<open>THREAD_MAX\<close> pointers. An operation returns \<open>None\<close> where the C program has
  undefined behaviour: a \<open>NULL\<close> dereference, an index out of an array, a division by zero.
\<close>

section \<open>Data\<close>

definition THREAD_MAX :: nat where "THREAD_MAX = 16"

text \<open>The place a \<open>sigsetjmp\<close> of a thread saved: the macro and the thread function it stands in.\<close>

datatype jmp_point =
    Fib_setup | Fib_yield
  | Fact_setup | Fact_yield
  | Bank_setup | Bank_lock | Bank_yield1 | Bank_yield2

record tcb =
  t_id :: int
  environment :: jmp_point
  t_arg :: i32
  t_i :: i32
  t_x :: i32
  t_y :: i32
  t_i2 :: i32
  t_z :: i32

record Bank =
  balance :: i32
  lock_owner :: int

datatype signo = SIGTSTP | SIGALRM

text \<open>The lines the program prints, one constructor per \<open>printf\<close> format.\<close>

datatype line =
    L_setup int string         \<comment> \<open>id and \<open>__func__\<close>\<close>
  | L_num int i32              \<comment> \<open>id and a Fibonacci number or a factorial\<close>
  | L_acquired int
  | L_bank int i32 i32         \<comment> \<open>id, old and new balance\<close>
  | L_released int
  | L_caught signo

text \<open>
  The globals; \<open>tcbs\<close> is the memory allocated for control blocks, \<open>out\<close> the standard output,
  \<open>pending\<close> the blocked signals that have arrived, \<open>alarm_set\<close> whether a timer of
  \<open>alarm\<close> is running.
\<close>

record ult =
  tcbs :: "tcb list"
  ready_queue :: "addr option list"
  waiting_queue :: "addr option list"
  rq_size :: int
  rq_current :: int
  wq_size :: int
  bank :: Bank
  timeslice :: int
  alarm_set :: bool
  pending :: "signo set"
  out :: "line list"

definition deref :: "ult \<Rightarrow> addr option \<Rightarrow> tcb option" where
  "deref s p = (case p of None \<Rightarrow> None
     | Some a \<Rightarrow> if a < length (tcbs s) then Some (tcbs s ! a) else None)"

definition RUNNING :: "ult \<Rightarrow> addr option option" where
  "RUNNING s = arr_get (ready_queue s) (rq_current s)"

definition putline :: "line \<Rightarrow> ult \<Rightarrow> ult" where
  "putline l s = s\<lparr>out := out s @ [l]\<rparr>"

section \<open>Queue operations\<close>

definition myclear :: "int \<Rightarrow> int \<Rightarrow> ult \<Rightarrow> ult option" where
  "myclear idx which s =
     (if which = 0
      then do { a \<leftarrow> arr_set (ready_queue s) idx None; Some (s\<lparr>ready_queue := a\<rparr>) }
      else do { a \<leftarrow> arr_set (waiting_queue s) idx None; Some (s\<lparr>waiting_queue := a\<rparr>) })"

text \<open>\<open>for (i = 0; i < wq_size; i++) waiting_queue[i] = waiting_queue[i+1];\<close> by the number
  of iterations left.\<close>

fun shift_waiting :: "nat \<Rightarrow> int \<Rightarrow> addr option list \<Rightarrow> addr option list option" where
  "shift_waiting 0 i a = Some a"
| "shift_waiting (Suc k) i a =
     do { v \<leftarrow> arr_get a (i + 1); a' \<leftarrow> arr_set a i v; shift_waiting k (i + 1) a' }"

text \<open>Clear the current slot, move the last ready thread into it, shrink the queue.\<close>

definition fill_hole :: "ult \<Rightarrow> ult option" where
  "fill_hole s = do {
     s \<leftarrow> myclear (rq_current s) 0 s;
     last_thread \<leftarrow> arr_get (ready_queue s) (rq_size s - 1);
     a \<leftarrow> arr_set (ready_queue s) (rq_current s) last_thread;
     s \<leftarrow> Some (s\<lparr>ready_queue := a\<rparr>);
     s \<leftarrow> myclear (rq_size s - 1) 0 s;
     Some (s\<lparr>rq_size := rq_size s - 1\<rparr>) }"

text \<open>The same with the test for the last position, which continues at the first thread.\<close>

definition remove_current :: "ult \<Rightarrow> ult option" where
  "remove_current s =
     (if rq_current s \<noteq> rq_size s - 1 then fill_hole s
      else do {
        s \<leftarrow> myclear (rq_current s) 0 s;
        s \<leftarrow> Some (s\<lparr>rq_size := rq_size s - 1\<rparr>);
        Some (s\<lparr>rq_current := 0\<rparr>) })"

text \<open>\<open>nolock_thread\<close> goes to the end of the waiting queue.\<close>

definition enqueue_waiting :: "ult \<Rightarrow> ult option" where
  "enqueue_waiting s = do {
     nolock_thread \<leftarrow> arr_get (ready_queue s) (rq_current s);
     a \<leftarrow> arr_set (waiting_queue s) (wq_size s) nolock_thread;
     Some (s\<lparr>waiting_queue := a, wq_size := wq_size s + 1\<rparr>) }"

text \<open>The first waiting thread becomes ready and owns the lock.\<close>

definition bring_waiting :: "ult \<Rightarrow> ult option" where
  "bring_waiting s = do {
     next_thread \<leftarrow> arr_get (waiting_queue s) 0;
     a \<leftarrow> arr_set (ready_queue s) (rq_size s) next_thread;
     s \<leftarrow> Some (s\<lparr>ready_queue := a, rq_size := rq_size s + 1\<rparr>);
     w \<leftarrow> shift_waiting (nat (wq_size s)) 0 (waiting_queue s);
     s \<leftarrow> Some (s\<lparr>waiting_queue := w\<rparr>);
     s \<leftarrow> myclear (wq_size s) 1 s;
     s \<leftarrow> Some (s\<lparr>wq_size := wq_size s - 1\<rparr>);
     p \<leftarrow> arr_get (ready_queue s) (rq_size s - 1);
     t \<leftarrow> deref s p;
     Some (s\<lparr>bank := (bank s)\<lparr>lock_owner := t_id t\<rparr>\<rparr>) }"

definition next_current :: "ult \<Rightarrow> ult option" where
  "next_current s =
     (if rq_size s = 0 then None
      else Some (s\<lparr>rq_current := (rq_current s + 1) mod rq_size s\<rparr>))"

section \<open>The scheduler\<close>

text \<open>
  \<open>see\<close> is the value \<open>sigsetjmp(sched_buf, 1)\<close> returns: 0 when \<open>main.c\<close> calls the
  scheduler, 1 from the signal handler, 2 from \<open>lock\<close>, 3 from \<open>thread_exit\<close>. The three
  definitions below are the three branches of the C function for a nonzero value.
\<close>

definition sched_lock_free :: "nat \<Rightarrow> ult \<Rightarrow> ult option" where
  "sched_lock_free see s = do {
     s \<leftarrow> bring_waiting s;
     s \<leftarrow> (if see = 3 then fill_hole s else Some s);
     s \<leftarrow> (if see = 2 then do { s \<leftarrow> enqueue_waiting s; fill_hole s } else Some s);
     (if see = 1 then next_current s else Some s) }"

definition sched_lock_held :: "nat \<Rightarrow> ult \<Rightarrow> ult option" where
  "sched_lock_held see s = do {
     s \<leftarrow> (if see = 3 then remove_current s else Some s);
     s \<leftarrow> (if see = 2 then do { s \<leftarrow> enqueue_waiting s; remove_current s } else Some s);
     (if see = 1 then next_current s else Some s) }"

definition sched_none_waiting :: "nat \<Rightarrow> ult \<Rightarrow> ult option" where
  "sched_none_waiting see s = do {
     s \<leftarrow> (if see = 3 then remove_current s else Some s);
     s \<leftarrow> (if see = 2
       then (if lock_owner (bank s) = -1
             then do {
               p \<leftarrow> arr_get (ready_queue s) (rq_current s);
               t \<leftarrow> deref s p;
               Some (s\<lparr>bank := (bank s)\<lparr>lock_owner := t_id t\<rparr>\<rparr>) }
             else do { s \<leftarrow> enqueue_waiting s; remove_current s })
       else Some s);
     (if see = 1 then next_current s else Some s) }"

text \<open>The scheduler either returns to \<open>main\<close> or jumps into the running thread.\<close>

datatype outcome = Returned | Jumped

definition scheduler :: "nat \<Rightarrow> ult \<Rightarrow> (outcome \<times> ult) option" where
  "scheduler see s = do {
     s \<leftarrow> (if see = 0 then Some (s\<lparr>rq_current := 0\<rparr>)
          else if wq_size s > 0
          then (if lock_owner (bank s) = -1 then sched_lock_free see s
                else sched_lock_held see s)
          else sched_none_waiting see s);
     (if rq_size s = 0 \<and> wq_size s = 0 then Some (Returned, s)
      else do {
        p \<leftarrow> RUNNING s;
        t \<leftarrow> deref s p;
        Some (Jumped, s) }) }"

end
