(* ===== verification/Ult_Refine.thy ===== *)
theory Ult_Refine
  imports Ult_Sched
begin

text \<open>
  What the scheduler promises, stated on two lists of threads: the ready list with the position
  of the running thread, the waiting list in arrival order, and the owner of the lock. The array
  operations of \<open>Ult_Sched\<close> are shown to implement it, without undefined behaviour.
\<close>

section \<open>The abstract queues\<close>

record queues =
  ready :: "addr list"
  cur :: nat
  waiting :: "addr list"
  owner :: int

text \<open>
  The running thread leaves the ready list: the last ready thread takes its place and runs
  next; if it was the last one itself, the first one runs next.
\<close>

definition drop_current :: "queues \<Rightarrow> queues" where
  "drop_current q =
     (if cur q = length (ready q) - 1 then q\<lparr>ready := butlast (ready q), cur := 0\<rparr>
      else q\<lparr>ready := (butlast (ready q))[cur q := last (ready q)]\<rparr>)"

definition advance :: "queues \<Rightarrow> queues" where
  "advance q = q\<lparr>cur := Suc (cur q) mod length (ready q)\<rparr>"

definition block_current :: "queues \<Rightarrow> queues" where
  "block_current q = drop_current (q\<lparr>waiting := waiting q @ [ready q ! cur q]\<rparr>)"

text \<open>A waiting thread that gets the lock is appended to the ready list.\<close>

definition wake_first :: "(addr \<Rightarrow> int) \<Rightarrow> queues \<Rightarrow> queues" where
  "wake_first ident q = q\<lparr>ready := ready q @ [hd (waiting q)], waiting := tl (waiting q),
     owner := ident (hd (waiting q))\<rparr>"

definition sched_spec :: "(addr \<Rightarrow> int) \<Rightarrow> nat \<Rightarrow> queues \<Rightarrow> queues" where
  "sched_spec ident see q =
     (if see = 0 then q\<lparr>cur := 0\<rparr>
      else if see = 2 \<and> waiting q = [] \<and> owner q = -1
        then q\<lparr>owner := ident (ready q ! cur q)\<rparr>
      else let q = (if waiting q \<noteq> [] \<and> owner q = -1 then wake_first ident q else q)
        in if see = 3 then drop_current q
           else if see = 2 then block_current q
           else if see = 1 then advance q
           else q)"

section \<open>The representation of the lists by the arrays\<close>

definition repr :: "ult \<Rightarrow> queues \<Rightarrow> bool" where
  "repr s q \<longleftrightarrow>
     ready_queue s = pad THREAD_MAX (ready q) \<and> rq_size s = int (length (ready q)) \<and>
     waiting_queue s = pad THREAD_MAX (waiting q) \<and> wq_size s = int (length (waiting q)) \<and>
     rq_current s = int (cur q) \<and> lock_owner (bank s) = owner q \<and>
     length (ready q) \<le> THREAD_MAX \<and> length (waiting q) \<le> THREAD_MAX \<and>
     set (ready q) \<union> set (waiting q) \<subseteq> {..<length (tcbs s)}"

text \<open>The fields the scheduler's queue operations leave alone.\<close>

definition same_rest :: "ult \<Rightarrow> ult \<Rightarrow> bool" where
  "same_rest s t \<longleftrightarrow> tcbs t = tcbs s \<and> balance (bank t) = balance (bank s) \<and>
     timeslice t = timeslice s \<and> alarm_set t = alarm_set s \<and> pending t = pending s \<and> out t = out s"

lemma same_rest_refl [simp]: "same_rest s s"
  by (simp add: same_rest_def)

lemma same_rest_trans: "same_rest s t \<Longrightarrow> same_rest t u \<Longrightarrow> same_rest s u"
  by (simp add: same_rest_def)

definition ident_of :: "ult \<Rightarrow> addr \<Rightarrow> int" where
  "ident_of s a = t_id (tcbs s ! a)"

lemma same_rest_ident: "same_rest s t \<Longrightarrow> ident_of t = ident_of s"
  by (rule ext) (simp add: same_rest_def ident_of_def)

lemma deref_Some [simp]: "a < length (tcbs s) \<Longrightarrow> deref s (Some a) = Some (tcbs s ! a)"
  by (simp add: deref_def)

text \<open>\<open>implements f g s q\<close>: from \<open>s\<close>, which represents \<open>q\<close>, \<open>f\<close> does what \<open>g\<close> says.\<close>

definition implements ::
  "(ult \<Rightarrow> ult option) \<Rightarrow> (queues \<Rightarrow> queues) \<Rightarrow> ult \<Rightarrow> queues \<Rightarrow> bool" where
  "implements f g s q \<longleftrightarrow> (\<exists>s'. f s = Some s' \<and> repr s' (g q) \<and> same_rest s s')"

lemma implements_bind:
  assumes "implements f g s q"
    and "\<And>s'. repr s' (g q) \<Longrightarrow> same_rest s s' \<Longrightarrow> implements f' g' s' (g q)"
  shows "implements (\<lambda>s. Option.bind (f s) f') (\<lambda>q. g' (g q)) s q"
  using assms unfolding implements_def by (metis Option.bind.bind_lunit same_rest_trans)

lemma implements_id: "repr s q \<Longrightarrow> implements Some (\<lambda>q. q) s q"
  by (simp add: implements_def)

section \<open>The queue operations\<close>

lemma fill_hole_repr:
  assumes r: "repr s q" and c: "cur q < length (ready q) - 1"
  shows "implements fill_hole
     (\<lambda>q. q\<lparr>ready := (butlast (ready q))[cur q := last (ready q)]\<rparr>) s q"
proof -
  let ?n = "length (ready q)"
  let ?b = "(ready_queue s)[cur q := None]" and ?l = "Some (last (ready q))"
  have idx: "rq_size s - 1 = int (?n - Suc 0)" "rq_current s = int (cur q)"
    using r c by (auto simp: repr_def)
  have rq: "ready_queue s = pad THREAD_MAX (ready q)" "?n \<le> THREAD_MAX" using r by (auto simp: repr_def)
  have n: "?n - Suc 0 < length (ready_queue s)" "cur q < length (ready_queue s)"
    using rq c by auto
  have clear: "arr_set (ready_queue s) (rq_current s) None = Some ?b"
    using n idx by (simp add: arr_set_nat)
  have "?b ! (?n - Suc 0) = ?l"
    using c n rq last_conv_nth [of "ready q"] by (cases "ready q = []") (simp_all add: nth_pad)
  then have get: "arr_get ?b (rq_size s - 1) = Some ?l"
    unfolding idx using n by (simp add: arr_get_nat)
  have set: "arr_set ?b (rq_current s) ?l = Some ((ready_queue s)[cur q := ?l])"
    using n idx by (simp add: arr_set_nat)
  have "(ready_queue s)[cur q := ?l, ?n - Suc 0 := None]
      = pad THREAD_MAX ((butlast (ready q))[cur q := last (ready q)])"
    using c rq by (simp add: pad_fill_hole)
  then have new: "arr_set ((ready_queue s)[cur q := ?l]) (rq_size s - 1) None
      = Some (pad THREAD_MAX ((butlast (ready q))[cur q := last (ready q)]))"
    unfolding idx using n by (simp add: arr_set_nat)
  have "set ((butlast (ready q))[cur q := last (ready q)]) \<subseteq> insert (last (ready q)) (set (butlast (ready q)))"
    by (rule set_update_subset_insert)
  also have "\<dots> \<subseteq> set (ready q)"
    using c by (cases "ready q = []") (auto dest: in_set_butlastD)
  finally have sub: "set ((butlast (ready q))[cur q := last (ready q)]) \<subseteq> set (ready q)" .
  have "fill_hole s = Some (s\<lparr>ready_queue :=
      pad THREAD_MAX ((butlast (ready q))[cur q := last (ready q)]), rq_size := rq_size s - 1\<rparr>)"
    by (simp add: fill_hole_def myclear_def clear get set new)
  then show ?thesis
    using r c sub by (auto simp: implements_def repr_def same_rest_def)
qed

lemma remove_current_repr:
  assumes r: "repr s q" and c: "cur q < length (ready q)"
  shows "implements remove_current drop_current s q"
proof (cases "cur q = length (ready q) - 1")
  case True
  have idx: "rq_current s = rq_size s - 1" using r c True by (simp add: repr_def)
  have ne: "ready q \<noteq> []" using c by auto
  have lt: "cur q < THREAD_MAX" using r c by (simp add: repr_def)
  have "(ready_queue s)[cur q := None] = pad THREAD_MAX (butlast (ready q))"
    using r ne True by (simp add: repr_def pad_drop_last)
  then have "arr_set (ready_queue s) (rq_current s) None = Some (pad THREAD_MAX (butlast (ready q)))"
    using r lt arr_set_nat [of "cur q" "ready_queue s" None] by (simp add: repr_def)
  then have "remove_current s = Some (s\<lparr>ready_queue := pad THREAD_MAX (butlast (ready q)),
      rq_size := rq_size s - 1, rq_current := 0\<rparr>)"
    using idx by (simp add: remove_current_def myclear_def)
  then show ?thesis
    using r c True
    by (auto simp: implements_def repr_def same_rest_def drop_current_def dest: in_set_butlastD)
next
  case False
  with c have lt: "cur q < length (ready q) - 1" by simp
  have "rq_current s \<noteq> rq_size s - 1" using r c False by (auto simp: repr_def)
  with fill_hole_repr [OF r lt] False show ?thesis
    by (simp add: implements_def remove_current_def drop_current_def)
qed

lemma enqueue_waiting_repr:
  assumes r: "repr s q" and c: "cur q < length (ready q)" and w: "length (waiting q) < THREAD_MAX"
  shows "implements enqueue_waiting (\<lambda>q. q\<lparr>waiting := waiting q @ [ready q ! cur q]\<rparr>) s q"
proof -
  have "enqueue_waiting s = Some (s\<lparr>waiting_queue := pad THREAD_MAX (waiting q @ [ready q ! cur q]),
      wq_size := wq_size s + 1\<rparr>)"
    using r c w by (simp add: enqueue_waiting_def repr_def pad_get arr_set_nat pad_snoc)
  moreover have "ready q ! cur q \<in> set (ready q)" using c by simp
  ultimately show ?thesis
    using r w by (auto simp: implements_def repr_def same_rest_def)
qed

lemma shift_waiting_nth:
  "i + k < length a \<Longrightarrow> \<exists>b. shift_waiting k (int i) a = Some b \<and> length b = length a \<and>
     (\<forall>j < length a. b ! j = (if i \<le> j \<and> j < i + k then a ! Suc j else a ! j))"
proof (induction k arbitrary: i a)
  case 0
  then show ?case by auto
next
  case (Suc k)
  let ?a = "a[i := a ! Suc i]"
  have "shift_waiting (Suc k) (int i) a = shift_waiting k (int (Suc i)) ?a"
    using Suc.prems arr_get_nat [of "Suc i" a] by (simp add: arr_set_nat add.commute)
  moreover obtain b where "shift_waiting k (int (Suc i)) ?a = Some b" "length b = length ?a"
    "\<forall>j < length ?a. b ! j = (if Suc i \<le> j \<and> j < Suc i + k then ?a ! Suc j else ?a ! j)"
    using Suc.IH [of "Suc i" ?a] Suc.prems by auto
  ultimately show ?case
    using Suc.prems by (auto simp: nth_list_update) (metis le_antisym not_less_eq_eq)
qed

lemma shift_waiting_pad:
  assumes "w \<noteq> []" and "length w < n"
  shows "shift_waiting (length w) 0 (pad n w) = Some (pad n (tl w))"
proof -
  obtain b where b: "shift_waiting (length w) (int 0) (pad n w) = Some b" "length b = length (pad n w)"
    "\<forall>j < n. b ! j = (if j < length w then pad n w ! Suc j else pad n w ! j)"
    using shift_waiting_nth [of 0 "length w" "pad n w"] assms by auto
  have "b = pad n (tl w)"
    using assms b by (intro pad_eqI) (auto simp: nth_pad nth_tl)
  with b show ?thesis by simp
qed

lemma bring_waiting_repr:
  assumes r: "repr s q" and w: "waiting q \<noteq> []" "length (waiting q) < THREAD_MAX"
    and room: "length (ready q) < THREAD_MAX"
  shows "implements bring_waiting (wake_first (ident_of s)) s q"
proof -
  obtain p ps where ps: "waiting q = p # ps" using w(1) by (cases "waiting q") auto
  have p: "p < length (tcbs s)" using r ps by (auto simp: repr_def)
  have first: "arr_get (waiting_queue s) 0 = Some (Some p)"
    using r ps pad_get [of 0 "waiting q" THREAD_MAX] by (auto simp: repr_def)
  have app: "arr_set (ready_queue s) (rq_size s) (Some p) = Some (pad THREAD_MAX (ready q @ [p]))"
    using r room by (simp add: repr_def arr_set_nat pad_snoc)
  have "nat (wq_size s) = length (waiting q)"
    using r by (simp add: repr_def)
  then have shift: "shift_waiting (nat (wq_size s)) 0 (waiting_queue s) = Some (pad THREAD_MAX ps)"
    using r shift_waiting_pad [OF w] ps by (simp add: repr_def)
  have "(pad THREAD_MAX ps)[Suc (length ps) := None] = pad THREAD_MAX ps"
    using w ps by (intro pad_eqI) (auto simp: nth_pad nth_list_update)
  then have clear: "arr_set (pad THREAD_MAX ps) (wq_size s) None = Some (pad THREAD_MAX ps)"
    using r w ps arr_set_nat [of "Suc (length ps)" "pad THREAD_MAX ps" None] by (simp add: repr_def)
  have head: "arr_get (pad THREAD_MAX (ready q @ [p])) (rq_size s) = Some (Some p)"
    using r room pad_get [of "length (ready q)" "ready q @ [p]" THREAD_MAX] by (simp add: repr_def)
  have "bring_waiting s = Some (s\<lparr>ready_queue := pad THREAD_MAX (ready q @ [p]),
      rq_size := rq_size s + 1, waiting_queue := pad THREAD_MAX ps, wq_size := wq_size s - 1,
      bank := (bank s)\<lparr>lock_owner := t_id (tcbs s ! p)\<rparr>\<rparr>)"
    using p by (simp add: bring_waiting_def first app shift clear myclear_def head)
  then show ?thesis
    using r room ps w by (auto simp: implements_def repr_def same_rest_def wake_first_def ident_of_def)
qed

lemma next_current_repr:
  assumes "repr s q" and "ready q \<noteq> []"
  shows "implements next_current advance s q"
proof -
  have "(int (cur q) + 1) mod int (length (ready q)) = int (Suc (cur q) mod length (ready q))"
    by (simp add: of_nat_mod add.commute)
  with assms show ?thesis
    by (auto simp: implements_def next_current_def advance_def repr_def same_rest_def)
qed

section \<open>The scheduler implements its specification\<close>

text \<open>
  The states in which the scheduler may be entered: nothing to run is only possible in the call
  from \<open>main\<close>; there is room for a waiting thread to become ready; when threads wait for a lock
  that is taken, some thread stays ready after the running one has left.
\<close>

definition sched_pre :: "nat \<Rightarrow> queues \<Rightarrow> bool" where
  "sched_pre see q \<longleftrightarrow>
     (if see = 0 then ready q \<noteq> [] \<or> waiting q = []
      else see \<in> {1, 2, 3} \<and> cur q < length (ready q) \<and>
        length (ready q) + length (waiting q) \<le> THREAD_MAX \<and>
        (waiting q \<noteq> [] \<and> owner q \<noteq> -1 \<and> see \<noteq> 1 \<longrightarrow> 1 < length (ready q)) \<and>
        (see = 2 \<and> owner q \<noteq> -1 \<longrightarrow> 1 < length (ready q)))"

lemma sched_lock_free_repr:
  assumes r: "repr s q" and pre: "sched_pre see q" and see: "see \<noteq> 0"
    and w: "waiting q \<noteq> []" and free: "owner q = -1"
  shows "implements (sched_lock_free see) (sched_spec (ident_of s) see) s q"
proof -
  let ?q = "wake_first (ident_of s) q"
  have c: "cur q < length (ready q)" "see \<in> {1, 2, 3}"
    and room: "length (ready q) + length (waiting q) \<le> THREAD_MAX"
    using pre see by (auto simp: sched_pre_def)
  have bound: "length (waiting q) < THREAD_MAX" "length (ready q) < THREAD_MAX"
    using room w c by (cases "waiting q"; force)+
  obtain s1 where s1: "bring_waiting s = Some s1" "repr s1 ?q" "same_rest s s1"
    using bring_waiting_repr [OF r w bound] by (auto simp: implements_def)
  have c1: "cur ?q < length (ready ?q) - 1" "ready ?q \<noteq> []" "length (waiting ?q) < THREAD_MAX"
    using c w bound by (auto simp: wake_first_def)
  consider "see = 1" | "see = 2" | "see = 3" using c by auto
  then show ?thesis
  proof cases
    case 1
    with next_current_repr [OF s1(2) c1(2)] s1 w free show ?thesis
      by (auto simp: implements_def sched_lock_free_def sched_spec_def intro: same_rest_trans)
  next
    case 2
    let ?q2 = "?q\<lparr>waiting := waiting ?q @ [ready ?q ! cur ?q]\<rparr>"
    obtain s2 where s2: "enqueue_waiting s1 = Some s2" "repr s2 ?q2" "same_rest s1 s2"
      using enqueue_waiting_repr [OF s1(2) less_le_trans [OF c1(1) diff_le_self] c1(3)] by (auto simp: implements_def)
    have "cur ?q2 < length (ready ?q2) - 1" using c1(1) by simp
    from fill_hole_repr [OF s2(2) this] s1 s2 2 w free c1(1) show ?thesis
      by (auto simp: implements_def sched_lock_free_def sched_spec_def block_current_def Let_def
          drop_current_def intro: same_rest_trans)
  next
    case 3
    with fill_hole_repr [OF s1(2) c1(1)] s1 w free c1(1) show ?thesis
      by (auto simp: implements_def sched_lock_free_def sched_spec_def drop_current_def Let_def
          intro: same_rest_trans)
  qed
qed

lemma block_current_repr:
  assumes r: "repr s q" and c: "cur q < length (ready q)" and w: "length (waiting q) < THREAD_MAX"
  shows "implements (\<lambda>s. do { s \<leftarrow> enqueue_waiting s; remove_current s }) block_current s q"
proof -
  obtain s1 where s1: "enqueue_waiting s = Some s1"
    "repr s1 (q\<lparr>waiting := waiting q @ [ready q ! cur q]\<rparr>)" "same_rest s s1"
    using enqueue_waiting_repr [OF assms] by (auto simp: implements_def)
  from remove_current_repr [OF s1(2)] c s1 show ?thesis
    by (auto simp: implements_def block_current_def intro: same_rest_trans)
qed

lemma sched_lock_held_repr:
  assumes r: "repr s q" and pre: "sched_pre see q" and see: "see \<noteq> 0"
    and w: "waiting q \<noteq> []" and held: "owner q \<noteq> -1"
  shows "implements (sched_lock_held see) (sched_spec (ident_of s) see) s q"
proof -
  have c: "cur q < length (ready q)" "see \<in> {1, 2, 3}" "ready q \<noteq> []"
    and bound: "length (waiting q) < THREAD_MAX"
    using pre see by (auto simp: sched_pre_def)
  consider "see = 1" | "see = 2" | "see = 3" using c by auto
  then show ?thesis
    using next_current_repr [OF r c(3)] block_current_repr [OF r c(1) bound]
      remove_current_repr [OF r c(1)] w held
    by cases (auto simp: implements_def sched_lock_held_def sched_spec_def)
qed

lemma sched_none_waiting_repr:
  assumes r: "repr s q" and pre: "sched_pre see q" and see: "see \<noteq> 0" and w: "waiting q = []"
  shows "implements (sched_none_waiting see) (sched_spec (ident_of s) see) s q"
proof -
  have c: "cur q < length (ready q)" "see \<in> {1, 2, 3}" "ready q \<noteq> []"
    and bound: "length (waiting q) < THREAD_MAX"
    using pre see w by (auto simp: sched_pre_def THREAD_MAX_def)
  have run: "arr_get (ready_queue s) (rq_current s) = Some (Some (ready q ! cur q))"
    using r c by (simp_all add: repr_def pad_get)
  have mem: "ready q ! cur q < length (tcbs s)"
    using r nth_mem [OF c(1)] unfolding repr_def by blast
  have free: "lock_owner (bank s) = owner q" using r by (simp add: repr_def)
  have lock: "repr (s\<lparr>bank := (bank s)\<lparr>lock_owner := i\<rparr>\<rparr>) (q\<lparr>owner := i\<rparr>)" for i
    using r by (simp add: repr_def)
  consider "see = 1" | "see = 2" "owner q = -1" | "see = 2" "owner q \<noteq> -1" | "see = 3"
    using c by auto
  then show ?thesis
  proof cases
    case 2
    with run mem free lock w show ?thesis
      by (simp add: implements_def sched_none_waiting_def sched_spec_def ident_of_def same_rest_def)
  qed (use next_current_repr [OF r c(3)] block_current_repr [OF r c(1) bound]
      remove_current_repr [OF r c(1)] w free in
      \<open>auto simp: implements_def sched_none_waiting_def sched_spec_def\<close>)
qed

lemma butlast_short [simp]: "\<not> Suc 0 < length xs \<Longrightarrow> butlast xs = []"
  by (cases xs) auto

lemma sched_spec_cur:
  fixes ident :: "addr \<Rightarrow> int"
  assumes pre: "sched_pre see q"
  defines "q' \<equiv> sched_spec ident see q"
  shows "ready q' = [] \<and> waiting q' = [] \<or> cur q' < length (ready q')"
proof (cases "see = 0")
  case True
  with pre show ?thesis by (cases "ready q") (auto simp: q'_def sched_pre_def sched_spec_def)
next
  case False
  with pre have c: "cur q < length (ready q)" "see \<in> {1, 2, 3}" by (auto simp: sched_pre_def)
  then have "ready q \<noteq> []" by auto
  with False c pre show ?thesis
    by (auto simp: q'_def sched_spec_def wake_first_def drop_current_def advance_def
        block_current_def sched_pre_def Let_def split: if_splits)
qed

lemma scheduler_repr:
  assumes r: "repr s q" and pre: "sched_pre see q"
  defines "q' \<equiv> sched_spec (ident_of s) see q"
  shows "\<exists>s'. scheduler see s = Some (if ready q' = [] \<and> waiting q' = [] then Returned else Jumped, s')
    \<and> repr s' q' \<and> same_rest s s'"
proof -
  have "implements (\<lambda>s. if see = 0 then Some (s\<lparr>rq_current := 0\<rparr>)
      else if wq_size s > 0 then (if lock_owner (bank s) = -1 then sched_lock_free see s
        else sched_lock_held see s)
      else sched_none_waiting see s) (sched_spec (ident_of s) see) s q"
  proof (cases "see = 0")
    case True
    with r show ?thesis by (auto simp: implements_def sched_spec_def repr_def same_rest_def)
  next
    case False
    have "(wq_size s > 0) = (waiting q \<noteq> [])" "lock_owner (bank s) = owner q"
      using r by (auto simp: repr_def)
    with False sched_lock_free_repr [OF r pre False] sched_lock_held_repr [OF r pre False]
      sched_none_waiting_repr [OF r pre False]
    show ?thesis by (auto simp: implements_def)
  qed
  then obtain s' where s': "scheduler see s =
      (if rq_size s' = 0 \<and> wq_size s' = 0 then Some (Returned, s')
       else do { p \<leftarrow> RUNNING s'; t \<leftarrow> deref s' p; Some (Jumped, s') })"
    and q': "repr s' q'" "same_rest s s'"
    by (auto simp: implements_def scheduler_def q'_def)
  have empty: "rq_size s' = 0 \<and> wq_size s' = 0 \<longleftrightarrow> ready q' = [] \<and> waiting q' = []"
    using q' by (simp add: repr_def)
  show ?thesis
  proof (cases "ready q' = [] \<and> waiting q' = []")
    case True
    with s' q' empty show ?thesis by auto
  next
    case False
    then have c: "cur q' < length (ready q')"
      using sched_spec_cur [OF pre] by (auto simp: q'_def)
    then have "RUNNING s' = Some (Some (ready q' ! cur q'))"
      using q' by (simp add: RUNNING_def repr_def pad_get)
    moreover have "ready q' ! cur q' < length (tcbs s')"
      using q' nth_mem [OF c] unfolding repr_def by blast
    ultimately show ?thesis using s' q' empty False by (auto split: if_splits)
  qed
qed

end
