(* ===== verification/Ult_Lock.thy ===== *)
theory Ult_Lock
  imports Ult_Refine "HOL-Library.Multiset"
begin

text \<open>
  The discipline of the bank lock over the two queues: the owner is a ready thread, it is the only
  ready thread inside the critical section, and every waiting thread stands at its call of
  \<open>lock\<close>. Each way of entering the scheduler keeps it.
\<close>

section \<open>Threads inside the critical section\<close>

fun in_cs :: "jmp_point \<Rightarrow> bool" where
  "in_cs Bank_lock = True"
| "in_cs Bank_yield1 = True"
| "in_cs Bank_yield2 = True"
| "in_cs _ = False"

definition threads :: "queues \<Rightarrow> addr set" where
  "threads q = set (ready q) \<union> set (waiting q)"

definition lock_ok :: "(addr \<Rightarrow> int) \<Rightarrow> (addr \<Rightarrow> jmp_point) \<Rightarrow> queues \<Rightarrow> bool" where
  "lock_ok ident env q \<longleftrightarrow>
     distinct (ready q @ waiting q) \<and> inj_on ident (threads q) \<and> -1 \<notin> ident ` threads q \<and>
     (\<forall>a \<in> set (waiting q). env a = Bank_lock) \<and>
     (\<forall>a \<in> set (ready q). in_cs (env a) \<longleftrightarrow> ident a = owner q) \<and>
     (owner q = -1 \<longrightarrow> waiting q = []) \<and>
     (owner q \<noteq> -1 \<longrightarrow> owner q \<in> ident ` set (ready q))"

lemma lock_okI [intro?]:
  assumes "distinct (ready q)" and "distinct (waiting q)" and "set (ready q) \<inter> set (waiting q) = {}"
    and "inj_on ident (threads q)" and "-1 \<notin> ident ` threads q"
    and "\<And>a. a \<in> set (waiting q) \<Longrightarrow> env a = Bank_lock"
    and "\<And>a. a \<in> set (ready q) \<Longrightarrow> in_cs (env a) \<longleftrightarrow> ident a = owner q"
    and "owner q = -1 \<Longrightarrow> waiting q = []"
    and "owner q \<noteq> -1 \<Longrightarrow> \<exists>a \<in> set (ready q). ident a = owner q"
  shows "lock_ok ident env q"
  using assms unfolding lock_ok_def distinct_append by (metis imageI)

lemma lock_okD:
  assumes "lock_ok ident env q"
  shows "distinct (ready q)" and "distinct (waiting q)" and "set (ready q) \<inter> set (waiting q) = {}"
    and "inj_on ident (threads q)" and "-1 \<notin> ident ` threads q"
    and "a \<in> set (waiting q) \<Longrightarrow> env a = Bank_lock"
    and "a \<in> set (ready q) \<Longrightarrow> in_cs (env a) \<longleftrightarrow> ident a = owner q"
    and "owner q = -1 \<Longrightarrow> waiting q = []"
    and "owner q \<noteq> -1 \<Longrightarrow> \<exists>a \<in> set (ready q). ident a = owner q"
proof -
  note * = assms [unfolded lock_ok_def distinct_append]
  show "distinct (ready q)" "distinct (waiting q)" "set (ready q) \<inter> set (waiting q) = {}"
    "inj_on ident (threads q)" "-1 \<notin> ident ` threads q"
    using * by blast+
  show "a \<in> set (waiting q) \<Longrightarrow> env a = Bank_lock" using * by blast
  show "a \<in> set (ready q) \<Longrightarrow> in_cs (env a) \<longleftrightarrow> ident a = owner q" using * by blast
  show "owner q = -1 \<Longrightarrow> waiting q = []" using * by blast
  show "\<exists>a \<in> set (ready q). ident a = owner q" if "owner q \<noteq> -1"
  proof -
    from * that have "owner q \<in> ident ` set (ready q)" by blast
    then show ?thesis by (metis imageE)
  qed
qed

section \<open>The list operations\<close>

lemma mset_drop_current:
  assumes "cur q < length (ready q)"
  shows "mset (ready (drop_current q)) = mset (ready q) - {#ready q ! cur q#}"
proof (cases "cur q = length (ready q) - 1")
  case True
  have "ready q \<noteq> []" using assms by auto
  with True show ?thesis
    by (cases "ready q" rule: rev_cases) (auto simp: drop_current_def)
next
  case False
  from assms obtain xs x where q: "ready q = xs @ [x]" by (cases "ready q" rule: rev_cases) auto
  with assms False have c: "cur q < length xs" by simp
  have "mset (xs[cur q := x]) = add_mset x (mset xs - {#xs ! cur q#})"
    using c by (rule mset_update)
  also have "\<dots> = mset xs + {#x#} - {#xs ! cur q#}"
    using c by (simp add: multiset_diff_union_assoc)
  finally show ?thesis using q c False by (simp add: drop_current_def nth_append)
qed

lemma drop_current_facts:
  assumes "distinct (ready q)" and "cur q < length (ready q)"
  shows "distinct (ready (drop_current q))"
    and "set (ready (drop_current q)) = set (ready q) - {ready q ! cur q}"
    and "length (ready q) = Suc (length (ready (drop_current q)))"
    and "waiting (drop_current q) = waiting q" and "owner (drop_current q) = owner q"
proof -
  let ?a = "ready q ! cur q"
  have a: "?a \<in> set (ready q)" using assms(2) by simp
  have m: "mset (ready (drop_current q)) = mset (remove1 ?a (ready q))"
    using mset_drop_current [OF assms(2)] by simp
  from mset_eq_imp_distinct_iff [OF m] show "distinct (ready (drop_current q))"
    using assms(1) by simp
  from mset_eq_setD [OF m] show "set (ready (drop_current q)) = set (ready q) - {?a}"
    using assms(1) by simp
  from mset_eq_length [OF m] a length_pos_if_in_set [OF a]
  show "length (ready q) = Suc (length (ready (drop_current q)))"
    by (simp add: length_remove1)
  show "waiting (drop_current q) = waiting q" "owner (drop_current q) = owner q"
    by (simp_all add: drop_current_def)
qed

lemma owner_other:
  assumes "lock_ok ident env q" and "owner q \<noteq> -1" and "cur q < length (ready q)"
    and "ident (ready q ! cur q) \<noteq> owner q"
  shows "1 < length (ready q)"
proof -
  obtain b where b: "b \<in> set (ready q)" "ident b = owner q"
    using lock_okD(9) [OF assms(1,2)] by blast
  with assms(4) have "b \<noteq> ready q ! cur q" by auto
  with b(1) assms(3) have "card {b, ready q ! cur q} \<le> card (set (ready q))"
    by (intro card_mono) auto
  with \<open>b \<noteq> ready q ! cur q\<close> show ?thesis using card_length [of "ready q"] by simp
qed

section \<open>The four ways into the scheduler\<close>

text \<open>Yielding: no thread enters or leaves.\<close>

lemma sched_spec_yield:
  assumes "lock_ok ident env q"
  shows "sched_spec ident 1 q = advance q"
  using lock_okD(8) [OF assms] by (auto simp: sched_spec_def)

lemma lock_ok_yield:
  assumes "lock_ok ident env q"
  shows "lock_ok ident env (sched_spec ident 1 q)"
  using assms unfolding sched_spec_yield [OF assms] by (simp add: lock_ok_def advance_def threads_def)

lemma sched_pre_yield:
  "lock_ok ident env q \<Longrightarrow> cur q < length (ready q) \<Longrightarrow>
     length (ready q) + length (waiting q) \<le> THREAD_MAX \<Longrightarrow> sched_pre 1 q"
  by (simp add: sched_pre_def)

text \<open>Calling \<open>lock\<close>: the thread was outside and stands at the call now.\<close>

lemma sched_pre_lock:
  assumes "lock_ok ident (env(ready q ! cur q := Bank_setup)) q" and "cur q < length (ready q)"
    and "length (ready q) + length (waiting q) \<le> THREAD_MAX"
  shows "sched_pre 2 q"
proof -
  have "ident (ready q ! cur q) \<noteq> owner q"
    using lock_okD(7) [OF assms(1) nth_mem [OF assms(2)]] by simp
  with owner_other [OF assms(1) _ assms(2)] assms(2,3) show ?thesis
    by (auto simp: sched_pre_def)
qed

lemma lock_ok_lock:
  assumes ok: "lock_ok ident (env(ready q ! cur q := Bank_setup)) q" and c: "cur q < length (ready q)"
    and at: "env (ready q ! cur q) = Bank_lock"
  shows "lock_ok ident env (sched_spec ident 2 q)"
    and "threads (sched_spec ident 2 q) = threads q"
proof -
  let ?a = "ready q ! cur q" and ?q = "q\<lparr>waiting := waiting q @ [ready q ! cur q]\<rparr>"
  note D = lock_okD [OF ok]
  have a: "?a \<in> set (ready q)" using c by simp
  then have aw: "?a \<notin> set (waiting q)" "ident ?a \<noteq> owner q" "?a \<in> threads q"
    using D(3) D(7) [OF a] by (auto simp: threads_def)
  have cs: "b \<in> set (ready q) \<Longrightarrow> b \<noteq> ?a \<Longrightarrow> in_cs (env b) \<longleftrightarrow> ident b = owner q" for b
    using D(7) [of b] by simp
  have "lock_ok ident env (sched_spec ident 2 q) \<and> threads (sched_spec ident 2 q) = threads q"
  proof (cases "owner q = -1")
    case True
    let ?r = "q\<lparr>owner := ident ?a\<rparr>"
    have spec: "sched_spec ident 2 q = ?r" and w: "waiting q = []"
      using True D(8) by (simp_all add: sched_spec_def)
    have "in_cs (env b) \<longleftrightarrow> ident b = ident ?a" if b: "b \<in> set (ready q)" for b
    proof (cases "b = ?a")
      case False
      have "b \<in> threads q" using b by (simp add: threads_def)
      with False have "ident b \<noteq> ident ?a" "ident b \<noteq> -1"
        using inj_onD [OF D(4) _ _ aw(3)] D(5) by (blast, metis imageI)
      with cs [OF b False] True show ?thesis by simp
    qed (use at in simp)
    then have "lock_ok ident env ?r"
    proof (intro lock_okI)
      show "inj_on ident (threads ?r)" "-1 \<notin> ident ` threads ?r"
        using D(4,5) by (simp_all add: threads_def)
      show "\<exists>b \<in> set (ready ?r). ident b = owner ?r" using a by auto
    qed (use D(1) w in simp_all)
    then show ?thesis by (simp add: spec threads_def)
  next
    case False
    have spec: "sched_spec ident 2 q = drop_current ?q"
      using False by (simp add: sched_spec_def block_current_def)
    have d: "distinct (ready (drop_current ?q))"
      "set (ready (drop_current ?q)) = set (ready q) - {?a}"
      "waiting (drop_current ?q) = waiting q @ [?a]" "owner (drop_current ?q) = owner q"
      using drop_current_facts [of ?q] D(1) c by simp_all
    have th: "threads (drop_current ?q) = threads q"
      using d a by (auto simp: threads_def)
    have "lock_ok ident env (drop_current ?q)"
    proof (intro lock_okI)
      show "env b = Bank_lock" if "b \<in> set (waiting (drop_current ?q))" for b
        using that D(6) [of b] at d(3) by (auto split: if_splits)
      show "\<exists>b \<in> set (ready (drop_current ?q)). ident b = owner (drop_current ?q)"
        using D(9) [OF False] aw(2) d by auto
    qed (use D(2-5) d aw cs False th in auto)
    with th show ?thesis by (simp add: spec)
  qed
  then show "lock_ok ident env (sched_spec ident 2 q)" "threads (sched_spec ident 2 q) = threads q"
    by simp_all
qed

text \<open>Leaving from outside the critical section.\<close>

lemma sched_pre_exit:
  assumes "lock_ok ident env q" and "cur q < length (ready q)" and "\<not> in_cs (env (ready q ! cur q))"
    and "length (ready q) + length (waiting q) \<le> THREAD_MAX"
  shows "sched_pre 3 q"
proof -
  have "ident (ready q ! cur q) \<noteq> owner q"
    using lock_okD(7) [OF assms(1) nth_mem [OF assms(2)]] assms(3) by simp
  with owner_other [OF assms(1) _ assms(2)] assms(2,4) show ?thesis
    by (auto simp: sched_pre_def)
qed

lemma lock_ok_exit:
  assumes ok: "lock_ok ident env q" and c: "cur q < length (ready q)"
    and out: "\<not> in_cs (env (ready q ! cur q))"
  shows "lock_ok ident env (sched_spec ident 3 q)"
    and "threads (sched_spec ident 3 q) = threads q - {ready q ! cur q}"
proof -
  let ?a = "ready q ! cur q"
  note D = lock_okD [OF ok]
  have a: "?a \<in> set (ready q)" using c by simp
  then have aw: "?a \<notin> set (waiting q)" "ident ?a \<noteq> owner q"
    using D(3) D(7) [OF a] out by auto
  have spec: "sched_spec ident 3 q = drop_current q"
    using D(8) by (auto simp: sched_spec_def)
  note d = drop_current_facts [OF D(1) c]
  show th: "threads (sched_spec ident 3 q) = threads q - {?a}"
    using d aw spec by (auto simp: threads_def)
  show "lock_ok ident env (sched_spec ident 3 q)"
    unfolding spec
  proof (intro lock_okI)
    show "inj_on ident (threads (drop_current q))" "-1 \<notin> ident ` threads (drop_current q)"
      using D(4,5) th spec by (auto intro: inj_on_subset)
    show "\<exists>b \<in> set (ready (drop_current q)). ident b = owner (drop_current q)"
      if "owner (drop_current q) \<noteq> -1"
      using D(9) aw(2) d that by auto
  qed (use D(2,3,6-8) d in auto)
qed

text \<open>Leaving after \<open>unlock\<close>: the first waiting thread, if any, gets the lock.\<close>

lemma release_exit:
  assumes ok: "lock_ok ident env q" and c: "cur q < length (ready q)"
    and own: "in_cs (env (ready q ! cur q))"
    and room: "length (ready q) + length (waiting q) \<le> THREAD_MAX"
  defines "q0 \<equiv> q\<lparr>owner := -1\<rparr>"
  shows "sched_pre 3 q0" and "lock_ok ident env (sched_spec ident 3 q0)"
    and "threads (sched_spec ident 3 q0) = threads q - {ready q ! cur q}"
proof -
  let ?a = "ready q ! cur q"
  note D = lock_okD [OF ok]
  have a: "?a \<in> set (ready q)" using c by simp
  then have aw: "?a \<notin> set (waiting q)" "ident ?a = owner q" "?a \<in> threads q"
    using D(3) D(7) [OF a] own by (auto simp: threads_def)
  have others: "\<not> in_cs (env b)" if "b \<in> set (ready q)" "b \<noteq> ?a" for b
    using D(4) D(7) [of b] that aw by (auto simp: threads_def inj_on_def)
  show "sched_pre 3 q0" using c room by (simp add: sched_pre_def q0_def)
  define q1 where "q1 = (if waiting q0 \<noteq> [] \<and> owner q0 = -1 then wake_first ident q0 else q0)"
  have spec: "sched_spec ident 3 q0 = drop_current q1"
    by (simp add: sched_spec_def q1_def Let_def)
  have q1: "distinct (ready q1)" "cur q1 < length (ready q1)" "ready q1 ! cur q1 = ?a"
    using D(1-3) c by (cases "waiting q"; auto simp: q1_def q0_def wake_first_def nth_append)+
  note d = drop_current_facts [OF q1(1,2)]
  have th: "threads q1 = threads q" "?a \<notin> set (waiting q1)"
    using aw(1) by (cases "waiting q"; auto simp: q1_def q0_def wake_first_def threads_def)+
  then show th': "threads (sched_spec ident 3 q0) = threads q - {?a}"
    using d q1 by (auto simp: threads_def spec)
  have inj: "inj_on ident (threads (drop_current q1))" "-1 \<notin> ident ` threads (drop_current q1)"
    using D(4,5) th' spec by (auto intro: inj_on_subset)
  show "lock_ok ident env (sched_spec ident 3 q0)"
    unfolding spec
  proof (cases "waiting q")
    case Nil
    then have q1': "q1 = q0" by (simp add: q1_def q0_def)
    have ids: "ident b \<noteq> -1" if "b \<in> set (ready q)" for b
      using D(5) that unfolding threads_def by (metis UnI1 imageI)
    have r: "set (ready (drop_current q1)) = set (ready q) - {?a}"
      "waiting (drop_current q1) = []" "owner (drop_current q1) = -1"
      using d(2,4,5) Nil by (simp_all add: q1' q0_def)
    show "lock_ok ident env (drop_current q1)"
      using d(1) r others ids inj by (intro lock_okI) simp_all
  next
    case (Cons b bs)
    then have q1': "q1 = q0\<lparr>ready := ready q @ [b], waiting := bs, owner := ident b\<rparr>"
      by (simp add: q1_def q0_def wake_first_def)
    have b: "b \<in> threads q" "env b = Bank_lock" "b \<noteq> ?a"
      using Cons aw(1) D(6) [of b] by (auto simp: threads_def)
    have bi: "ident c = ident b \<longleftrightarrow> c = b" if "c \<in> threads q" for c
      using inj_onD [OF D(4) _ that b(1)] by blast
    have nb: "ident b \<noteq> -1" using D(5) b(1) by (metis imageI)
    have set1: "set (ready (drop_current q1)) = insert b (set (ready q) - {?a})"
    proof -
      have "set (ready q1) = insert b (set (ready q))" unfolding q1' by simp
      then show ?thesis unfolding d(2) q1(3) using b(3) by blast
    qed
    have r: "waiting (drop_current q1) = bs" "owner (drop_current q1) = ident b"
      unfolding d(4,5) unfolding q1' by simp_all
    show "lock_ok ident env (drop_current q1)"
    proof (intro lock_okI)
      show "in_cs (env c) \<longleftrightarrow> ident c = owner (drop_current q1)"
        if c1: "c \<in> set (ready (drop_current q1))" for c
      proof -
        consider "c = b" | "c \<in> set (ready q)" "c \<noteq> ?a" "c \<noteq> b"
          using c1 unfolding set1 by blast
        then show ?thesis
        proof cases
          case 2
          with others [of c] bi [of c] r show ?thesis by (simp add: threads_def)
        qed (use b r in simp)
      qed
      show "set (ready (drop_current q1)) \<inter> set (waiting (drop_current q1)) = {}"
        using D(2,3) Cons unfolding r set1 by auto
      show "distinct (waiting (drop_current q1))" using D(2) Cons unfolding r by simp
      show "env c = Bank_lock" if "c \<in> set (waiting (drop_current q1))" for c
        using D(6) [of c] Cons that unfolding r by simp
      show "\<exists>c \<in> set (ready (drop_current q1)). ident c = owner (drop_current q1)"
        unfolding r set1 by simp
      show "waiting (drop_current q1) = []" if "owner (drop_current q1) = -1"
        using nb that r by simp
    qed (rule d(1) inj)+
  qed
qed

end
