(* ===== verification/Ult_Threads.thy ===== *)
theory Ult_Threads
  imports Ult_Sched
begin

text \<open>
  The macros of \<open>threadtools.h\<close>, the thread functions of \<open>threads.c\<close>, the signal handler and
  \<open>main.c\<close>. A thread runs from the place its \<open>environment\<close> names to its next call of
  \<open>thread_yield\<close>, \<open>lock\<close> or \<open>thread_exit\<close>; \<open>SIGTSTP\<close> and \<open>SIGALRM\<close> are
  blocked meanwhile, so a signal only becomes pending and one such run is one step of the system; \<open>Ult_Masks\<close>
  proves this of the masks the program sets.
\<close>

section \<open>Access to the running thread\<close>

definition get_running :: "ult \<Rightarrow> tcb option" where
  "get_running s = do { p \<leftarrow> RUNNING s; deref s p }"

definition set_running :: "(tcb \<Rightarrow> tcb) \<Rightarrow> ult \<Rightarrow> ult option" where
  "set_running f s = do {
     p \<leftarrow> RUNNING s;
     a \<leftarrow> p;
     t \<leftarrow> deref s (Some a);
     Some (s\<lparr>tcbs := (tcbs s)[a := f t]\<rparr>) }"

section \<open>The macros and the signal handler\<close>

text \<open>
  \<open>thread_setup\<close>: a fresh control block is appended to the ready queue, its environment is
  the place behind the macro, and the thread function returns to \<open>init_threads\<close>.
\<close>

definition thread_setup :: "jmp_point \<Rightarrow> string \<Rightarrow> int \<Rightarrow> i32 \<Rightarrow> ult \<Rightarrow> ult option" where
  "thread_setup place func i arg s = do {
     s \<leftarrow> Some (putline (L_setup i func) s);
     new_thread \<leftarrow> Some \<lparr>t_id = i, environment = place, t_arg = arg,
       t_i = 1, t_x = 1, t_y = 1, t_i2 = 1, t_z = 1\<rparr>;
     a \<leftarrow> arr_set (ready_queue s) (rq_size s) (Some (length (tcbs s)));
     Some (s\<lparr>tcbs := tcbs s @ [new_thread], ready_queue := a, rq_size := rq_size s + 1\<rparr>) }"

definition thread_exit :: "ult \<Rightarrow> (outcome \<times> ult) option" where
  "thread_exit s = scheduler 3 s"

text \<open>The handler prints, restarts the timer after an alarm and enters the scheduler.\<close>

definition sighandler :: "signo \<Rightarrow> ult \<Rightarrow> (outcome \<times> ult) option" where
  "sighandler n s =
     (if n = SIGTSTP then scheduler 1 (putline (L_caught SIGTSTP) s)
      else scheduler 1 ((putline (L_caught SIGALRM) s)\<lparr>alarm_set := (timeslice s \<noteq> 0)\<rparr>))"

text \<open>Unblocking a pending signal runs its handler, which does not return.\<close>

definition deliver :: "signo \<Rightarrow> ult \<Rightarrow> (outcome \<times> ult) option" where
  "deliver n s = sighandler n (s\<lparr>pending := pending s - {n}\<rparr>)"

definition thread_yield :: "jmp_point \<Rightarrow> ult \<Rightarrow> (outcome \<times> ult) option" where
  "thread_yield place s = do {
     s \<leftarrow> set_running (\<lambda>t. t\<lparr>environment := place\<rparr>) s;
     (if SIGALRM \<in> pending s \<and> SIGTSTP \<in> pending s then deliver SIGTSTP s
      else if SIGALRM \<in> pending s then deliver SIGALRM s
      else if SIGTSTP \<in> pending s then deliver SIGTSTP s
      else Some (Jumped, s)) }"

definition lock :: "ult \<Rightarrow> (outcome \<times> ult) option" where
  "lock s = do {
     s \<leftarrow> set_running (\<lambda>t. t\<lparr>environment := Bank_lock\<rparr>) s;
     scheduler 2 s }"

definition unlock :: "ult \<Rightarrow> ult option" where
  "unlock s = do {
     t \<leftarrow> get_running s;
     Some (if t_id t = lock_owner (bank s) then s\<lparr>bank := (bank s)\<lparr>lock_owner := -1\<rparr>\<rparr> else s) }"

section \<open>Arithmetic on \<open>int\<close>\<close>

text \<open>
  An operation on two \<open>int\<close>s whose mathematical result does not fit into 32 bits is undefined in C.
  The definitions have both readings: with \<open>strict\<close> such an operation is \<open>None\<close>, without it the result
  wraps around, which is what the compiled instruction does.
\<close>

definition c_fit :: "bool \<Rightarrow> int \<Rightarrow> i32 \<Rightarrow> i32 option" where
  "c_fit strict n w = (if strict \<and> sint w \<noteq> n then None else Some w)"

definition int_add :: "bool \<Rightarrow> i32 \<Rightarrow> i32 \<Rightarrow> i32 option" where
  "int_add strict a b = c_fit strict (sint a + sint b) (a + b)"

definition int_sub :: "bool \<Rightarrow> i32 \<Rightarrow> i32 \<Rightarrow> i32 option" where
  "int_sub strict a b = c_fit strict (sint a - sint b) (a - b)"

definition int_mul :: "bool \<Rightarrow> i32 \<Rightarrow> i32 \<Rightarrow> i32 option" where
  "int_mul strict a b = c_fit strict (sint a * sint b) (a * b)"

definition c_abs :: "i32 \<Rightarrow> i32" where
  "c_abs w = (if sint w < 0 then - w else w)"

definition int_abs :: "bool \<Rightarrow> i32 \<Rightarrow> i32 option" where
  "int_abs strict a = c_fit strict \<bar>sint a\<bar> (c_abs a)"

lemma c_fit_exact [simp]: "c_fit False n w = Some w" "sint w = n \<Longrightarrow> c_fit strict n w = Some w"
  by (simp_all add: c_fit_def)

lemma int_wraps [simp]:
  "int_add False a b = Some (a + b)" "int_sub False a b = Some (a - b)"
  "int_mul False a b = Some (a * b)" "int_abs False a = Some (c_abs a)"
  by (simp_all add: int_add_def int_sub_def int_mul_def int_abs_def)

section \<open>The thread functions\<close>

text \<open>
  One iteration of each loop, from the loop head to the exit or yield that ends it. The macros
  \<open>thread_exit\<close>, \<open>thread_yield\<close> and \<open>lock\<close> that the functions expand are the arguments \<open>ex\<close>, \<open>yi\<close> and \<open>lk\<close>:
  \<open>Ult_Masks\<close> expands the same code with macros that keep the signal masks.
\<close>

definition fib_iter :: "bool \<Rightarrow> (ult \<Rightarrow> 'r option) \<Rightarrow> (jmp_point \<Rightarrow> ult \<Rightarrow> 'r option) \<Rightarrow> ult \<Rightarrow> 'r option" where
  "fib_iter strict ex yi s = do {
     t \<leftarrow> get_running s;
     s \<leftarrow> (if sint (t_i t) \<le> 2 then set_running (\<lambda>t. t\<lparr>t_x := 1, t_y := 1\<rparr>) s
          else do {
            y \<leftarrow> int_add strict (t_x t) (t_y t);
            set_running (\<lambda>t. t\<lparr>t_y := y, t_x := t_y t\<rparr>) s });
     t \<leftarrow> get_running s;
     s \<leftarrow> Some (putline (L_num (t_id t) (t_y t)) s);
     (if t_i t = t_arg t then ex s else yi Fib_yield s) }"

definition fact_iter :: "bool \<Rightarrow> (ult \<Rightarrow> 'r option) \<Rightarrow> (jmp_point \<Rightarrow> ult \<Rightarrow> 'r option) \<Rightarrow> ult \<Rightarrow> 'r option" where
  "fact_iter strict ex yi s = do {
     t \<leftarrow> get_running s;
     z \<leftarrow> int_mul strict (t_z t) (t_i2 t);
     s \<leftarrow> set_running (\<lambda>t. t\<lparr>t_z := z\<rparr>) s;
     t \<leftarrow> get_running s;
     s \<leftarrow> Some (putline (L_num (t_id t) (t_z t)) s);
     (if t_i2 t = t_arg t then ex s else yi Fact_yield s) }"

definition bank_step1 :: "(jmp_point \<Rightarrow> ult \<Rightarrow> 'r option) \<Rightarrow> ult \<Rightarrow> 'r option" where
  "bank_step1 yi s = do {
     t \<leftarrow> get_running s;
     yi Bank_yield1 (putline (L_acquired (t_id t)) s) }"

definition bank_step2 :: "bool \<Rightarrow> (jmp_point \<Rightarrow> ult \<Rightarrow> 'r option) \<Rightarrow> ult \<Rightarrow> 'r option" where
  "bank_step2 strict yi s = do {
     t \<leftarrow> get_running s;
     tmp \<leftarrow> Some (balance (bank s));
     s \<leftarrow> (if sint (t_arg t) > 0
          then do {
            b \<leftarrow> int_add strict tmp (t_arg t);
            Some (putline (L_bank (t_id t) tmp b) (s\<lparr>bank := (bank s)\<lparr>balance := b\<rparr>\<rparr>)) }
          else do {
            n \<leftarrow> int_abs strict (t_arg t);
            (if sint tmp \<ge> sint n
             then do {
               b \<leftarrow> int_sub strict tmp n;
               Some (putline (L_bank (t_id t) tmp b) (s\<lparr>bank := (bank s)\<lparr>balance := b\<rparr>\<rparr>)) }
             else Some (putline (L_bank (t_id t) tmp tmp) s)) });
     yi Bank_yield2 s }"

definition bank_step3 :: "(ult \<Rightarrow> 'r option) \<Rightarrow> ult \<Rightarrow> 'r option" where
  "bank_step3 ex s = do {
     s \<leftarrow> unlock s;
     t \<leftarrow> get_running s;
     s \<leftarrow> Some (putline (L_released (t_id t)) s);
     ex s }"

text \<open>Continue the running thread at the place its environment names.\<close>

definition thread_code ::
  "bool \<Rightarrow> (ult \<Rightarrow> 'r option) \<Rightarrow> (jmp_point \<Rightarrow> ult \<Rightarrow> 'r option) \<Rightarrow> (ult \<Rightarrow> 'r option) \<Rightarrow> ult \<Rightarrow> 'r option" where
  "thread_code strict ex yi lk s = do {
     t \<leftarrow> get_running s;
     (case environment t of
       Fib_setup \<Rightarrow> do { s \<leftarrow> set_running (\<lambda>t. t\<lparr>t_i := 1\<rparr>) s; fib_iter strict ex yi s }
     | Fib_yield \<Rightarrow> do {
         i \<leftarrow> int_add strict (t_i t) 1;
         s \<leftarrow> set_running (\<lambda>t. t\<lparr>t_i := i\<rparr>) s;
         fib_iter strict ex yi s }
     | Fact_setup \<Rightarrow> do {
         s \<leftarrow> set_running (\<lambda>t. t\<lparr>t_z := 1\<rparr>) s;
         s \<leftarrow> set_running (\<lambda>t. t\<lparr>t_i2 := 1\<rparr>) s;
         fact_iter strict ex yi s }
     | Fact_yield \<Rightarrow> do {
         i2 \<leftarrow> int_add strict (t_i2 t) 1;
         s \<leftarrow> set_running (\<lambda>t. t\<lparr>t_i2 := i2\<rparr>) s;
         fact_iter strict ex yi s }
     | Bank_setup \<Rightarrow> lk s
     | Bank_lock \<Rightarrow> bank_step1 yi s
     | Bank_yield1 \<Rightarrow> bank_step2 strict yi s
     | Bank_yield2 \<Rightarrow> bank_step3 ex s) }"

text \<open>The running thread as compiled, and with every overflow as the undefined behaviour it is in C.\<close>

definition resume :: "ult \<Rightarrow> (outcome \<times> ult) option" where
  "resume = thread_code False thread_exit thread_yield lock"

definition strict_resume :: "ult \<Rightarrow> (outcome \<times> ult) option" where
  "strict_resume = thread_code True thread_exit thread_yield lock"

section \<open>\<open>main.c\<close>\<close>

definition init_bank :: "ult \<Rightarrow> ult" where
  "init_bank s = s\<lparr>bank := \<lparr>balance = 500, lock_owner = -1\<rparr>\<rparr>"

definition init_threads :: "i32 \<Rightarrow> i32 \<Rightarrow> i32 \<Rightarrow> i32 \<Rightarrow> ult \<Rightarrow> ult option" where
  "init_threads fib_arg fact_arg bank1_arg bank2_arg s = do {
     s \<leftarrow> (if sint fib_arg > 0 then thread_setup Fib_setup ''fibonacci'' 0 fib_arg s else Some s);
     s \<leftarrow> (if sint fact_arg > 0 then thread_setup Fact_setup ''factorial'' 1 fact_arg s else Some s);
     s \<leftarrow> (if bank1_arg \<noteq> 0 then thread_setup Bank_setup ''bank_operation'' 2 bank1_arg s else Some s);
     (if bank2_arg \<noteq> 0 then thread_setup Bank_setup ''bank_operation'' 3 bank2_arg s else Some s) }"

definition start_threading :: "ult \<Rightarrow> (outcome \<times> ult) option" where
  "start_threading s = scheduler 0 (s\<lparr>alarm_set := (timeslice s \<noteq> 0)\<rparr>)"

text \<open>The zero-initialised globals.\<close>

definition globals :: ult where
  "globals = \<lparr>tcbs = [], ready_queue = replicate THREAD_MAX None,
     waiting_queue = replicate THREAD_MAX None, rq_size = 0, rq_current = 0, wq_size = 0,
     bank = \<lparr>balance = 0, lock_owner = 0\<rparr>, timeslice = 0, alarm_set = False, pending = {}, out = []\<rparr>"

definition ult_main :: "int \<Rightarrow> i32 \<Rightarrow> i32 \<Rightarrow> i32 \<Rightarrow> i32 \<Rightarrow> (outcome \<times> ult) option" where
  "ult_main ts fib_arg fact_arg bank1_arg bank2_arg = do {
     s \<leftarrow> Some (globals\<lparr>timeslice := ts\<rparr>);
     s \<leftarrow> Some (init_bank s);
     s \<leftarrow> init_threads fib_arg fact_arg bank1_arg bank2_arg s;
     start_threading s }"

section \<open>The running program\<close>

text \<open>
  The running thread takes a step, or a signal arrives while both are blocked: \<open>SIGTSTP\<close> from
  the terminal at any time, \<open>SIGALRM\<close> when a timer runs. Nothing happens after the return to
  \<open>main\<close>.
\<close>

definition arrive :: "signo \<Rightarrow> ult \<Rightarrow> ult" where
  "arrive n s = (if n = SIGALRM then s\<lparr>pending := insert n (pending s), alarm_set := False\<rparr>
     else s\<lparr>pending := insert n (pending s)\<rparr>)"

inductive ult_step :: "outcome \<times> ult \<Rightarrow> outcome \<times> ult \<Rightarrow> bool" where
  run: "resume s = Some c \<Longrightarrow> ult_step (Jumped, s) c"
| tstp: "ult_step (Jumped, s) (Jumped, arrive SIGTSTP s)"
| alrm: "alarm_set s \<Longrightarrow> ult_step (Jumped, s) (Jumped, arrive SIGALRM s)"

inductive_cases ult_step_JumpedE: "ult_step (Jumped, s) c"
inductive_simps ult_step_Returned: "ult_step (Returned, s) c"

text \<open>
  An executable run: before every step of the running thread the signals \<open>sig k\<close> arrive
  (an alarm only when a timer runs). \<open>None\<close> is undefined behaviour or not enough fuel.
\<close>

definition arrivals :: "signo list \<Rightarrow> ult \<Rightarrow> ult" where
  "arrivals ns s = fold (\<lambda>n s. if n = SIGALRM \<and> \<not> alarm_set s then s else arrive n s) ns s"

fun ult_run :: "nat \<Rightarrow> (nat \<Rightarrow> signo list) \<Rightarrow> outcome \<times> ult \<Rightarrow> ult option" where
  "ult_run fuel sig (Returned, s) = Some s"
| "ult_run 0 sig (Jumped, s) = None"
| "ult_run (Suc fuel) sig (Jumped, s) =
     do { c \<leftarrow> resume (arrivals (sig fuel) s); ult_run fuel sig c }"

end
