(* ===== verification/Ult_Segment.thy ===== *)
theory Ult_Segment
  imports Ult_Lock Ult_Threads
begin

text \<open>
  A step of the running thread in two halves: what its code does to its own control block, to the
  balance and to the output (\<open>seg\<close>), and how it gives up control (\<open>dispatch\<close>). \<open>resume\<close> is
  shown to be the second after the first.
\<close>

section \<open>The thread's own half\<close>

datatype ctl = C_yield | C_lock | C_exit | C_release

fun fib :: "nat \<Rightarrow> nat" where
  "fib 0 = 0"
| "fib (Suc 0) = 1"
| "fib (Suc (Suc n)) = fib n + fib (Suc n)"

definition bank_apply :: "i32 \<Rightarrow> i32 \<Rightarrow> i32" where
  "bank_apply arg b = (if sint arg > 0 then b + arg
     else if sint b \<ge> sint (c_abs arg) then b - c_abs arg else b)"

definition fib_next :: "tcb \<Rightarrow> tcb" where
  "fib_next t = (if sint (t_i t) \<le> 2 then t\<lparr>t_x := 1, t_y := 1\<rparr>
     else t\<lparr>t_y := t_x t + t_y t, t_x := t_y t\<rparr>)"

definition fact_next :: "tcb \<Rightarrow> tcb" where
  "fact_next t = t\<lparr>t_z := t_z t * t_i2 t\<rparr>"

definition fib_seg :: "tcb \<Rightarrow> i32 \<Rightarrow> tcb \<times> line list \<times> i32 \<times> ctl" where
  "fib_seg t b = (let t' = fib_next t; l = [L_num (t_id t) (t_y t')] in
     if t_i t = t_arg t then (t', l, b, C_exit) else (t'\<lparr>environment := Fib_yield\<rparr>, l, b, C_yield))"

definition fact_seg :: "tcb \<Rightarrow> i32 \<Rightarrow> tcb \<times> line list \<times> i32 \<times> ctl" where
  "fact_seg t b = (let t' = fact_next t; l = [L_num (t_id t) (t_z t')] in
     if t_i2 t = t_arg t then (t', l, b, C_exit) else (t'\<lparr>environment := Fact_yield\<rparr>, l, b, C_yield))"

definition seg :: "tcb \<Rightarrow> i32 \<Rightarrow> tcb \<times> line list \<times> i32 \<times> ctl" where
  "seg t b = (case environment t of
     Fib_setup \<Rightarrow> fib_seg (t\<lparr>t_i := 1\<rparr>) b
   | Fib_yield \<Rightarrow> fib_seg (t\<lparr>t_i := t_i t + 1\<rparr>) b
   | Fact_setup \<Rightarrow> fact_seg (t\<lparr>t_z := 1, t_i2 := 1\<rparr>) b
   | Fact_yield \<Rightarrow> fact_seg (t\<lparr>t_i2 := t_i2 t + 1\<rparr>) b
   | Bank_setup \<Rightarrow> (t\<lparr>environment := Bank_lock\<rparr>, [], b, C_lock)
   | Bank_lock \<Rightarrow> (t\<lparr>environment := Bank_yield1\<rparr>, [L_acquired (t_id t)], b, C_yield)
   | Bank_yield1 \<Rightarrow> (t\<lparr>environment := Bank_yield2\<rparr>,
       [L_bank (t_id t) b (bank_apply (t_arg t) b)], bank_apply (t_arg t) b, C_yield)
   | Bank_yield2 \<Rightarrow> (t, [L_released (t_id t)], b, C_release))"

definition after :: "ult \<Rightarrow> addr \<Rightarrow> tcb \<Rightarrow> line list \<Rightarrow> i32 \<Rightarrow> ult" where
  "after s a t ls b = s\<lparr>tcbs := (tcbs s)[a := t], out := out s @ ls,
     bank := (bank s)\<lparr>balance := b\<rparr>\<rparr>"

section \<open>Giving up control\<close>

definition pending_choice :: "ult \<Rightarrow> signo option" where
  "pending_choice s = (if SIGTSTP \<in> pending s then Some SIGTSTP
     else if SIGALRM \<in> pending s then Some SIGALRM else None)"

definition dispatch :: "ctl \<Rightarrow> ult \<Rightarrow> (outcome \<times> ult) option" where
  "dispatch c s = (case c of
     C_yield \<Rightarrow> (case pending_choice s of None \<Rightarrow> Some (Jumped, s) | Some n \<Rightarrow> deliver n s)
   | C_lock \<Rightarrow> scheduler 2 s
   | C_exit \<Rightarrow> scheduler 3 s
   | C_release \<Rightarrow> scheduler 3 (s\<lparr>bank := (bank s)\<lparr>lock_owner := -1\<rparr>\<rparr>))"

section \<open>\<open>resume\<close> is the two halves\<close>

lemma RUNNING_update [simp]:
  "RUNNING (s\<lparr>tcbs := ts\<rparr>) = RUNNING s" "RUNNING (s\<lparr>out := ls\<rparr>) = RUNNING s"
  "RUNNING (s\<lparr>bank := b\<rparr>) = RUNNING s" "RUNNING (s\<lparr>pending := p\<rparr>) = RUNNING s"
  by (simp_all add: RUNNING_def)

lemma bank_eta [simp]: "b\<lparr>balance := balance b\<rparr> = b"
  by (cases b) simp

text \<open>Updates of different fields commute; the order of the fields in \<open>after\<close> is the normal form.\<close>

lemma ult_update_order:
  fixes s :: ult
  shows "s\<lparr>out := l, tcbs := t\<rparr> = s\<lparr>tcbs := t, out := l\<rparr>"
    and "s\<lparr>bank := b, tcbs := t\<rparr> = s\<lparr>tcbs := t, bank := b\<rparr>"
    and "s\<lparr>bank := b, out := l\<rparr> = s\<lparr>out := l, bank := b\<rparr>"
  by (cases s; simp)+

lemma get_running_Some [simp]:
  "RUNNING s = Some (Some a) \<Longrightarrow> a < length (tcbs s) \<Longrightarrow> get_running s = Some (tcbs s ! a)"
  by (simp add: get_running_def deref_def)

lemma set_running_Some [simp]:
  "RUNNING s = Some (Some a) \<Longrightarrow> a < length (tcbs s) \<Longrightarrow>
     set_running f s = Some (s\<lparr>tcbs := (tcbs s)[a := f (tcbs s ! a)]\<rparr>)"
  by (simp add: set_running_def deref_def)

lemma thread_yield_dispatch:
  assumes "RUNNING s = Some (Some a)" and "a < length (tcbs s)"
  shows "thread_yield e s = dispatch C_yield (s\<lparr>tcbs := (tcbs s)[a := (tcbs s ! a)\<lparr>environment := e\<rparr>]\<rparr>)"
  using assms by (auto simp: thread_yield_def dispatch_def pending_choice_def)

lemma fib_iter_seg:
  assumes run: "RUNNING s = Some (Some a)" "a < length (tcbs s)"
  shows "fib_iter False thread_exit thread_yield s = (case fib_seg (tcbs s ! a) (balance (bank s)) of
     (t', ls, b', c) \<Rightarrow> dispatch c (after s a t' ls b'))"
  using run by (auto simp: fib_iter_def fib_seg_def fib_next_def Let_def putline_def thread_exit_def
      thread_yield_dispatch after_def dispatch_def [of C_exit] ult_update_order)

lemma fact_iter_seg:
  assumes run: "RUNNING s = Some (Some a)" "a < length (tcbs s)"
  shows "fact_iter False thread_exit thread_yield s = (case fact_seg (tcbs s ! a) (balance (bank s)) of
     (t', ls, b', c) \<Rightarrow> dispatch c (after s a t' ls b'))"
  using run by (auto simp: fact_iter_def fact_seg_def fact_next_def Let_def putline_def thread_exit_def
      thread_yield_dispatch after_def dispatch_def [of C_exit] ult_update_order)

lemma bank_step2_seg:
  assumes run: "RUNNING s = Some (Some a)" "a < length (tcbs s)"
  shows "bank_step2 False thread_yield s = dispatch C_yield (after s a ((tcbs s ! a)\<lparr>environment := Bank_yield2\<rparr>)
     [L_bank (t_id (tcbs s ! a)) (balance (bank s)) (bank_apply (t_arg (tcbs s ! a)) (balance (bank s)))]
     (bank_apply (t_arg (tcbs s ! a)) (balance (bank s))))"
  using run by (auto simp: bank_step2_def Let_def putline_def thread_yield_dispatch after_def
      bank_apply_def ult_update_order)

lemma bank_step3_seg:
  assumes run: "RUNNING s = Some (Some a)" "a < length (tcbs s)"
    and own: "t_id (tcbs s ! a) = lock_owner (bank s)"
  shows "bank_step3 thread_exit s = dispatch C_release
     (after s a (tcbs s ! a) [L_released (t_id (tcbs s ! a))] (balance (bank s)))"
  using run own by (auto simp: bank_step3_def unlock_def putline_def thread_exit_def after_def
      dispatch_def ult_update_order)

lemma resume_seg:
  assumes run: "RUNNING s = Some (Some a)" "a < length (tcbs s)"
    and own: "environment (tcbs s ! a) = Bank_yield2 \<Longrightarrow> t_id (tcbs s ! a) = lock_owner (bank s)"
    and seg: "seg (tcbs s ! a) (balance (bank s)) = (t', ls, b', c)"
  shows "resume s = dispatch c (after s a t' ls b')"
proof (cases "environment (tcbs s ! a)")
  case Fib_setup
  with run seg show ?thesis by (simp add: resume_def thread_code_def seg_def fib_iter_seg after_def)
next
  case Fib_yield
  with run seg show ?thesis by (simp add: resume_def thread_code_def seg_def fib_iter_seg after_def)
next
  case Fact_setup
  with run seg show ?thesis by (simp add: resume_def thread_code_def seg_def fact_iter_seg after_def)
next
  case Fact_yield
  with run seg show ?thesis by (simp add: resume_def thread_code_def seg_def fact_iter_seg after_def)
next
  case Bank_setup
  with run seg show ?thesis by (auto simp: resume_def thread_code_def seg_def lock_def dispatch_def after_def)
next
  case Bank_lock
  with run seg show ?thesis
    by (auto simp: resume_def thread_code_def seg_def bank_step1_def thread_yield_dispatch putline_def after_def
        ult_update_order)
next
  case Bank_yield1
  with run seg show ?thesis by (auto simp: resume_def thread_code_def seg_def bank_step2_seg)
next
  case Bank_yield2
  with run seg own show ?thesis by (auto simp: resume_def thread_code_def seg_def bank_step3_seg)
qed

end
