(* ===== verification/Ult_Inv.thy ===== *)
theory Ult_Inv
  imports Ult_Segment
begin

text \<open>
  The invariant of the running program: the queues and the lock discipline (\<open>sys_ok\<close>), and what
  each thread has computed and printed so far (\<open>data_ok\<close>). Every step of the running thread keeps
  it and uses up one unit of the work that is left.
\<close>

section \<open>Queues and lock\<close>

definition env_of :: "ult \<Rightarrow> addr \<Rightarrow> jmp_point" where
  "env_of s a = environment (tcbs s ! a)"

definition sys_ok :: "ult \<Rightarrow> queues \<Rightarrow> bool" where
  "sys_ok s q \<longleftrightarrow> repr s q \<and> lock_ok (ident_of s) (env_of s) q \<and>
     length (tcbs s) \<le> THREAD_MAX \<and> distinct (map t_id (tcbs s)) \<and> -1 \<notin> t_id ` set (tcbs s)"

lemma threads_room:
  assumes "repr s q" and "lock_ok ident env q" and "length (tcbs s) \<le> THREAD_MAX"
  shows "length (ready q) + length (waiting q) \<le> THREAD_MAX"
proof -
  note D = lock_okD [OF assms(2)]
  have "length (ready q) + length (waiting q) = card (threads q)"
    using D(1-3) by (simp add: threads_def card_Un_disjoint distinct_card)
  also have "\<dots> \<le> card {..<length (tcbs s)}"
    using assms(1) by (intro card_mono) (auto simp: repr_def threads_def)
  finally show ?thesis using assms(3) by simp
qed

text \<open>The scheduler's part of every step, from its refinement.\<close>

definition sched_result :: "ult \<Rightarrow> queues \<Rightarrow> outcome \<times> ult \<Rightarrow> bool" where
  "sched_result s q c \<longleftrightarrow> repr (snd c) q \<and> tcbs (snd c) = tcbs s \<and>
     balance (bank (snd c)) = balance (bank s) \<and>
     (\<exists>ls. out (snd c) = out s @ ls \<and> set ls \<subseteq> range L_caught) \<and>
     (fst c = Returned \<longleftrightarrow> threads q = {}) \<and> (fst c = Jumped \<longrightarrow> cur q < length (ready q))"

lemma scheduler_result:
  assumes "repr s q" and "sched_pre see q"
  shows "\<exists>c. scheduler see s = Some c \<and> sched_result s (sched_spec (ident_of s) see q) c"
proof -
  from scheduler_repr [OF assms] sched_spec_cur [OF assms(2), of "ident_of s"] show ?thesis
    by (auto simp: sched_result_def same_rest_def threads_def)
qed

lemma ident_of_tcbs: "tcbs s = tcbs t \<Longrightarrow> ident_of s = ident_of t"
  by (rule ext) (simp add: ident_of_def)

lemma env_of_tcbs: "tcbs s = tcbs t \<Longrightarrow> env_of s = env_of t"
  by (rule ext) (simp add: env_of_def)

lemma deliver_result:
  assumes r: "repr s q" and ok: "lock_ok (ident_of s) (env_of s) q" and c: "cur q < length (ready q)"
    and n: "length (tcbs s) \<le> THREAD_MAX"
  shows "\<exists>c. deliver n s = Some c \<and> sched_result s (sched_spec (ident_of s) 1 q) c"
proof -
  let ?s = "(putline (L_caught n) (s\<lparr>pending := pending s - {n}\<rparr>))"
  let ?t = "if n = SIGTSTP then ?s else ?s\<lparr>alarm_set := (timeslice s \<noteq> 0)\<rparr>"
  have t: "repr ?t q" "tcbs ?t = tcbs s" "balance (bank ?t) = balance (bank s)"
    "out ?t = out s @ [L_caught n]"
    using r by (simp_all add: putline_def repr_def)
  have "deliver n s = scheduler 1 ?t"
    by (cases n) (simp_all add: deliver_def sighandler_def putline_def)
  moreover obtain c where "scheduler 1 ?t = Some c" "sched_result ?t (sched_spec (ident_of ?t) 1 q) c"
    using scheduler_result [OF t(1) sched_pre_yield [OF ok c threads_room [OF r ok n]]] by blast
  moreover have "ident_of ?t = ident_of s" by (rule ident_of_tcbs) (simp add: t)
  ultimately show ?thesis
    using t by (auto simp: sched_result_def)
qed

section \<open>One step, as far as the queues go\<close>

text \<open>What each way of giving up control needs of the queues, and the threads it leaves.\<close>

fun ctl_pre :: "ctl \<Rightarrow> (addr \<Rightarrow> int) \<Rightarrow> (addr \<Rightarrow> jmp_point) \<Rightarrow> queues \<Rightarrow> bool" where
  "ctl_pre C_yield ident env q = lock_ok ident env q"
| "ctl_pre C_lock ident env q =
     (lock_ok ident (env(ready q ! cur q := Bank_setup)) q \<and> env (ready q ! cur q) = Bank_lock)"
| "ctl_pre C_exit ident env q = (lock_ok ident env q \<and> \<not> in_cs (env (ready q ! cur q)))"
| "ctl_pre C_release ident env q = (lock_ok ident env q \<and> in_cs (env (ready q ! cur q)))"

definition leaves :: "ctl \<Rightarrow> bool" where
  "leaves c \<longleftrightarrow> c = C_exit \<or> c = C_release"

text \<open>
  What each way does to the waiting threads and to the owner of the lock: a call of \<open>lock\<close> takes a free
  lock or waits behind the others, a release hands the lock to the thread that has waited longest.
\<close>

fun lock_change :: "ctl \<Rightarrow> (addr \<Rightarrow> int) \<Rightarrow> queues \<Rightarrow> queues \<Rightarrow> bool" where
  "lock_change C_lock ident q q' = (if owner q = -1
     then waiting q' = waiting q \<and> owner q' = ident (ready q ! cur q)
     else waiting q' = waiting q @ [ready q ! cur q] \<and> owner q' = owner q)"
| "lock_change C_release ident q q' = (case waiting q of
     [] \<Rightarrow> waiting q' = [] \<and> owner q' = -1
   | a # as \<Rightarrow> waiting q' = as \<and> owner q' = ident a \<and> a \<in> set (ready q'))"
| "lock_change _ ident q q' = (waiting q' = waiting q \<and> owner q' = owner q)"

lemma drop_current_queue [simp]:
  "waiting (drop_current q) = waiting q" "owner (drop_current q) = owner q"
  by (simp_all add: drop_current_def)

lemma lock_change_yield: "lock_ok ident env q \<Longrightarrow> lock_change C_yield ident q (sched_spec ident 1 q)"
  using sched_spec_yield [of ident env q] by (simp add: advance_def)

lemma lock_change_lock:
  "lock_ok ident env q \<Longrightarrow> lock_change C_lock ident q (sched_spec ident 2 q)"
  using lock_okD(8) [of ident env q] by (auto simp: sched_spec_def block_current_def)

lemma lock_change_exit:
  "lock_ok ident env q \<Longrightarrow> lock_change C_exit ident q (sched_spec ident 3 q)"
  using lock_okD(8) [of ident env q] by (auto simp: sched_spec_def)

lemma lock_change_release:
  assumes ok: "lock_ok ident env q" and c: "cur q < length (ready q)"
  shows "lock_change C_release ident q (sched_spec ident 3 (q\<lparr>owner := -1\<rparr>))"
proof (cases "waiting q")
  case Nil
  then show ?thesis by (simp add: sched_spec_def)
next
  case (Cons a as)
  note D = lock_okD [OF ok]
  let ?q = "wake_first ident (q\<lparr>owner := -1\<rparr>)"
  have w: "ready ?q = ready q @ [a]" "waiting ?q = as" "owner ?q = ident a" "cur ?q = cur q"
    using Cons by (simp_all add: wake_first_def)
  have a: "a \<notin> set (ready q)" using D(3) Cons by auto
  have d: "distinct (ready ?q)" "cur ?q < length (ready ?q)" using D(1) a c w by simp_all
  have "a \<noteq> ready ?q ! cur ?q" using a c w nth_mem [OF c] by (auto simp: nth_append)
  then have "a \<in> set (ready (drop_current ?q))"
    using drop_current_facts(2) [OF d] w by simp
  with Cons w show ?thesis by (simp add: sched_spec_def)
qed

lemma dispatch_result:
  assumes r: "repr s q" and cur: "cur q < length (ready q)" and n: "length (tcbs s) \<le> THREAD_MAX"
    and pre: "ctl_pre k (ident_of s) (env_of s) q"
  shows "\<exists>c q'. dispatch k s = Some c \<and> sched_result s q' c \<and>
     lock_ok (ident_of s) (env_of s) q' \<and> lock_change k (ident_of s) q q' \<and>
     threads q' = (if leaves k then threads q - {ready q ! cur q} else threads q)"
proof (cases k)
  case C_yield
  with pre have ok: "lock_ok (ident_of s) (env_of s) q" by simp
  have adv: "threads (sched_spec (ident_of s) 1 q) = threads q"
    using sched_spec_yield [OF ok] by (simp add: advance_def threads_def)
  have "ready q \<noteq> []" using cur by auto
  then have stay: "sched_result s q (Jumped, s)"
    using r cur by (simp add: sched_result_def threads_def)
  show ?thesis
  proof (cases "pending_choice s")
    case None
    with C_yield ok stay show ?thesis by (auto simp: dispatch_def leaves_def)
  next
    case (Some m)
    with C_yield deliver_result [OF r ok cur n, of m] lock_ok_yield [OF ok] lock_change_yield [OF ok] adv show ?thesis
      by (auto simp: dispatch_def leaves_def simp del: lock_change.simps)
  qed
next
  case C_lock
  with pre have ok: "lock_ok (ident_of s) ((env_of s)(ready q ! cur q := Bank_setup)) q"
    "env_of s (ready q ! cur q) = Bank_lock" by simp_all
  from scheduler_result [OF r sched_pre_lock [OF ok(1) cur threads_room [OF r ok(1) n]]]
    lock_ok_lock [OF ok(1) cur ok(2)] lock_change_lock [OF ok(1)] C_lock
  show ?thesis by (auto simp: dispatch_def leaves_def simp del: lock_change.simps)
next
  case C_exit
  with pre have ok: "lock_ok (ident_of s) (env_of s) q" "\<not> in_cs (env_of s (ready q ! cur q))" by simp_all
  from scheduler_result [OF r sched_pre_exit [OF ok(1) cur ok(2) threads_room [OF r ok(1) n]]]
    lock_ok_exit [OF ok(1) cur ok(2)] lock_change_exit [OF ok(1)] C_exit
  show ?thesis by (auto simp: dispatch_def leaves_def simp del: lock_change.simps)
next
  case C_release
  with pre have ok: "lock_ok (ident_of s) (env_of s) q" "in_cs (env_of s (ready q ! cur q))" by simp_all
  let ?t = "s\<lparr>bank := (bank s)\<lparr>lock_owner := -1\<rparr>\<rparr>" and ?q = "q\<lparr>owner := -1\<rparr>"
  have t: "repr ?t ?q" "ident_of ?t = ident_of s"
    using r by (auto simp: repr_def intro: ident_of_tcbs)
  note rel = release_exit [OF ok(1) cur ok(2) threads_room [OF r ok(1) n]]
  obtain c where "scheduler 3 ?t = Some c" "sched_result ?t (sched_spec (ident_of s) 3 ?q) c"
    using scheduler_result [OF t(1) rel(1)] t(2) by auto
  with C_release rel(2,3) lock_change_release [OF ok(1) cur] show ?thesis
    by (auto simp: dispatch_def leaves_def sched_result_def simp del: lock_change.simps)
qed

lemma lock_ok_env_update:
  assumes ok: "lock_ok ident env q" and a: "a \<in> set (ready q)" and e: "in_cs e = in_cs (env a)"
  shows "lock_ok ident (env(a := e)) q"
proof (intro lock_okI)
  note D = lock_okD [OF ok]
  show "(env(a := e)) b = Bank_lock" if "b \<in> set (waiting q)" for b
    using D(3) D(6) [OF that] a that by auto
  show "in_cs ((env(a := e)) b) \<longleftrightarrow> ident b = owner q" if "b \<in> set (ready q)" for b
    using D(7) [OF that] e by auto
  show "\<exists>b \<in> set (ready q). ident b = owner q" if "owner q \<noteq> -1"
    using D(9) that by blast
qed (use lock_okD [OF ok] in blast)+

lemma seg_frame:
  assumes "seg t b = (t', ls, b', c)"
  shows "t_id t' = t_id t" and "t_arg t' = t_arg t"
    and "c = C_yield \<Longrightarrow> in_cs (environment t') = in_cs (environment t)"
    and "c = C_lock \<Longrightarrow> environment t = Bank_setup \<and> environment t' = Bank_lock"
    and "c = C_exit \<Longrightarrow> \<not> in_cs (environment t') \<and> \<not> in_cs (environment t)"
    and "c = C_release \<Longrightarrow> environment t = Bank_yield2 \<and> t' = t"
  using assms
  by (auto simp: seg_def fib_seg_def fact_seg_def fib_next_def fact_next_def Let_def
      split: jmp_point.splits if_splits)

lemma seg_ctl_pre:
  assumes ok: "lock_ok (ident_of s) (env_of s) q" and c: "cur q < length (ready q)"
    and a: "a = ready q ! cur q" "a < length (tcbs s)"
    and sg: "seg (tcbs s ! a) b = (t', ls, b', k)"
  shows "ctl_pre k (ident_of (after s a t' ls b')) (env_of (after s a t' ls b')) q"
proof -
  let ?s = "after s a t' ls b'"
  note F = seg_frame [OF sg]
  have ar: "a \<in> set (ready q)" using a c by simp
  have i: "ident_of ?s = ident_of s"
    using a(2) F(1) by (intro ext) (auto simp: ident_of_def after_def nth_list_update)
  have e: "env_of ?s = (env_of s)(a := environment t')"
    using a(2) by (intro ext) (auto simp: env_of_def after_def nth_list_update)
  have at: "env_of s a = environment (tcbs s ! a)" by (simp add: env_of_def)
  show ?thesis
    unfolding i e
  proof (cases k)
    case C_lock
    then have "(env_of s)(a := Bank_setup) = env_of s" using F(4) at by auto
    with C_lock F(4) ok show "ctl_pre k (ident_of s) ((env_of s)(a := environment t')) q"
      by (simp add: a(1) [symmetric])
  qed (use lock_ok_env_update [OF ok ar, of "environment t'"] F at in \<open>simp_all add: a(1) [symmetric]\<close>)
qed

end
