(* ===== verification/Ult_Data.thy ===== *)
theory Ult_Data
  imports Ult_Inv
begin

text \<open>
  What the threads compute and print: the registers kept in the control blocks, the lines of every
  thread in the output, the bracketing of the critical sections and the history of the balance.
\<close>

section \<open>Signed 32-bit counters\<close>

lemma sint_add_1:
  fixes w v :: i32
  assumes "sint w < sint v"
  shows "sint (w + 1) = sint w + 1"
proof -
  have "sint v < 2 ^ 31" "- (2 ^ 31) \<le> sint w"
    using sint_lt [of v] sint_ge [of w] by simp_all
  with assms show ?thesis
    by (simp add: sint_word_ariths signed_take_bit_int_eq_self)
qed

lemma nat_sint_1: "nat (sint (1 :: i32)) = 1"
  by simp

lemma of_nat_nat_sint: "0 \<le> sint (w :: i32) \<Longrightarrow> of_nat (nat (sint w)) = w"
  by simp

section \<open>Output of one thread\<close>

fun line_of :: "line \<Rightarrow> int option" where
  "line_of (L_num i v) = Some i"
| "line_of (L_acquired i) = Some i"
| "line_of (L_bank i b b') = Some i"
| "line_of (L_released i) = Some i"
| "line_of (L_setup i f) = None"
| "line_of (L_caught n) = None"

definition lines_of :: "int \<Rightarrow> line list \<Rightarrow> line list" where
  "lines_of i ls = filter (\<lambda>l. line_of l = Some i) ls"

lemma lines_of_append [simp]: "lines_of i (xs @ ys) = lines_of i xs @ lines_of i ys"
  by (simp add: lines_of_def)

lemma lines_of_caught: "set ls \<subseteq> range L_caught \<Longrightarrow> lines_of i ls = []"
  by (auto simp: lines_of_def filter_empty_conv)

text \<open>How many lines a live thread has printed, and how many it prints before it exits.\<close>

fun printed :: "tcb \<Rightarrow> nat" where
  "printed t = (case environment t of
     Fib_setup \<Rightarrow> 0 | Fib_yield \<Rightarrow> nat (sint (t_i t))
   | Fact_setup \<Rightarrow> 0 | Fact_yield \<Rightarrow> nat (sint (t_i2 t))
   | Bank_setup \<Rightarrow> 0 | Bank_lock \<Rightarrow> 0 | Bank_yield1 \<Rightarrow> 1 | Bank_yield2 \<Rightarrow> 2)"

fun total :: "tcb \<Rightarrow> nat" where
  "total t = (if environment t \<in> {Fib_setup, Fib_yield, Fact_setup, Fact_yield}
     then nat (sint (t_arg t)) else 3)"

text \<open>The steps a live thread still takes.\<close>

definition weight :: "tcb \<Rightarrow> nat" where
  "weight t = total t - printed t + (if environment t = Bank_setup then 1 else 0)"

definition numbers :: "(nat \<Rightarrow> nat) \<Rightarrow> int \<Rightarrow> nat \<Rightarrow> line list" where
  "numbers f i k = map (\<lambda>j. L_num i (of_nat (f j))) [1..<Suc k]"

lemma numbers_Suc: "numbers f i (Suc k) = numbers f i k @ [L_num i (of_nat (f (Suc k)))]"
  by (simp add: numbers_def)

lemma numbers_0 [simp]: "numbers f i 0 = []"
  by (simp add: numbers_def)

text \<open>The first \<open>k\<close> lines of a thread.\<close>

definition shape :: "tcb \<Rightarrow> nat \<Rightarrow> line list \<Rightarrow> bool" where
  "shape t k ls \<longleftrightarrow>
     (if environment t \<in> {Fib_setup, Fib_yield} then ls = numbers fib (t_id t) k
      else if environment t \<in> {Fact_setup, Fact_yield} then ls = numbers fact (t_id t) k
      else \<exists>b. ls = take k [L_acquired (t_id t), L_bank (t_id t) b (bank_apply (t_arg t) b),
        L_released (t_id t)])"

text \<open>The registers of a thread between two of its steps.\<close>

definition regs_ok :: "tcb \<Rightarrow> bool" where
  "regs_ok t \<longleftrightarrow>
     (environment t = Fib_yield \<longrightarrow> 1 \<le> sint (t_i t) \<and> t_y t = of_nat (fib (nat (sint (t_i t)))) \<and>
        (2 \<le> sint (t_i t) \<longrightarrow> t_x t = of_nat (fib (nat (sint (t_i t)) - 1)))) \<and>
     (environment t = Fact_yield \<longrightarrow> 1 \<le> sint (t_i2 t) \<and> t_z t = of_nat (fact (nat (sint (t_i2 t)))))"

definition thread_data :: "bool \<Rightarrow> line list \<Rightarrow> tcb \<Rightarrow> bool" where
  "thread_data live ls t \<longleftrightarrow>
     (if live then shape t (printed t) ls \<and> printed t < total t \<and> regs_ok t
      else shape t (total t) ls)"

lemma thread_data_live: "thread_data True ls t \<longleftrightarrow> shape t (printed t) ls \<and> printed t < total t \<and> regs_ok t"
  and thread_data_done: "thread_data False ls t \<longleftrightarrow> shape t (total t) ls"
  by (simp_all add: thread_data_def)

section \<open>One step of one thread\<close>

text \<open>The Fibonacci and factorial loops share this form of a step.\<close>

lemma fib_next_regs:
  assumes i: "1 \<le> sint (t_i t)"
    and prev: "1 < sint (t_i t) \<Longrightarrow> t_y t = of_nat (fib (nat (sint (t_i t)) - 1))"
      "2 < sint (t_i t) \<Longrightarrow> t_x t = of_nat (fib (nat (sint (t_i t)) - 2))"
  shows "t_y (fib_next t) = of_nat (fib (nat (sint (t_i t))))"
    and "2 \<le> sint (t_i t) \<Longrightarrow> t_x (fib_next t) = of_nat (fib (nat (sint (t_i t)) - 1))"
proof -
  let ?n = "nat (sint (t_i t))"
  have "t_y (fib_next t) = of_nat (fib ?n) \<and> (2 \<le> sint (t_i t) \<longrightarrow> t_x (fib_next t) = of_nat (fib (?n - 1)))"
  proof (cases "sint (t_i t) \<le> 2")
    case True
    with i have "?n = 1 \<or> ?n = 2" by arith
    with True show ?thesis by (auto simp: fib_next_def numeral_2_eq_2)
  next
    case False
    define m where "m = ?n - 2"
    have n: "?n = Suc (Suc m)" using False unfolding m_def by arith
    then have m: "?n - 1 = Suc m" "?n - 2 = m" by simp_all
    have "t_y t = of_nat (fib (Suc m))" "t_x t = of_nat (fib m)"
      using False prev m by simp_all
    with False n m show ?thesis by (simp add: fib_next_def)
  qed
  then show "t_y (fib_next t) = of_nat (fib ?n)"
    "2 \<le> sint (t_i t) \<Longrightarrow> t_x (fib_next t) = of_nat (fib (?n - 1))" by simp_all
qed

lemma fib_next_frame [simp]:
  "t_id (fib_next t) = t_id t" "t_arg (fib_next t) = t_arg t" "t_i (fib_next t) = t_i t"
  "environment (fib_next t) = environment t"
  by (simp_all add: fib_next_def)

lemma fib_seg_data:
  assumes e: "environment t \<in> {Fib_setup, Fib_yield}"
    and i: "1 \<le> sint (t_i t)" "sint (t_i t) \<le> sint (t_arg t)"
    and y: "1 < sint (t_i t) \<Longrightarrow> t_y t = of_nat (fib (nat (sint (t_i t)) - 1))"
    and x: "2 < sint (t_i t) \<Longrightarrow> t_x t = of_nat (fib (nat (sint (t_i t)) - 2))"
    and ls: "ls = numbers fib (t_id t) (nat (sint (t_i t)) - 1)"
    and sg: "fib_seg t b = (t', ls', b', k)"
  shows "thread_data (\<not> leaves k) (ls @ ls') t'" and "b' = b"
    and "ls' = lines_of (t_id t) ls'" and "j \<noteq> t_id t \<Longrightarrow> lines_of j ls' = []"
    and "\<not> leaves k \<Longrightarrow> weight t' = nat (sint (t_arg t)) - nat (sint (t_i t))"
    and "leaves k \<Longrightarrow> t_i t = t_arg t"
proof -
  let ?n = "nat (sint (t_i t))"
  note R = fib_next_regs [OF i(1) y x]
  have k: "k = (if t_i t = t_arg t then C_exit else C_yield)" "b' = b"
    "ls' = [L_num (t_id t) (of_nat (fib ?n))]"
    "t' = (if t_i t = t_arg t then fib_next t else (fib_next t)\<lparr>environment := Fib_yield\<rparr>)"
    using sg R(1) by (auto simp: fib_seg_def Let_def split: if_splits)
  have "Suc (?n - 1) = ?n" using i(1) by arith
  then have out: "ls @ ls' = numbers fib (t_id t) ?n"
    using numbers_Suc [of fib "t_id t" "?n - 1"] ls k(3) by simp
  have lt: "t_i t \<noteq> t_arg t \<Longrightarrow> sint (t_i t) < sint (t_arg t)"
    using i(2) by (metis order_le_less signed_word_eqI)
  show "thread_data (\<not> leaves k) (ls @ ls') t'"
    using e out lt R i k by (auto simp: leaves_def thread_data_def shape_def regs_ok_def)
  show "b' = b" "ls' = lines_of (t_id t) ls'" "j \<noteq> t_id t \<Longrightarrow> lines_of j ls' = []"
    "leaves k \<Longrightarrow> t_i t = t_arg t"
    using k by (auto simp: lines_of_def leaves_def split: if_splits)
  show "\<not> leaves k \<Longrightarrow> weight t' = nat (sint (t_arg t)) - nat (sint (t_i t))"
    using k by (auto simp: weight_def leaves_def split: if_splits)
qed

lemma fact_seg_data:
  assumes e: "environment t \<in> {Fact_setup, Fact_yield}"
    and i: "1 \<le> sint (t_i2 t)" "sint (t_i2 t) \<le> sint (t_arg t)"
    and z: "t_z t = of_nat (fact (nat (sint (t_i2 t)) - 1))"
    and ls: "ls = numbers fact (t_id t) (nat (sint (t_i2 t)) - 1)"
    and sg: "fact_seg t b = (t', ls', b', k)"
  shows "thread_data (\<not> leaves k) (ls @ ls') t'" and "b' = b"
    and "ls' = lines_of (t_id t) ls'" and "j \<noteq> t_id t \<Longrightarrow> lines_of j ls' = []"
    and "\<not> leaves k \<Longrightarrow> weight t' = nat (sint (t_arg t)) - nat (sint (t_i2 t))"
    and "leaves k \<Longrightarrow> t_i2 t = t_arg t"
proof -
  let ?n = "nat (sint (t_i2 t))"
  have n: "Suc (?n - 1) = ?n" using i(1) by arith
  have "t_z t * t_i2 t = of_nat (fact (?n - 1)) * of_nat ?n"
    using z i(1) by simp
  also have "\<dots> = of_nat (?n * fact (?n - 1))"
    by (simp only: of_nat_mult mult.commute)
  also have "?n * fact (?n - 1) = fact ?n"
    by (metis fact_Suc n of_nat_id)
  finally have R: "t_z (fact_next t) = of_nat (fact ?n)"
    by (simp add: fact_next_def)
  have k: "k = (if t_i2 t = t_arg t then C_exit else C_yield)" "b' = b"
    "ls' = [L_num (t_id t) (of_nat (fact ?n))]"
    "t' = (if t_i2 t = t_arg t then fact_next t else (fact_next t)\<lparr>environment := Fact_yield\<rparr>)"
    using sg R by (auto simp: fact_seg_def Let_def split: if_splits)
  have out: "ls @ ls' = numbers fact (t_id t) ?n"
    using numbers_Suc [of fact "t_id t" "?n - 1"] ls k(3) n by simp
  have lt: "t_i2 t \<noteq> t_arg t \<Longrightarrow> sint (t_i2 t) < sint (t_arg t)"
    using i(2) by (metis order_le_less signed_word_eqI)
  have f: "t_id (fact_next t) = t_id t" "t_arg (fact_next t) = t_arg t"
    "t_i2 (fact_next t) = t_i2 t" "environment (fact_next t) = environment t"
    by (simp_all add: fact_next_def)
  show "thread_data (\<not> leaves k) (ls @ ls') t'"
    using e out lt R i k f by (auto simp: leaves_def thread_data_def shape_def regs_ok_def)
  show "b' = b" "ls' = lines_of (t_id t) ls'" "j \<noteq> t_id t \<Longrightarrow> lines_of j ls' = []"
    "leaves k \<Longrightarrow> t_i2 t = t_arg t"
    using k by (auto simp: lines_of_def leaves_def split: if_splits)
  show "\<not> leaves k \<Longrightarrow> weight t' = nat (sint (t_arg t)) - nat (sint (t_i2 t))"
    using k f by (auto simp: weight_def leaves_def split: if_splits)
qed

lemma bank_seg_data:
  assumes e: "environment t \<in> {Bank_setup, Bank_lock, Bank_yield1, Bank_yield2}"
    and d: "thread_data True ls t" and sg: "seg t b = (t', ls', b', k)"
  shows "thread_data (\<not> leaves k) (ls @ ls') t'"
    and "ls' = lines_of (t_id t) ls'" and "j \<noteq> t_id t \<Longrightarrow> lines_of j ls' = []"
    and "if leaves k then weight t = 1 else weight t = Suc (weight t')"
proof -
  have sh: "\<exists>o'. ls = take (printed t) [L_acquired (t_id t), L_bank (t_id t) o' (bank_apply (t_arg t) o'),
      L_released (t_id t)]"
    using d e by (auto simp: thread_data_live shape_def)
  show "thread_data (\<not> leaves k) (ls @ ls') t'"
    using e sh sg
    by (auto simp: seg_def thread_data_def shape_def regs_ok_def leaves_def numeral_3_eq_3 numeral_2_eq_2)
  show "ls' = lines_of (t_id t) ls'" "j \<noteq> t_id t \<Longrightarrow> lines_of j ls' = []"
    "if leaves k then weight t = 1 else weight t = Suc (weight t')"
    using e sg by (auto simp: seg_def lines_of_def leaves_def weight_def)
qed

text \<open>A step of any thread: its lines and the work that is left.\<close>

lemma seg_data:
  assumes d: "thread_data True ls t" and sg: "seg t b = (t', ls', b', k)"
  shows "thread_data (\<not> leaves k) (ls @ ls') t'"
    and "ls' = lines_of (t_id t) ls'" and "j \<noteq> t_id t \<Longrightarrow> lines_of j ls' = []"
    and "if leaves k then weight t = 1 else weight t = Suc (weight t')"
proof -
  note D = d [unfolded thread_data_live]
  have "thread_data (\<not> leaves k) (ls @ ls') t' \<and> ls' = lines_of (t_id t) ls' \<and>
    (j \<noteq> t_id t \<longrightarrow> lines_of j ls' = []) \<and>
    (if leaves k then weight t = 1 else weight t = Suc (weight t'))"
  proof (cases "environment t")
    case Fib_setup
    let ?t = "t\<lparr>t_i := 1\<rparr>"
    have f: "fib_seg ?t b = (t', ls', b', k)" using sg Fib_setup by (simp add: seg_def)
    have arg: "1 \<le> sint (t_arg t)" "ls = []" using D Fib_setup by (auto simp: shape_def)
    note F = fib_seg_data [OF _ _ _ _ _ _ f, of ls]
    show ?thesis
      using F(1,3-6) Fib_setup arg by (auto simp: weight_def)
  next
    case Fib_yield
    let ?t = "t\<lparr>t_i := t_i t + 1\<rparr>"
    have f: "fib_seg ?t b = (t', ls', b', k)" using sg Fib_yield by (simp add: seg_def)
    have r: "1 \<le> sint (t_i t)" "t_y t = of_nat (fib (nat (sint (t_i t))))"
      "2 \<le> sint (t_i t) \<Longrightarrow> t_x t = of_nat (fib (nat (sint (t_i t)) - 1))"
      "sint (t_i t) < sint (t_arg t)" "ls = numbers fib (t_id t) (nat (sint (t_i t)))"
      using D Fib_yield by (auto simp: shape_def regs_ok_def)
    have i: "sint (t_i t + 1) = sint (t_i t) + 1" using r(4) by (rule sint_add_1)
    have n: "nat (sint (t_i t) + 1) - Suc 0 = nat (sint (t_i t))"
      "nat (sint (t_i t) + 1) - 2 = nat (sint (t_i t)) - Suc 0" using r(1) by arith+
    have pre: "environment ?t \<in> {Fib_setup, Fib_yield}"
      "1 \<le> sint (t_i ?t)" "sint (t_i ?t) \<le> sint (t_arg ?t)"
      "1 < sint (t_i ?t) \<Longrightarrow> t_y ?t = of_nat (fib (nat (sint (t_i ?t)) - 1))"
      "2 < sint (t_i ?t) \<Longrightarrow> t_x ?t = of_nat (fib (nat (sint (t_i ?t)) - 2))"
      "ls = numbers fib (t_id ?t) (nat (sint (t_i ?t)) - 1)"
      using Fib_yield r by (simp_all add: i n)
    note F = fib_seg_data [OF pre f]
    have w: "weight t = nat (sint (t_arg t)) - nat (sint (t_i t))"
      "nat (sint (t_i ?t)) = Suc (nat (sint (t_i t)))"
      using Fib_yield r(1) i by (simp_all add: weight_def)
    have "if leaves k then weight t = 1 else weight t = Suc (weight t')"
    proof -
      have "nat (sint (t_i t)) < nat (sint (t_arg t))" using r(1,4) by arith
      with F(5,6) w i show ?thesis by (auto simp: Suc_diff_Suc)
    qed
    with F(1,3) F(4) [of j] show ?thesis by simp
  next
    case Fact_setup
    let ?t = "t\<lparr>t_z := 1, t_i2 := 1\<rparr>"
    have f: "fact_seg ?t b = (t', ls', b', k)" using sg Fact_setup by (simp add: seg_def)
    have arg: "1 \<le> sint (t_arg t)" "ls = []" using D Fact_setup by (auto simp: shape_def)
    note F = fact_seg_data [OF _ _ _ _ _ f, of ls]
    show ?thesis
      using F(1,3-6) Fact_setup arg by (auto simp: weight_def)
  next
    case Fact_yield
    let ?t = "t\<lparr>t_i2 := t_i2 t + 1\<rparr>"
    have f: "fact_seg ?t b = (t', ls', b', k)" using sg Fact_yield by (simp add: seg_def)
    have r: "1 \<le> sint (t_i2 t)" "t_z t = of_nat (fact (nat (sint (t_i2 t))))"
      "sint (t_i2 t) < sint (t_arg t)" "ls = numbers fact (t_id t) (nat (sint (t_i2 t)))"
      using D Fact_yield by (auto simp: shape_def regs_ok_def)
    have i: "sint (t_i2 t + 1) = sint (t_i2 t) + 1" using r(3) by (rule sint_add_1)
    have n: "nat (sint (t_i2 t) + 1) - Suc 0 = nat (sint (t_i2 t))" using r(1) by arith
    have pre: "environment ?t \<in> {Fact_setup, Fact_yield}"
      "1 \<le> sint (t_i2 ?t)" "sint (t_i2 ?t) \<le> sint (t_arg ?t)"
      "t_z ?t = of_nat (fact (nat (sint (t_i2 ?t)) - 1))"
      "ls = numbers fact (t_id ?t) (nat (sint (t_i2 ?t)) - 1)"
      using Fact_yield r by (simp_all add: i n)
    note F = fact_seg_data [OF pre f]
    have w: "weight t = nat (sint (t_arg t)) - nat (sint (t_i2 t))"
      "nat (sint (t_i2 ?t)) = Suc (nat (sint (t_i2 t)))"
      using Fact_yield r(1) i by (simp_all add: weight_def)
    have "if leaves k then weight t = 1 else weight t = Suc (weight t')"
    proof -
      have "nat (sint (t_i2 t)) < nat (sint (t_arg t))" using r(1,3) by arith
      with F(5,6) w i show ?thesis by (auto simp: Suc_diff_Suc)
    qed
    with F(1,3) F(4) [of j] show ?thesis by simp
  qed (use bank_seg_data [OF _ d sg] in blast)+
  then show "thread_data (\<not> leaves k) (ls @ ls') t'" "ls' = lines_of (t_id t) ls'"
    "j \<noteq> t_id t \<Longrightarrow> lines_of j ls' = []"
    "if leaves k then weight t = 1 else weight t = Suc (weight t')" by blast+
qed

end
