(* ===== verification/Ult_Run.thy ===== *)
theory Ult_Run
  imports Ult_Data
begin

text \<open>
  The whole program: the invariant over the output, its start in \<open>main\<close>, its preservation by
  every step, and the end of every run.
\<close>

section \<open>The output as a trace\<close>

text \<open>
  Critical sections as brackets: nobody may acquire the lock inside another thread's section, and
  the balance is only touched inside one's own.
\<close>

fun cs_step :: "int option \<Rightarrow> line \<Rightarrow> int option option" where
  "cs_step h (L_acquired i) = (if h = None then Some (Some i) else None)"
| "cs_step h (L_bank i b b') = (if h = Some i then Some h else None)"
| "cs_step h (L_released i) = (if h = Some i then Some None else None)"
| "cs_step h _ = Some h"

fun cs_trace :: "int option \<Rightarrow> line list \<Rightarrow> int option option" where
  "cs_trace h [] = Some h"
| "cs_trace h (l # ls) = do { h' \<leftarrow> cs_step h l; cs_trace h' ls }"

lemma cs_trace_append: "cs_trace h (xs @ ys) = do { h' \<leftarrow> cs_trace h xs; cs_trace h' ys }"
  by (induction xs arbitrary: h) (auto split: bind_split)

lemma cs_trace_caught: "set ls \<subseteq> range L_caught \<Longrightarrow> cs_trace h ls = Some h"
  by (induction ls) auto

text \<open>
  The history of the balance: every line reports the balance the line before left, changed by the
  operation of the thread that prints it.
\<close>

fun replay :: "(int \<Rightarrow> i32) \<Rightarrow> i32 \<Rightarrow> line list \<Rightarrow> i32 option" where
  "replay args b [] = Some b"
| "replay args b (L_bank i old new # ls) =
     (if old = b \<and> new = bank_apply (args i) b then replay args new ls else None)"
| "replay args b (_ # ls) = replay args b ls"

lemma replay_append: "replay args b (xs @ ys) = do { b' \<leftarrow> replay args b xs; replay args b' ys }"
  by (induction args b xs rule: replay.induct) auto

lemma replay_caught: "set ls \<subseteq> range L_caught \<Longrightarrow> replay args b ls = Some b"
  by (induction ls) auto

section \<open>The invariant\<close>

text \<open>A thread has printed that it acquired the lock and not yet that it released it.\<close>

definition inside :: "jmp_point \<Rightarrow> bool" where
  "inside e \<longleftrightarrow> e = Bank_yield1 \<or> e = Bank_yield2"

definition holder_ok :: "ult \<Rightarrow> queues \<Rightarrow> int option \<Rightarrow> bool" where
  "holder_ok s q h \<longleftrightarrow> (\<forall>i. h = Some i \<longleftrightarrow> (\<exists>a \<in> threads q. ident_of s a = i \<and> inside (env_of s a)))"

definition data_ok :: "(int \<Rightarrow> i32) \<Rightarrow> ult \<Rightarrow> queues \<Rightarrow> bool" where
  "data_ok args s q \<longleftrightarrow>
     (\<forall>a < length (tcbs s). thread_data (a \<in> threads q) (lines_of (ident_of s a) (out s)) (tcbs s ! a) \<and>
        args (ident_of s a) = t_arg (tcbs s ! a)) \<and>
     replay args 500 (out s) = Some (balance (bank s)) \<and>
     (\<forall>l \<in> set (out s). \<forall>i. line_of l = Some i \<longrightarrow> i \<in> t_id ` set (tcbs s)) \<and>
     (\<exists>h. cs_trace None (out s) = Some h \<and> holder_ok s q h)"

definition work_left :: "ult \<Rightarrow> queues \<Rightarrow> nat" where
  "work_left s q = (\<Sum>a \<in> threads q. weight (tcbs s ! a))"

text \<open>What never changes about a thread: its id, its function and its argument.\<close>

fun thread_class :: "jmp_point \<Rightarrow> nat" where
  "thread_class Fib_setup = 0" | "thread_class Fib_yield = 0"
| "thread_class Fact_setup = 1" | "thread_class Fact_yield = 1"
| "thread_class _ = 2"

definition identity :: "tcb \<Rightarrow> int \<times> nat \<times> i32" where
  "identity t = (t_id t, thread_class (environment t), t_arg t)"

lemma seg_identity: "seg t b = (t', ls, b', c) \<Longrightarrow> identity t' = identity t"
  by (auto simp: identity_def seg_def fib_seg_def fact_seg_def fact_next_def Let_def
      split: jmp_point.splits if_splits)

definition ult_inv ::
  "(int \<Rightarrow> i32) \<Rightarrow> (int \<times> nat \<times> i32) list \<Rightarrow> nat \<Rightarrow> outcome \<times> ult \<Rightarrow> bool" where
  "ult_inv args sg n c \<longleftrightarrow> map identity (tcbs (snd c)) = sg \<and> (\<exists>q. sys_ok (snd c) q \<and> data_ok args (snd c) q \<and> work_left (snd c) q = n \<and>
     (fst c = Returned \<longleftrightarrow> threads q = {}) \<and> (fst c = Jumped \<longrightarrow> cur q < length (ready q)))"

section \<open>Preservation\<close>

lemma threads_bound: "repr s q \<Longrightarrow> a \<in> threads q \<Longrightarrow> a < length (tcbs s)"
  by (auto simp: repr_def threads_def)

lemma finite_threads [simp]: "finite (threads q)"
  by (simp add: threads_def)

text \<open>The bracketing and the balance over one step of a thread.\<close>

lemma seg_cs:
  assumes sg: "seg t b = (t', ls, b', k)"
    and only: "in_cs (environment t) \<Longrightarrow> h = (if inside (environment t) then Some (t_id t) else None)"
  shows "cs_trace h ls = Some (if in_cs (environment t)
      then (if inside (environment t') \<and> k = C_yield then Some (t_id t) else None) else h)"
    and "inside (environment t') \<and> k = C_yield \<longrightarrow> in_cs (environment t)"
  using assms
  by (auto simp: seg_def fib_seg_def fact_seg_def Let_def inside_def fib_next_def fact_next_def
      split: jmp_point.splits if_splits)

lemma seg_replay:
  assumes "seg t b = (t', ls, b', k)" and "args (t_id t) = t_arg t"
  shows "replay args b ls = Some b'"
  using assms by (auto simp: seg_def fib_seg_def fact_seg_def Let_def split: jmp_point.splits if_splits)

lemma inside_in_cs: "inside e \<Longrightarrow> in_cs e"
  by (auto simp: inside_def)

text \<open>Only the owner of the lock, a ready thread, can be inside.\<close>

lemma inside_unique:
  assumes "lock_ok (ident_of s) (env_of s) q" and "a \<in> set (ready q)" and "in_cs (env_of s a)"
    and "b \<in> threads q" and "inside (env_of s b)"
  shows "b = a"
proof -
  note D = lock_okD [OF assms(1)]
  have "b \<in> set (ready q)"
    using assms(4,5) D(6) [of b] by (auto simp: threads_def inside_def)
  then have "ident_of s b = ident_of s a"
    using D(7) [of b] D(7) [OF assms(2)] assms(3) inside_in_cs [OF assms(5)] by simp
  with inj_onD [OF D(4) _ assms(4)] assms(2) show ?thesis by (auto simp: threads_def)
qed

lemma holder_step:
  assumes ok: "lock_ok (ident_of s) (env_of s) q" and h: "holder_ok s q h"
    and a: "a \<in> set (ready q)" "a < length (tcbs s)"
    and sg: "seg (tcbs s ! a) b = (t', ls, b', k)"
    and u: "tcbs u = (tcbs s)[a := t']"
    and th: "threads q' = (if leaves k then threads q - {a} else threads q)"
    and bound: "\<And>c. c \<in> threads q \<Longrightarrow> c < length (tcbs s)"
  shows "\<exists>h'. cs_trace h ls = Some h' \<and> holder_ok u q' h'"
proof -
  have aq: "a \<in> threads q" using a by (simp add: threads_def)
  have at: "env_of s a = environment (tcbs s ! a)" "ident_of s a = t_id (tcbs s ! a)"
    by (simp_all add: env_of_def ident_of_def)
  have idu: "ident_of u c = ident_of s c" for c
    using u seg_frame(1) [OF sg] a(2) by (simp add: ident_of_def nth_list_update)
  have envu: "env_of u c = (if c = a then environment t' else env_of s c)" for c
    using u a(2) by (simp add: env_of_def nth_list_update)
  have only: "h = (if inside (environment (tcbs s ! a)) then Some (t_id (tcbs s ! a)) else None)"
    if cs: "in_cs (environment (tcbs s ! a))"
  proof -
    have cs': "in_cs (env_of s a)" using cs at by simp
    have un: "c = a" if "c \<in> threads q" "inside (env_of s c)" for c
      using inside_unique [OF ok a(1) cs' that] .
    show ?thesis
    proof (cases "inside (env_of s a)")
      case True
      then have "h = Some (ident_of s a)" using h aq unfolding holder_ok_def by blast
      with True at show ?thesis by simp
    next
      case False
      then have "h \<noteq> Some i" for i using h un unfolding holder_ok_def by blast
      then have "h = None" by (metis option.exhaust)
      with False at show ?thesis by simp
    qed
  qed
  note C = seg_cs [OF sg only]
  let ?in = "inside (environment t') \<and> k = C_yield"
  let ?h = "if in_cs (environment (tcbs s ! a)) then (if ?in then Some (t_id (tcbs s ! a)) else None) else h"
  have yl: "\<not> leaves k \<Longrightarrow> inside (environment t') \<Longrightarrow> k = C_yield"
    using seg_frame(4) [OF sg] by (cases k) (auto simp: leaves_def inside_def)
  have "holder_ok u q' ?h"
  proof (cases "in_cs (environment (tcbs s ! a))")
    case True
    then have un: "c = a" if "c \<in> threads q" "inside (env_of s c)" for c
      using inside_unique [OF ok a(1) _ that] at by simp
    have "(\<exists>c \<in> threads q'. ident_of u c = i \<and> inside (env_of u c)) \<longleftrightarrow>
        ?in \<and> i = t_id (tcbs s ! a)" for i
    proof
      assume "\<exists>c \<in> threads q'. ident_of u c = i \<and> inside (env_of u c)"
      then obtain c where c: "c \<in> threads q'" "ident_of s c = i" "inside (env_of u c)"
        using idu by auto
      have "c \<in> threads q" using c(1) th by (auto split: if_splits)
      with un c(3) envu [of c] have ca: "c = a" by (auto split: if_splits)
      with c(1) th have "\<not> leaves k" by (auto split: if_splits)
      with yl c(2,3) envu [of c] ca at show "?in \<and> i = t_id (tcbs s ! a)" by simp
    next
      assume i: "?in \<and> i = t_id (tcbs s ! a)"
      then have "a \<in> threads q'" using th aq by (simp add: leaves_def)
      with i show "\<exists>c \<in> threads q'. ident_of u c = i \<and> inside (env_of u c)"
        using idu [of a] envu [of a] at by auto
    qed
    moreover have "?h = Some i \<longleftrightarrow> ?in \<and> i = t_id (tcbs s ! a)" for i
      using True by auto
    ultimately show ?thesis unfolding holder_ok_def by metis
  next
    case False
    then have "\<not> inside (environment t')" if "\<not> leaves k"
      using C(2) yl that by blast
    moreover have "\<not> inside (env_of s a)" using False at inside_in_cs by auto
    ultimately have "(\<exists>c \<in> threads q'. ident_of u c = i \<and> inside (env_of u c)) \<longleftrightarrow>
        (\<exists>c \<in> threads q. ident_of s c = i \<and> inside (env_of s c))" for i
      using th by (auto simp: idu envu split: if_splits)
    with False h show ?thesis by (simp add: holder_ok_def)
  qed
  with C(1) show ?thesis by blast
qed

text \<open>One step of the running thread: it never fails, keeps the invariant and uses up work.\<close>

lemma sys_ok_sched:
  assumes "sched_result s q' c" and "lock_ok (ident_of s) (env_of s) q'"
    and "length (tcbs s) \<le> THREAD_MAX" and "distinct (map t_id (tcbs s))" and "-1 \<notin> t_id ` set (tcbs s)"
  shows "sys_ok (snd c) q'"
  using assms ident_of_tcbs [of "snd c" s] env_of_tcbs [of "snd c" s]
  by (simp add: sys_ok_def sched_result_def)

lemma data_ok_sched:
  assumes "sched_result s q' c" and "data_ok args s q'"
  shows "data_ok args (snd c) q'"
proof -
  obtain ls where ls: "out (snd c) = out s @ ls" "set ls \<subseteq> range L_caught"
    and same: "tcbs (snd c) = tcbs s" "balance (bank (snd c)) = balance (bank s)"
    using assms(1) by (auto simp: sched_result_def)
  have "ident_of (snd c) = ident_of s" "env_of (snd c) = env_of s"
    by (intro ident_of_tcbs env_of_tcbs same(1))+
  moreover have "\<forall>l \<in> set ls. line_of l = None" using ls(2) by auto
  ultimately show ?thesis
    using assms(2) ls same
    by (auto simp: data_ok_def lines_of_caught replay_append replay_caught cs_trace_append
        cs_trace_caught holder_ok_def)
qed

text \<open>The running thread and its step: its own half, then the scheduler's.\<close>

lemma running_thread:
  assumes "sys_ok s q" and "cur q < length (ready q)"
  shows "ready q ! cur q < length (tcbs s)" and "RUNNING s = Some (Some (ready q ! cur q))"
    and "ready q ! cur q \<in> threads q"
proof -
  have r: "repr s q" using assms(1) by (simp add: sys_ok_def)
  show t: "ready q ! cur q \<in> threads q" using assms(2) by (simp add: threads_def)
  show "ready q ! cur q < length (tcbs s)" using r t by (rule threads_bound)
  show "RUNNING s = Some (Some (ready q ! cur q))"
    using r assms(2) by (simp add: RUNNING_def repr_def pad_get)
qed

lemma resume_split:
  assumes sys: "sys_ok s q" and cur: "cur q < length (ready q)" and a: "a = ready q ! cur q"
    and sg: "seg (tcbs s ! a) (balance (bank s)) = (t', ls, b', k)"
  shows "\<exists>c q'. resume s = Some c \<and> sched_result (after s a t' ls b') q' c \<and>
     lock_ok (ident_of (after s a t' ls b')) (env_of (after s a t' ls b')) q' \<and>
     lock_change k (ident_of (after s a t' ls b')) q q' \<and>
     threads q' = (if leaves k then threads q - {a} else threads q)"
proof -
  let ?s = "after s a t' ls b'"
  have r: "repr s q" and ok: "lock_ok (ident_of s) (env_of s) q" and len: "length (tcbs s) \<le> THREAD_MAX"
    using sys by (simp_all add: sys_ok_def)
  note R = running_thread [OF sys cur, folded a]
  have ar: "a \<in> set (ready q)" using cur by (simp add: a)
  have own: "t_id (tcbs s ! a) = lock_owner (bank s)" if "environment (tcbs s ! a) = Bank_yield2"
    using lock_okD(7) [OF ok ar] that r by (simp add: env_of_def ident_of_def repr_def)
  have "repr ?s q" "length (tcbs ?s) \<le> THREAD_MAX"
    using r len by (simp_all add: after_def repr_def)
  from dispatch_result [OF this(1) cur this(2) seg_ctl_pre [OF ok cur a R(1) sg]]
    resume_seg [OF R(2,1) own sg]
  show ?thesis unfolding a by simp
qed

lemma resume_inv:
  assumes "ult_inv args sg n (Jumped, s)"
  shows "\<exists>c m. resume s = Some c \<and> ult_inv args sg m c \<and> n = Suc m"
proof -
  obtain q where sys: "sys_ok s q" and data: "data_ok args s q" and n: "work_left s q = n"
    and cur: "cur q < length (ready q)" and sgs: "map identity (tcbs s) = sg"
    using assms by (auto simp: ult_inv_def)
  define a where "a = ready q ! cur q"
  have r: "repr s q" and ok: "lock_ok (ident_of s) (env_of s) q"
    and len: "length (tcbs s) \<le> THREAD_MAX" and ids: "distinct (map t_id (tcbs s))" "-1 \<notin> t_id ` set (tcbs s)"
    using sys by (simp_all add: sys_ok_def)
  note al = running_thread(1) [OF sys cur, folded a_def] and aq = running_thread(3) [OF sys cur, folded a_def]
  have ar: "a \<in> set (ready q)" using cur by (simp add: a_def)
  obtain t' ls b' k where sg: "seg (tcbs s ! a) (balance (bank s)) = (t', ls, b', k)"
    by (metis prod_cases4)
  note F = seg_frame [OF sg]
  let ?s = "after s a t' ls b'"
  have u: "tcbs ?s = (tcbs s)[a := t']" "out ?s = out s @ ls" "length (tcbs ?s) \<le> THREAD_MAX"
    "balance (bank ?s) = b'"
    using r len by (simp_all add: after_def repr_def)
  obtain c q' where c: "resume s = Some c" "sched_result ?s q' c"
    "lock_ok (ident_of ?s) (env_of ?s) q'"
    "threads q' = (if leaves k then threads q - {a} else threads q)"
    using resume_split [OF sys cur a_def sg] by blast
  have idu: "ident_of ?s = ident_of s"
    using F(1) al by (intro ext) (simp add: ident_of_def u nth_list_update)
  have mapid: "map t_id (tcbs ?s) = map t_id (tcbs s)"
    using F(1) al list_update_id [of "map t_id (tcbs s)" a] by (simp add: u map_update)
  have "map identity (tcbs ?s) = map identity (tcbs s)"
    using seg_identity [OF sg] al list_update_id [of "map identity (tcbs s)" a]
    by (simp add: u map_update)
  then have ident: "map identity (tcbs (snd c)) = sg"
    using c(2) sgs by (simp add: sched_result_def)
  have dist: "distinct (map t_id (tcbs ?s))" "-1 \<notin> t_id ` set (tcbs ?s)"
    using ids mapid by (simp_all flip: set_map)
  have sys': "sys_ok (snd c) q'"
    using c(2,3) u(3) dist by (rule sys_ok_sched)
  have old: "thread_data (b \<in> threads q) (lines_of (ident_of s b) (out s)) (tcbs s ! b)"
    "args (ident_of s b) = t_arg (tcbs s ! b)" if "b < length (tcbs s)" for b
    using data that by (simp_all add: data_ok_def)
  have ia: "ident_of s a = t_id (tcbs s ! a)" by (simp add: ident_of_def)
  have live: "thread_data True (lines_of (t_id (tcbs s ! a)) (out s)) (tcbs s ! a)"
    using old(1) [OF al] aq ia by simp
  note S = seg_data [OF live sg]
  have new: "thread_data (b \<in> threads q') (lines_of (ident_of ?s b) (out ?s)) (tcbs ?s ! b) \<and>
      args (ident_of ?s b) = t_arg (tcbs ?s ! b)" if b: "b < length (tcbs s)" for b
  proof (cases "b = a")
    case True
    have "lines_of (ident_of ?s a) (out ?s) = lines_of (t_id (tcbs s ! a)) (out s) @ ls"
      using S(2) by (simp add: idu u ia)
    with S(1) True al F(2) old(2) [OF al] c(4) aq show ?thesis
      by (auto simp: u idu)
  next
    case False
    have "ident_of s b \<noteq> t_id (tcbs s ! a)"
      using ids(1) False al b by (auto simp: ident_of_def distinct_conv_nth)
    then have "lines_of (ident_of ?s b) (out ?s) = lines_of (ident_of s b) (out s)"
      using S(3) by (simp add: idu u)
    with old [OF b] False c(4) show ?thesis by (simp add: u idu)
  qed
  have rep: "replay args 500 (out ?s) = Some b'"
    using data seg_replay [OF sg, of args] old(2) [OF al] ia by (simp add: data_ok_def u replay_append)
  obtain h where h: "cs_trace None (out s) = Some h" "holder_ok s q h"
    using data by (auto simp: data_ok_def)
  obtain h' where "cs_trace h ls = Some h'" "holder_ok ?s q' h'"
    using holder_step [OF ok h(2) ar al sg u(1) c(4) threads_bound [OF r]] by blast
  moreover have "i \<in> t_id ` set (tcbs ?s)" if l: "l \<in> set (out ?s)" "line_of l = Some i" for l i
  proof -
    have "t_id ` set (tcbs ?s) = t_id ` set (tcbs s)" using mapid by (metis set_map)
    moreover have "i \<in> t_id ` set (tcbs s)"
    proof (cases "l \<in> set (out s)")
      case True
      with data l(2) show ?thesis by (auto simp: data_ok_def)
    next
      case False
      with l(1) have "l \<in> set ls" by (simp add: u)
      with S(2) have "line_of l = Some (t_id (tcbs s ! a))"
        unfolding lines_of_def by (metis (mono_tags, lifting) filter_id_conv)
      with l(2) have "i = t_id (tcbs s ! a)" by simp
      with al show ?thesis using imageI [OF nth_mem [OF al], of t_id] by simp
    qed
    ultimately show ?thesis by simp
  qed
  ultimately have "data_ok args ?s q'"
    using h new rep unfolding data_ok_def u(1,2,4) by (auto simp: u cs_trace_append)
  then have data': "data_ok args (snd c) q'" by (rule data_ok_sched [OF c(2)])
  have others: "(\<Sum>b \<in> threads q - {a}. weight (tcbs ?s ! b)) = (\<Sum>b \<in> threads q - {a}. weight (tcbs s ! b))"
    by (rule sum.cong) (auto simp: u)
  have "work_left s q = Suc (work_left (snd c) q')"
  proof -
    have "work_left s q = weight (tcbs s ! a) + (\<Sum>b \<in> threads q - {a}. weight (tcbs s ! b))"
      using aq by (simp add: work_left_def sum.remove)
    moreover have "work_left (snd c) q' = (if leaves k then 0 else weight t') +
        (\<Sum>b \<in> threads q - {a}. weight (tcbs ?s ! b))"
      using aq al c(2,4) by (simp add: work_left_def sched_result_def sum.remove u)
    ultimately show ?thesis using S(4) others by (auto split: if_splits)
  qed
  with c(1,2) sys' data' n ident show ?thesis
    by (auto simp: ult_inv_def sched_result_def)
qed

text \<open>The arrival of a signal changes nothing the invariant speaks of.\<close>

lemma arrive_fields [simp]:
  "tcbs (arrive m s) = tcbs s" "out (arrive m s) = out s" "bank (arrive m s) = bank s"
  "repr (arrive m s) q = repr s q" "ident_of (arrive m s) = ident_of s" "env_of (arrive m s) = env_of s"
  by (simp_all add: arrive_def repr_def ident_of_def env_of_def fun_eq_iff)

lemma arrive_inv [inv_intros]: "ult_inv args sg n (oc, s) \<Longrightarrow> ult_inv args sg n (oc, arrive m s)"
  by (simp add: ult_inv_def sys_ok_def data_ok_def holder_ok_def work_left_def)

end
