(* ===== verification/Ult_Main.thy ===== *)
theory Ult_Main
  imports Ult_Run
begin

text \<open>
  \<open>main.c\<close> establishes the invariant; the reachable states and complete runs of the program;
  the waiting queue as a FIFO queue; the range in which the printed numbers are exact.
\<close>

section \<open>The start\<close>

definition new_tcb :: "jmp_point \<Rightarrow> int \<Rightarrow> i32 \<Rightarrow> tcb" where
  "new_tcb place i arg = \<lparr>t_id = i, environment = place, t_arg = arg,
     t_i = 1, t_x = 1, t_y = 1, t_i2 = 1, t_z = 1\<rparr>"

definition init_rep :: "ult \<Rightarrow> tcb list \<Rightarrow> bool" where
  "init_rep s ts \<longleftrightarrow> tcbs s = ts \<and> ready_queue s = pad THREAD_MAX [0..<length ts] \<and>
     rq_size s = int (length ts) \<and> waiting_queue s = pad THREAD_MAX [] \<and> wq_size s = 0 \<and>
     bank s = \<lparr>balance = 500, lock_owner = -1\<rparr> \<and> (\<forall>l \<in> set (out s). \<exists>i f. l = L_setup i f)"

lemma thread_setup_rep:
  assumes "init_rep s ts" and "length ts < THREAD_MAX"
  shows "\<exists>s'. thread_setup place f i arg s = Some s' \<and> init_rep s' (ts @ [new_tcb place i arg])"
proof -
  have "arr_set (ready_queue s) (rq_size s) (Some (length ts)) = Some (pad THREAD_MAX [0..<Suc (length ts)])"
    using assms pad_snoc [of "[0..<length ts]" THREAD_MAX "length ts"]
    by (simp add: init_rep_def arr_set_nat)
  with assms show ?thesis
    by (auto simp: thread_setup_def init_rep_def putline_def new_tcb_def)
qed

definition created :: "i32 \<Rightarrow> i32 \<Rightarrow> i32 \<Rightarrow> i32 \<Rightarrow> tcb list" where
  "created f1 f2 b1 b2 =
     (if sint f1 > 0 then [new_tcb Fib_setup 0 f1] else []) @
     (if sint f2 > 0 then [new_tcb Fact_setup 1 f2] else []) @
     (if b1 \<noteq> 0 then [new_tcb Bank_setup 2 b1] else []) @
     (if b2 \<noteq> 0 then [new_tcb Bank_setup 3 b2] else [])"

lemma thread_setup_if:
  assumes "init_rep s ts" and "length ts < THREAD_MAX"
  shows "\<exists>s'. (if P then thread_setup place f i arg s else Some s) = Some s' \<and>
     init_rep s' (ts @ (if P then [new_tcb place i arg] else []))"
  using thread_setup_rep [OF assms] assms(1) by auto

lemma init_threads_rep:
  "\<exists>s. init_threads f1 f2 b1 b2 (init_bank (globals\<lparr>timeslice := ts\<rparr>)) = Some s \<and>
     init_rep s (created f1 f2 b1 b2)"
proof -
  let ?s = "init_bank (globals\<lparr>timeslice := ts\<rparr>)"
  let ?l1 = "[] @ (if sint f1 > 0 then [new_tcb Fib_setup 0 f1] else [])"
  let ?l2 = "?l1 @ (if sint f2 > 0 then [new_tcb Fact_setup 1 f2] else [])"
  let ?l3 = "?l2 @ (if b1 \<noteq> 0 then [new_tcb Bank_setup 2 b1] else [])"
  have 0: "init_rep ?s []"
    by (simp add: init_rep_def init_bank_def globals_def pad_Nil)
  have len: "length [] < THREAD_MAX" "length ?l1 < THREAD_MAX" "length ?l2 < THREAD_MAX"
    "length ?l3 < THREAD_MAX"
    by (simp_all add: THREAD_MAX_def)
  from thread_setup_if [OF 0 len(1), of "sint f1 > 0" Fib_setup "''fibonacci''" 0 f1]
  obtain s1 where 1: "(if sint f1 > 0 then thread_setup Fib_setup ''fibonacci'' 0 f1 ?s else Some ?s) = Some s1"
    "init_rep s1 ?l1" by blast
  from thread_setup_if [OF 1(2) len(2), of "sint f2 > 0" Fact_setup "''factorial''" 1 f2]
  obtain s2 where 2: "(if sint f2 > 0 then thread_setup Fact_setup ''factorial'' 1 f2 s1 else Some s1) = Some s2"
    "init_rep s2 ?l2" by blast
  from thread_setup_if [OF 2(2) len(3), of "b1 \<noteq> 0" Bank_setup "''bank_operation''" 2 b1]
  obtain s3 where 3: "(if b1 \<noteq> 0 then thread_setup Bank_setup ''bank_operation'' 2 b1 s2 else Some s2) = Some s3"
    "init_rep s3 ?l3" by blast
  from thread_setup_if [OF 3(2) len(4), of "b2 \<noteq> 0" Bank_setup "''bank_operation''" 3 b2]
  obtain s4 where 4: "(if b2 \<noteq> 0 then thread_setup Bank_setup ''bank_operation'' 3 b2 s3 else Some s3) = Some s4"
    "init_rep s4 (?l3 @ (if b2 \<noteq> 0 then [new_tcb Bank_setup 3 b2] else []))" by blast
  have "init_threads f1 f2 b1 b2 ?s = Some s4"
    unfolding init_threads_def 1(1) 2(1) 3(1) 4(1) Option.bind.simps ..
  moreover have "init_rep s4 (created f1 f2 b1 b2)"
    using 4(2) unfolding created_def append_assoc append_Nil .
  ultimately show ?thesis by blast
qed

definition ult_args :: "i32 \<Rightarrow> i32 \<Rightarrow> i32 \<Rightarrow> i32 \<Rightarrow> int \<Rightarrow> i32" where
  "ult_args f1 f2 b1 b2 i = (if i = 0 then f1 else if i = 1 then f2 else if i = 2 then b1 else b2)"

text \<open>The number of steps the threads take together.\<close>

definition ult_work :: "i32 \<Rightarrow> i32 \<Rightarrow> i32 \<Rightarrow> i32 \<Rightarrow> nat" where
  "ult_work f1 f2 b1 b2 = nat (sint f1) + nat (sint f2) + (if b1 = 0 then 0 else 4)
     + (if b2 = 0 then 0 else 4)"

lemma created_facts:
  fixes f1 f2 b1 b2 :: i32
  defines "ts \<equiv> created f1 f2 b1 b2"
  shows "length ts \<le> THREAD_MAX" and "distinct (map t_id ts)" and "-1 \<notin> t_id ` set ts"
    and "t \<in> set ts \<Longrightarrow> ult_args f1 f2 b1 b2 (t_id t) = t_arg t"
    and "t \<in> set ts \<Longrightarrow> thread_data True [] t \<and> \<not> in_cs (environment t)"
    and "sum_list (map weight ts) = ult_work f1 f2 b1 b2"
  by (auto simp: ts_def created_def new_tcb_def THREAD_MAX_def ult_args_def thread_data_def
      shape_def regs_ok_def weight_def ult_work_def split: if_splits)

lemma setup_lines:
  "\<forall>l \<in> set ls. \<exists>i f. l = L_setup i f \<Longrightarrow>
     lines_of j ls = [] \<and> cs_trace h ls = Some h \<and> replay args b ls = Some b"
  by (induction ls) (auto simp: lines_of_def)

lemma start_inv:
  assumes "init_rep s ts" and "length ts \<le> THREAD_MAX" and "distinct (map t_id ts)" and "-1 \<notin> t_id ` set ts"
    and args: "\<And>t. t \<in> set ts \<Longrightarrow> args (t_id t) = t_arg t"
    and fresh: "\<And>t. t \<in> set ts \<Longrightarrow> thread_data True [] t \<and> \<not> in_cs (environment t)"
  shows "\<exists>c. start_threading s = Some c \<and> ult_inv args (map identity ts) (sum_list (map weight ts)) c"
proof -
  let ?s = "s\<lparr>alarm_set := (timeslice s \<noteq> 0)\<rparr>" and ?n = "length ts"
  define q0 where "q0 = \<lparr>ready = [0..<?n], cur = 0, waiting = [], owner = -1\<rparr>"
  have I: "tcbs s = ts" "bank s = \<lparr>balance = 500, lock_owner = -1\<rparr>"
    "\<And>l. l \<in> set (out s) \<Longrightarrow> \<exists>i f. l = L_setup i f"
    using assms(1) by (auto simp: init_rep_def)
  have r0: "repr (?s\<lparr>rq_current := 0\<rparr>) q0"
    using assms(1,2) by (auto simp: init_rep_def repr_def q0_def)
  have "sched_pre 0 q0" by (simp add: sched_pre_def q0_def)
  then obtain c where c: "scheduler 0 (?s\<lparr>rq_current := 0\<rparr>) = Some c"
    "sched_result (?s\<lparr>rq_current := 0\<rparr>) (sched_spec (ident_of (?s\<lparr>rq_current := 0\<rparr>)) 0 q0) c"
    using scheduler_result [OF r0] by blast
  have spec: "sched_spec i 0 q0 = q0" for i by (simp add: sched_spec_def q0_def)
  have st: "start_threading s = Some c"
    using c(1) by (simp add: start_threading_def scheduler_def)
  note L = setup_lines [of "out s", OF ballI [OF I(3)]]
  let ?t = "?s\<lparr>rq_current := 0\<rparr>"
  have th: "threads q0 = {..<?n}" by (auto simp: threads_def q0_def)
  have id: "inj_on (ident_of ?t) {..<?n}"
    using assms(3) I(1) by (auto simp: inj_on_def ident_of_def distinct_conv_nth)
  have env: "\<not> in_cs (env_of ?t a)" "ident_of ?t a \<noteq> -1" if "a < ?n" for a
  proof -
    have m: "ts ! a \<in> set ts" using that by simp
    then have "t_id (ts ! a) \<noteq> -1" using assms(4) by (metis imageI)
    with fresh [OF m] I(1) show "\<not> in_cs (env_of ?t a)" "ident_of ?t a \<noteq> -1"
      by (simp_all add: env_of_def ident_of_def)
  qed
  have lk: "lock_ok (ident_of ?t) (env_of ?t) q0"
  proof (intro lock_okI)
    show "-1 \<notin> ident_of ?t ` threads q0" unfolding th using env(2) by (metis imageE lessThan_iff)
  qed (use id env th in \<open>simp_all add: q0_def\<close>)
  have sys: "sys_ok (snd c) q0"
    using c(2) lk assms(2-4) I(1) unfolding spec by (intro sys_ok_sched [of ?t]) simp_all
  have "holder_ok ?t q0 None"
    using env th inside_in_cs by (auto simp: holder_ok_def)
  moreover have "\<forall>l \<in> set (out s). line_of l = None" using I(3) by fastforce
  ultimately have "data_ok args ?t q0"
    using L args fresh th I by (auto simp: data_ok_def ident_of_def)
  then have data: "data_ok args (snd c) q0"
    using c(2) unfolding spec by (intro data_ok_sched [of ?t]) auto
  have "work_left (snd c) q0 = sum_list (map weight ts)"
    using c(2) th I(1) unfolding spec
    by (simp add: work_left_def sched_result_def sum_list_sum_nth atLeast0LessThan)
  with sys data c(2) st I(1) show ?thesis
    unfolding spec by (auto simp: ult_inv_def sched_result_def)
qed

definition identities :: "i32 \<Rightarrow> i32 \<Rightarrow> i32 \<Rightarrow> i32 \<Rightarrow> (int \<times> nat \<times> i32) list" where
  "identities f1 f2 b1 b2 = map identity (created f1 f2 b1 b2)"

abbreviation main_inv :: "i32 \<Rightarrow> i32 \<Rightarrow> i32 \<Rightarrow> i32 \<Rightarrow> nat \<Rightarrow> outcome \<times> ult \<Rightarrow> bool" where
  "main_inv f1 f2 b1 b2 n c \<equiv> ult_inv (ult_args f1 f2 b1 b2) (identities f1 f2 b1 b2) n c"

lemma ult_main_inv:
  "\<exists>c. ult_main ts f1 f2 b1 b2 = Some c \<and> main_inv f1 f2 b1 b2 (ult_work f1 f2 b1 b2) c"
proof -
  obtain s where s: "init_threads f1 f2 b1 b2 (init_bank (globals\<lparr>timeslice := ts\<rparr>)) = Some s"
    "init_rep s (created f1 f2 b1 b2)"
    using init_threads_rep by blast
  obtain c where "start_threading s = Some c"
    "ult_inv (ult_args f1 f2 b1 b2) (map identity (created f1 f2 b1 b2))
       (sum_list (map weight (created f1 f2 b1 b2))) c"
    using start_inv [OF s(2) created_facts(1-3), where args = "ult_args f1 f2 b1 b2"]
      created_facts(4,5) by blast
  with s(1) show ?thesis
    by (auto simp: ult_main_def created_facts(6) identities_def)
qed

section \<open>Reachable states and complete runs\<close>

lemma ult_step_inv:
  assumes "ult_step c c'" and "ult_inv args sg n c"
  shows "\<exists>m. ult_inv args sg m c'"
  using assms
proof (cases rule: ult_step.cases)
  case (run s)
  with resume_inv [of args sg n s] assms(2) show ?thesis by auto
qed (auto intro: arrive_inv)

interpretation ult: transition_invariant ult_step
  "\<lambda>c. ult_main ts f1 f2 b1 b2 = Some c" "\<lambda>c. \<exists>n. main_inv f1 f2 b1 b2 n c" for ts f1 f2 b1 b2
proof unfold_locales
  show "\<exists>n. main_inv f1 f2 b1 b2 n c" if "ult_main ts f1 f2 b1 b2 = Some c" for c
    using ult_main_inv [of ts f1 f2 b1 b2] that by auto
  show "\<exists>n. main_inv f1 f2 b1 b2 n c'" if "\<exists>n. main_inv f1 f2 b1 b2 n c" "ult_step c c'" for c c'
    using that ult_step_inv by blast
qed

lemma arrivals_inv [inv_intros]:
  "ult_inv args sg n (oc, s) \<Longrightarrow> ult_inv args sg n (oc, arrivals ns s)"
  unfolding arrivals_def by (induction ns arbitrary: s) (auto intro: arrive_inv)

lemma ult_run_complete:
  assumes "ult_inv args sg n c" and "n \<le> fuel"
  shows "\<exists>s. ult_run fuel sig c = Some s \<and> ult_inv args sg 0 (Returned, s)"
  using assms
proof (induction fuel arbitrary: n c)
  case 0
  then obtain oc s where c: "c = (oc, s)" "ult_inv args sg 0 (oc, s)" by (cases c) auto
  then show ?case using resume_inv [of args sg 0 s] by (cases oc) auto
next
  case (Suc fuel)
  obtain oc s where c: "c = (oc, s)" by (cases c)
  show ?case
  proof (cases oc)
    case Returned
    with Suc.prems(1) c have "n = 0"
      by (auto simp: ult_inv_def work_left_def)
    with Suc.prems(1) c Returned show ?thesis by simp
  next
    case Jumped
    have "ult_inv args sg n (Jumped, arrivals (sig fuel) s)"
      using Suc.prems(1) c Jumped by (auto intro: arrivals_inv)
    from resume_inv [OF this] obtain c' m where
      "resume (arrivals (sig fuel) s) = Some c'" "ult_inv args sg m c'" "n = Suc m" by blast
    with Suc c Jumped show ?thesis by auto
  qed
qed

text \<open>What the invariant says of a thread that has ended.\<close>

lemma inv_thread_lines:
  assumes "ult_inv args sg n (Returned, s)" and "(i, k, arg) \<in> set sg"
  shows "\<exists>t. t_id t = i \<and> thread_class (environment t) = k \<and> t_arg t = arg \<and>
     shape t (total t) (lines_of i (out s))"
proof -
  from assms obtain t where t: "t \<in> set (tcbs s)" "identity t = (i, k, arg)"
    by (auto simp: ult_inv_def)
  then obtain a where a: "a < length (tcbs s)" "t = tcbs s ! a"
    by (auto simp: in_set_conv_nth)
  obtain q where "threads q = {}" "data_ok args s q"
    using assms(1) by (auto simp: ult_inv_def)
  with a have "thread_data False (lines_of (t_id t) (out s)) t"
    by (auto simp: data_ok_def ident_of_def)
  with t(2) show ?thesis by (auto simp: thread_data_def identity_def)
qed

lemma shape_numbers:
  "thread_class (environment t) = 0 \<Longrightarrow> shape t (total t) ls \<longleftrightarrow> ls = numbers fib (t_id t) (nat (sint (t_arg t)))"
  "thread_class (environment t) = 1 \<Longrightarrow> shape t (total t) ls \<longleftrightarrow> ls = numbers fact (t_id t) (nat (sint (t_arg t)))"
  "thread_class (environment t) = 2 \<Longrightarrow> shape t (total t) ls \<longleftrightarrow> (\<exists>b. ls =
     [L_acquired (t_id t), L_bank (t_id t) b (bank_apply (t_arg t) b), L_released (t_id t)])"
  by (cases "environment t"; auto simp: shape_def numeral_3_eq_3)+

lemma identities_mem:
  "sint f1 > 0 \<Longrightarrow> (0, 0, f1) \<in> set (identities f1 f2 b1 b2)"
  "sint f2 > 0 \<Longrightarrow> (1, 1, f2) \<in> set (identities f1 f2 b1 b2)"
  "b1 \<noteq> 0 \<Longrightarrow> (2, 2, b1) \<in> set (identities f1 f2 b1 b2)"
  "b2 \<noteq> 0 \<Longrightarrow> (3, 2, b2) \<in> set (identities f1 f2 b1 b2)"
  by (auto simp: identities_def created_def new_tcb_def identity_def)

lemma inv_traces:
  assumes "ult_inv args sg n (oc, s)"
  shows "\<exists>h. cs_trace None (out s) = Some h \<and> (oc = Returned \<longrightarrow> h = None)"
    and "replay args 500 (out s) = Some (balance (bank s))"
  using assms by (force simp: ult_inv_def data_ok_def holder_ok_def)+

end
