(* ===== verification/CStrings.thy ===== *)
theory CStrings
  imports Main "HOL-Library.Sublist"
begin

text \<open>
  C strings as lists of characters without the terminating zero, and the functions of
  \<open>string.h\<close> the bulletin board and the service manager use: \<open>strstr\<close>, the whole sequence of
  tokens a loop of \<open>strtok\<close> yields, and \<open>strcpy\<close> into an array of known size.
\<close>

section \<open>\<open>strstr\<close>\<close>

text \<open>The offset of the first occurrence of \<open>d\<close>.\<close>

fun strstr :: "string \<Rightarrow> string \<Rightarrow> nat option" where
  "strstr [] d = (if d = [] then Some 0 else None)"
| "strstr (c # s) d = (if prefix d (c # s) then Some 0 else map_option Suc (strstr s d))"

lemma strstr_None: "strstr s d = None \<longleftrightarrow> \<not> sublist d s"
  by (induction s) (auto simp: sublist_Cons_right)

lemma strstr_Some:
  "strstr s d = Some k \<Longrightarrow> \<exists>p r. s = p @ d @ r \<and> length p = k"
proof (induction s arbitrary: k)
  case Nil
  then show ?case by (auto split: if_splits)
next
  case (Cons c s)
  show ?case
  proof (cases "prefix d (c # s)")
    case True
    with Cons.prems show ?thesis by (auto elim!: prefixE)
  next
    case False
    with Cons.prems obtain m where "strstr s d = Some m" "k = Suc m" by auto
    with Cons.IH [of m] show ?thesis by (metis append_Cons length_Cons)
  qed
qed

lemma strstr_prefix: "strstr (d @ s) d = Some 0"
  by (cases "d @ s") (simp_all, metis prefixI)

section \<open>\<open>strtok\<close>\<close>

lemma drop_token:
  assumes "t = dropWhile (\<lambda>c. c \<in> D) s" and "t \<noteq> []"
  shows "length (dropWhile (\<lambda>c. c \<notin> D) t) < length s"
proof -
  have "hd t \<notin> D" using assms hd_dropWhile [of "\<lambda>c. c \<in> D" s] by simp
  with assms(2) have "length (dropWhile (\<lambda>c. c \<notin> D) t) < length t"
    by (cases t) (auto simp: less_Suc_eq_le length_dropWhile_le)
  also have "\<dots> \<le> length s" using assms(1) by (simp add: length_dropWhile_le)
  finally show ?thesis .
qed

function tokens :: "char set \<Rightarrow> string \<Rightarrow> string list" where
  "tokens D s = (let t = dropWhile (\<lambda>c. c \<in> D) s in
     if t = [] then [] else takeWhile (\<lambda>c. c \<notin> D) t # tokens D (dropWhile (\<lambda>c. c \<notin> D) t))"
  by pat_completeness auto
termination
  by (relation "measure (\<lambda>(D, s). length s)") (simp_all add: drop_token del: dropWhile_eq_Nil_conv)

declare tokens.simps [simp del]

definition word :: "char set \<Rightarrow> string \<Rightarrow> bool" where
  "word D w \<longleftrightarrow> w \<noteq> [] \<and> (\<forall>c \<in> set w. c \<notin> D)"

lemma tokens_delims: "set s \<subseteq> D \<Longrightarrow> tokens D s = []"
proof -
  assume "set s \<subseteq> D"
  then have "dropWhile (\<lambda>c. c \<in> D) s = []" by auto
  then show ?thesis by (simp add: tokens.simps [of D s])
qed

lemma tokens_Nil [simp]: "tokens D [] = []"
  by (simp add: tokens_delims)

lemma tokens_skip: "c \<in> D \<Longrightarrow> tokens D (c # s) = tokens D s"
  by (simp add: tokens.simps [of D "c # s"] tokens.simps [of D s])

lemma tokens_word_end:
  assumes "word D w"
  shows "tokens D w = [w]"
proof -
  have "dropWhile (\<lambda>c. c \<in> D) w = w" using assms by (cases w) (auto simp: word_def)
  moreover have "takeWhile (\<lambda>c. c \<notin> D) w = w" "dropWhile (\<lambda>c. c \<notin> D) w = []"
    using assms by (auto simp: word_def takeWhile_eq_all_conv)
  ultimately show ?thesis using assms by (simp add: tokens.simps [of D w] word_def del: dropWhile_eq_Nil_conv)
qed

lemma tokens_word:
  assumes w: "word D w" and c: "c \<in> D"
  shows "tokens D (w @ c # s) = w # tokens D s"
proof -
  have "dropWhile (\<lambda>c. c \<in> D) (w @ c # s) = w @ c # s" using w by (cases w) (auto simp: word_def)
  moreover have "takeWhile (\<lambda>c. c \<notin> D) (w @ c # s) = w" "dropWhile (\<lambda>c. c \<notin> D) (w @ c # s) = c # s"
    using w c by (auto simp: word_def takeWhile_append dropWhile_append)
  ultimately show ?thesis
    using w c by (simp add: tokens.simps [of D "w @ c # s"] word_def tokens_skip)
qed

text \<open>The tokens of words joined by one delimiter are the words.\<close>

fun join :: "char \<Rightarrow> string list \<Rightarrow> string" where
  "join c [] = []"
| "join c [w] = w"
| "join c (w # ws) = w @ c # join c ws"

lemma tokens_join: "c \<in> D \<Longrightarrow> (\<And>w. w \<in> set ws \<Longrightarrow> word D w) \<Longrightarrow> tokens D (join c ws) = ws"
  by (induction c ws rule: join.induct) (auto simp: tokens_word tokens_word_end)

lemma tokens_are_words: "w \<in> set (tokens D s) \<Longrightarrow> word D w"
proof (induction D s rule: tokens.induct)
  case (1 D s)
  let ?t = "dropWhile (\<lambda>c. c \<in> D) s"
  show ?case
  proof (cases "?t = []")
    case False
    then have "hd ?t \<notin> D" using hd_dropWhile by blast
    with False have first: "word D (takeWhile (\<lambda>c. c \<notin> D) ?t)"
      by (cases ?t) (auto simp: word_def dest: set_takeWhileD)
    from "1.prems" False have "w = takeWhile (\<lambda>c. c \<notin> D) ?t \<or> w \<in> set (tokens D (dropWhile (\<lambda>c. c \<notin> D) ?t))"
      by (simp add: tokens.simps [of D s] Let_def del: dropWhile_eq_Nil_conv)
    with first "1.IH" [OF refl False] show ?thesis by blast
  qed (use "1.prems" in \<open>simp add: tokens.simps [of D s]\<close>)
qed

section \<open>\<open>strcpy\<close>\<close>

text \<open>To copy a string that does not fit with its zero is undefined.\<close>

definition strcpy :: "nat \<Rightarrow> string \<Rightarrow> string option" where
  "strcpy n s = (if length s < n then Some s else None)"

end
