(* ===== verification/CNumbers.thy ===== *)
theory CNumbers
  imports CStrings "HOL-Library.Word"
begin

text \<open>
  Decimal numbers in C strings: \<open>snprintf\<close> with \<open>%d\<close> and \<open>%lu\<close>, \<open>atoi\<close>, and their round trip. The
  thread library reads its arguments and the service manager its messages with them.
\<close>

definition digit :: "nat \<Rightarrow> char" where
  "digit d = char_of (48 + d)"

fun nat_str :: "nat \<Rightarrow> string" where
  "nat_str n = (if n < 10 then [digit n] else nat_str (n div 10) @ [digit (n mod 10)])"

declare nat_str.simps [simp del]

text \<open>\<open>snprintf(..., "%d", num)\<close> into a buffer of the right size.\<close>

definition intTostr :: "int \<Rightarrow> string" where
  "intTostr num = (if num < 0 then CHR ''-'' # nat_str (nat (- num)) else nat_str (nat num))"

definition is_digit :: "char \<Rightarrow> bool" where
  "is_digit c \<longleftrightarrow> 48 \<le> (of_char c :: nat) \<and> (of_char c :: nat) \<le> 57"

definition is_space :: "char \<Rightarrow> bool" where
  "is_space c \<longleftrightarrow> c = CHR '' '' \<or> 9 \<le> (of_char c :: nat) \<and> (of_char c :: nat) \<le> 13"

definition digits_val :: "string \<Rightarrow> nat" where
  "digits_val s = foldl (\<lambda>a c. 10 * a + (of_char c - 48)) 0 (takeWhile is_digit s)"

text \<open>\<open>atoi\<close>, on numbers in the range of an \<open>int\<close>.\<close>

definition atoi :: "string \<Rightarrow> int" where
  "atoi s = (case dropWhile is_space s of
     [] \<Rightarrow> 0
   | c # r \<Rightarrow> (if c = CHR ''-'' then - int (digits_val r)
              else if c = CHR ''+'' then int (digits_val r) else int (digits_val (c # r))))"

lemma of_char_digit: "d < 10 \<Longrightarrow> (of_char (digit d) :: nat) = 48 + d"
  by (simp add: digit_def)

lemma is_digit_digit: "d < 10 \<Longrightarrow> is_digit (digit d)"
  by (simp add: is_digit_def of_char_digit)

lemma nat_str_digits: "list_all is_digit (nat_str n)"
proof (induction n rule: nat_str.induct)
  case (1 n)
  then show ?case by (simp add: nat_str.simps [of n] is_digit_digit)
qed

lemma nat_str_not_Nil: "nat_str n \<noteq> []"
  by (simp add: nat_str.simps [of n])

lemma takeWhile_all: "list_all P xs \<Longrightarrow> takeWhile P xs = xs"
  by (induction xs) auto

lemma digits_val_nat_str: "digits_val (nat_str n) = n"
proof (induction n rule: nat_str.induct)
  case (1 n)
  have all: "takeWhile is_digit (nat_str m) = nat_str m" for m
    by (rule takeWhile_all [OF nat_str_digits])
  show ?case
  proof (cases "n < 10")
    case True
    then show ?thesis by (simp add: digits_val_def nat_str.simps [of n] is_digit_digit of_char_digit)
  next
    case False
    have "foldl (\<lambda>a c. 10 * a + (of_char c - 48)) 0 (nat_str (n div 10)) = n div 10"
      using 1 [OF False] by (simp add: digits_val_def all)
    then show ?thesis
      using False all [of n] by (simp add: digits_val_def nat_str.simps [of n] of_char_digit)
  qed
qed

lemma digit_facts: "is_digit c \<Longrightarrow> \<not> is_space c \<and> c \<noteq> CHR ''-'' \<and> c \<noteq> CHR ''+'' \<and> c \<noteq> CHR '' ''"
  by (auto simp: is_digit_def is_space_def)

lemma atoi_nat_str: "atoi (nat_str n) = int n"
proof -
  obtain c r where s: "nat_str n = c # r" using nat_str_not_Nil by (cases "nat_str n") auto
  then have "is_digit c" using nat_str_digits [of n] by simp
  then show ?thesis using digits_val_nat_str [of n] by (auto simp: atoi_def s dest: digit_facts)
qed

lemma atoi_intTostr [simp]: "atoi (intTostr n) = n"
proof (cases "n < 0")
  case True
  then show ?thesis by (simp add: intTostr_def atoi_def is_space_def digits_val_nat_str)
next
  case False
  then show ?thesis by (simp add: intTostr_def atoi_nat_str)
qed

lemma intTostr_word: "word {CHR '' ''} (intTostr n)"
proof -
  have "list_all (\<lambda>c. c \<noteq> CHR '' '') (nat_str m)" for m
    using nat_str_digits [of m] digit_facts by (auto simp: list_all_iff)
  then show ?thesis using nat_str_not_Nil by (auto simp: intTostr_def word_def list_all_iff)
qed

lemma intTostr_not_Nil: "intTostr n \<noteq> []"
  using intTostr_word by (auto simp: word_def)

text \<open>A number of at most ten digits and a sign fits every buffer.\<close>

lemma nat_str_length: "n < 10 ^ Suc k \<Longrightarrow> length (nat_str n) \<le> Suc k"
proof (induction k arbitrary: n)
  case (Suc k)
  then have "n div 10 < 10 ^ Suc k" by auto
  with Suc.IH show ?case by (simp add: nat_str.simps [of n])
qed (simp add: nat_str.simps)

lemma intTostr_length: "- (2 ^ 31) \<le> n \<Longrightarrow> n < 2 ^ 31 \<Longrightarrow> length (intTostr n) \<le> 11"
proof -
  assume "- (2 ^ 31) \<le> n" "n < 2 ^ 31"
  then have "nat n < 10 ^ Suc 9" "nat (- n) < 10 ^ Suc 9" by auto
  then have "length (nat_str (nat n)) \<le> 10" "length (nat_str (nat (- n))) \<le> 10"
    using nat_str_length by fastforce+
  then show ?thesis by (simp add: intTostr_def)
qed

end
