(* ===== verification/Ult_Args.thy ===== *)
theory Ult_Args
  imports Ult_Main CNumbers
begin

text \<open>
  The arguments of the thread library's \<open>main\<close>: it counts them, prints how it is called when there
  are not five, and otherwise reads five numbers and starts the threads.
\<close>

datatype main_call = Usage string | Started "outcome \<times> ult"

text \<open>\<open>atoi\<close> into an \<open>int\<close> of 32 bits; a number out of range is undefined behaviour.\<close>

definition atoi32 :: "string \<Rightarrow> i32 option" where
  "atoi32 s = (if - (2 ^ 31) \<le> atoi s \<and> atoi s < 2 ^ 31 then Some (word_of_int (atoi s)) else None)"

definition usage :: "string \<Rightarrow> string" where
  "usage prog = ''usage: '' @ prog @ '' [timeslice] [fib_arg] [fact_arg] [bank1_arg] [bank2_arg]''"

definition main_args :: "string list \<Rightarrow> main_call option" where
  "main_args argv = (if length argv \<noteq> 6 then do { prog \<leftarrow> arr_get argv 0; Some (Usage (usage prog)) }
     else do {
       a1 \<leftarrow> arr_get argv 1;
       timeslice \<leftarrow> atoi32 a1;
       a2 \<leftarrow> arr_get argv 2;
       fib_arg \<leftarrow> atoi32 a2;
       a3 \<leftarrow> arr_get argv 3;
       fact_arg \<leftarrow> atoi32 a3;
       a4 \<leftarrow> arr_get argv 4;
       bank1_arg \<leftarrow> atoi32 a4;
       a5 \<leftarrow> arr_get argv 5;
       bank2_arg \<leftarrow> atoi32 a5;
       c \<leftarrow> ult_main (sint timeslice) fib_arg fact_arg bank1_arg bank2_arg;
       Some (Started c) })"

lemma atoi32_intTostr [simp]: "atoi32 (intTostr (sint x)) = Some x"
  using sint_greater_eq [of x] sint_less [of x] by (simp add: atoi32_def)

lemma main_args_numbers:
  fixes ts f1 f2 b1 b2 :: i32
  shows "main_args [prog, intTostr (sint ts), intTostr (sint f1), intTostr (sint f2), intTostr (sint b1), intTostr (sint b2)] =
     map_option Started (ult_main (sint ts) f1 f2 b1 b2)"
  by (simp add: main_args_def arr_get_def numeral_eq_Suc map_conv_bind_option comp_def)

lemma main_args_usage: "length argv \<noteq> 6 \<Longrightarrow> argv \<noteq> [] \<Longrightarrow> main_args argv = Some (Usage (usage (hd argv)))"
  by (cases argv) (auto simp: main_args_def arr_get_def)

end
