(* ===== verification/Ult_Masks.thy ===== *)
theory Ult_Masks
  imports Ult_Main
begin

text \<open>
  The user-level threads with their signal masks: \<open>init_signal\<close>, the masks that \<open>sigsetjmp\<close> saves
  and \<open>siglongjmp\<close> restores, and the calls of \<open>sigprocmask\<close> in \<open>thread_yield\<close> and in the handler.
  Here a signal that is not blocked interrupts the program wherever it is. The theory shows that
  the masks put this where \<open>Ult_Threads\<close> has it, inside \<open>thread_yield\<close>: the two systems simulate
  each other.
\<close>

section \<open>Signal masks\<close>

text \<open>
  The mask of the process, the signals that \<open>sighandler\<close> is installed for, the mask in \<open>sched_buf\<close>
  and the one in the \<open>environment\<close> of each control block; \<open>None\<close> is a buffer never filled.
\<close>

record masks =
  blocked :: "signo set"
  handled :: "signo set"
  sched_mask :: "signo set option"
  env_mask :: "addr \<Rightarrow> signo set option"

definition base_mask :: "signo set" where "base_mask = {SIGTSTP, SIGALRM}"

definition tstp_mask :: "signo set" where "tstp_mask = {SIGTSTP}"

definition alrm_mask :: "signo set" where "alrm_mask = {SIGALRM}"

datatype how = SIG_BLOCK | SIG_UNBLOCK | SIG_SETMASK

fun sigprocmask :: "how \<Rightarrow> signo set \<Rightarrow> masks \<Rightarrow> masks" where
  "sigprocmask SIG_BLOCK k m = m\<lparr>blocked := blocked m \<union> k\<rparr>"
| "sigprocmask SIG_UNBLOCK k m = m\<lparr>blocked := blocked m - k\<rparr>"
| "sigprocmask SIG_SETMASK k m = m\<lparr>blocked := k\<rparr>"

text \<open>The process as it is started, and \<open>init_signal\<close>.\<close>

definition fresh_masks :: masks where
  "fresh_masks = \<lparr>blocked = {}, handled = {}, sched_mask = None, env_mask = (\<lambda>a. None)\<rparr>"

definition init_signal :: "masks \<Rightarrow> masks" where
  "init_signal m = (let m = m\<lparr>handled := insert SIGTSTP (handled m)\<rparr>;
     m = m\<lparr>handled := insert SIGALRM (handled m)\<rparr>
   in sigprocmask SIG_SETMASK base_mask m)"

section \<open>The scheduler and the jumps\<close>

text \<open>The scheduler behind its \<open>sigsetjmp\<close>: it ends with the jump into the running thread.\<close>

definition sched_run :: "nat \<Rightarrow> masks \<Rightarrow> ult \<Rightarrow> (outcome \<times> masks \<times> ult) option" where
  "sched_run see m s = do {
     (oc, s) \<leftarrow> scheduler see s;
     (case oc of Returned \<Rightarrow> Some (Returned, m, s)
      | Jumped \<Rightarrow> do {
          p \<leftarrow> RUNNING s;
          a \<leftarrow> p;
          k \<leftarrow> env_mask m a;
          Some (Jumped, m\<lparr>blocked := k\<rparr>, s) }) }"

text \<open>Called by \<open>main.c\<close>, it saves the mask; \<open>siglongjmp(sched_buf, see)\<close> restores it.\<close>

definition m_scheduler :: "masks \<Rightarrow> ult \<Rightarrow> (outcome \<times> masks \<times> ult) option" where
  "m_scheduler m s = sched_run 0 (m\<lparr>sched_mask := Some (blocked m)\<rparr>) s"

definition jump_sched :: "nat \<Rightarrow> masks \<Rightarrow> ult \<Rightarrow> (outcome \<times> masks \<times> ult) option" where
  "jump_sched see m s = do {
     k \<leftarrow> sched_mask m;
     sched_run see (m\<lparr>blocked := k\<rparr>) s }"

text \<open>\<open>sigsetjmp(RUNNING->environment, 1)\<close> when it returns 0.\<close>

definition save_env :: "jmp_point \<Rightarrow> masks \<Rightarrow> ult \<Rightarrow> (masks \<times> ult) option" where
  "save_env place m s = do {
     p \<leftarrow> RUNNING s;
     a \<leftarrow> p;
     s \<leftarrow> set_running (\<lambda>t. t\<lparr>environment := place\<rparr>) s;
     Some (m\<lparr>env_mask := (env_mask m)(a \<mapsto> blocked m)\<rparr>, s) }"

section \<open>The handler and the macros\<close>

definition m_sighandler :: "signo \<Rightarrow> masks \<Rightarrow> ult \<Rightarrow> (outcome \<times> masks \<times> ult) option" where
  "m_sighandler n m s =
     (if n = SIGTSTP
      then jump_sched 1 (sigprocmask SIG_BLOCK tstp_mask m) (putline (L_caught SIGTSTP) s)
      else jump_sched 1 (sigprocmask SIG_BLOCK alrm_mask m)
        ((putline (L_caught SIGALRM) s)\<lparr>alarm_set := (timeslice s \<noteq> 0)\<rparr>))"

text \<open>
  A signal is delivered: it is blocked while its handler runs. Without a handler it stops or ends
  the process, which has no value here.
\<close>

definition m_deliver :: "signo \<Rightarrow> masks \<Rightarrow> ult \<Rightarrow> (outcome \<times> masks \<times> ult) option" where
  "m_deliver n m s =
     (if n \<in> handled m
      then m_sighandler n (m\<lparr>blocked := insert n (blocked m)\<rparr>) (s\<lparr>pending := pending s - {n}\<rparr>)
      else None)"

text \<open>Behind a change of the mask a pending signal that is not blocked is delivered.\<close>

definition take_pending :: "masks \<Rightarrow> ult \<Rightarrow> (outcome \<times> masks \<times> ult) option" where
  "take_pending m s =
     (if SIGTSTP \<in> pending s - blocked m then m_deliver SIGTSTP m s
      else if SIGALRM \<in> pending s - blocked m then m_deliver SIGALRM m s
      else Some (Jumped, m, s))"

definition m_thread_setup ::
  "jmp_point \<Rightarrow> string \<Rightarrow> int \<Rightarrow> i32 \<Rightarrow> masks \<times> ult \<Rightarrow> (masks \<times> ult) option" where
  "m_thread_setup place func i arg = (\<lambda>(m, s). do {
     s' \<leftarrow> thread_setup place func i arg s;
     Some (m\<lparr>env_mask := (env_mask m)(length (tcbs s) \<mapsto> blocked m)\<rparr>, s') })"

definition m_thread_exit :: "masks \<Rightarrow> ult \<Rightarrow> (outcome \<times> masks \<times> ult) option" where
  "m_thread_exit m s = jump_sched 3 m s"

definition m_thread_yield :: "masks \<Rightarrow> jmp_point \<Rightarrow> ult \<Rightarrow> (outcome \<times> masks \<times> ult) option" where
  "m_thread_yield m place s = do {
     (m, s) \<leftarrow> save_env place m s;
     (if SIGALRM \<in> pending s \<and> SIGTSTP \<in> pending s
      then take_pending (sigprocmask SIG_UNBLOCK tstp_mask m) s
      else if SIGALRM \<in> pending s then take_pending (sigprocmask SIG_UNBLOCK alrm_mask m) s
      else if SIGTSTP \<in> pending s then take_pending (sigprocmask SIG_UNBLOCK tstp_mask m) s
      else take_pending (sigprocmask SIG_SETMASK base_mask m) s) }"

definition m_lock :: "masks \<Rightarrow> ult \<Rightarrow> (outcome \<times> masks \<times> ult) option" where
  "m_lock m s = do {
     (m, s) \<leftarrow> save_env Bank_lock m s;
     jump_sched 2 m s }"

text \<open>The code of the thread functions is the one of \<open>Ult_Threads\<close>, with these macros.\<close>

definition m_resume :: "masks \<Rightarrow> ult \<Rightarrow> (outcome \<times> masks \<times> ult) option" where
  "m_resume m = thread_code False (m_thread_exit m) (m_thread_yield m) (m_lock m)"

section \<open>\<open>main\<close> and the running program\<close>

definition m_init_threads ::
  "i32 \<Rightarrow> i32 \<Rightarrow> i32 \<Rightarrow> i32 \<Rightarrow> masks \<times> ult \<Rightarrow> (masks \<times> ult) option" where
  "m_init_threads fib_arg fact_arg bank1_arg bank2_arg c = do {
     c \<leftarrow> (if sint fib_arg > 0 then m_thread_setup Fib_setup ''fibonacci'' 0 fib_arg c else Some c);
     c \<leftarrow> (if sint fact_arg > 0 then m_thread_setup Fact_setup ''factorial'' 1 fact_arg c else Some c);
     c \<leftarrow> (if bank1_arg \<noteq> 0 then m_thread_setup Bank_setup ''bank_operation'' 2 bank1_arg c else Some c);
     (if bank2_arg \<noteq> 0 then m_thread_setup Bank_setup ''bank_operation'' 3 bank2_arg c else Some c) }"

definition m_start_threading :: "masks \<times> ult \<Rightarrow> (outcome \<times> masks \<times> ult) option" where
  "m_start_threading = (\<lambda>(m, s). m_scheduler m (s\<lparr>alarm_set := (timeslice s \<noteq> 0)\<rparr>))"

definition m_main :: "int \<Rightarrow> i32 \<Rightarrow> i32 \<Rightarrow> i32 \<Rightarrow> i32 \<Rightarrow> (outcome \<times> masks \<times> ult) option" where
  "m_main ts fib_arg fact_arg bank1_arg bank2_arg = do {
     s \<leftarrow> Some (globals\<lparr>timeslice := ts\<rparr>);
     m \<leftarrow> Some (init_signal fresh_masks);
     s \<leftarrow> Some (init_bank s);
     c \<leftarrow> m_init_threads fib_arg fact_arg bank1_arg bank2_arg (m, s);
     m_start_threading c }"

text \<open>
  A signal that is blocked becomes pending; one that is not interrupts the program at once.
\<close>

definition may_arrive :: "signo \<Rightarrow> ult \<Rightarrow> bool" where
  "may_arrive n s \<longleftrightarrow> n = SIGTSTP \<or> alarm_set s"

inductive m_step :: "outcome \<times> masks \<times> ult \<Rightarrow> outcome \<times> masks \<times> ult \<Rightarrow> bool" where
  m_run: "m_resume m s = Some c \<Longrightarrow> m_step (Jumped, m, s) c"
| m_pend: "\<lbrakk>may_arrive n s; n \<in> blocked m\<rbrakk> \<Longrightarrow> m_step (Jumped, m, s) (Jumped, m, arrive n s)"
| m_interrupt: "\<lbrakk>may_arrive n s; n \<notin> blocked m; m_deliver n m (arrive n s) = Some c\<rbrakk> \<Longrightarrow>
    m_step (Jumped, m, s) c"

inductive_cases m_step_JumpedE: "m_step (Jumped, m, s) c"

section \<open>Every saved mask is the base mask\<close>

definition saved_ok :: "masks \<Rightarrow> ult \<Rightarrow> bool" where
  "saved_ok m s \<longleftrightarrow> handled m = base_mask \<and> sched_mask m = Some base_mask \<and>
     (\<forall>a < length (tcbs s). env_mask m a = Some base_mask)"

fun same_run :: "outcome \<times> masks \<times> ult \<Rightarrow> outcome \<times> ult \<Rightarrow> bool" where
  "same_run (oc, m, s) c \<longleftrightarrow> c = (oc, s) \<and> blocked m = base_mask \<and> saved_ok m s"

lemma signals: "n \<in> base_mask"
  by (cases n) (auto simp: base_mask_def)

text \<open>The scheduler leaves the control blocks alone and jumps to one that exists.\<close>

lemma queue_ops_tcbs:
  "myclear i w s = Some s' \<Longrightarrow> tcbs s' = tcbs s"
  "fill_hole s = Some s' \<Longrightarrow> tcbs s' = tcbs s"
  "remove_current s = Some s' \<Longrightarrow> tcbs s' = tcbs s"
  "enqueue_waiting s = Some s' \<Longrightarrow> tcbs s' = tcbs s"
  "bring_waiting s = Some s' \<Longrightarrow> tcbs s' = tcbs s"
  "next_current s = Some s' \<Longrightarrow> tcbs s' = tcbs s"
proof -
  show clear: "myclear i w s = Some s' \<Longrightarrow> tcbs s' = tcbs s" for i w s s'
    by (auto simp: myclear_def bind_eq_Some_conv split: if_splits)
  show fill: "fill_hole s = Some s' \<Longrightarrow> tcbs s' = tcbs s" for s s'
    by (auto simp: fill_hole_def bind_eq_Some_conv dest!: clear)
  show "remove_current s = Some s' \<Longrightarrow> tcbs s' = tcbs s"
    by (auto simp: remove_current_def bind_eq_Some_conv split: if_splits dest!: clear fill)
  show "enqueue_waiting s = Some s' \<Longrightarrow> tcbs s' = tcbs s"
    by (auto simp: enqueue_waiting_def bind_eq_Some_conv)
  show "bring_waiting s = Some s' \<Longrightarrow> tcbs s' = tcbs s"
    by (auto simp: bring_waiting_def bind_eq_Some_conv dest!: clear)
  show "next_current s = Some s' \<Longrightarrow> tcbs s' = tcbs s"
    by (auto simp: next_current_def split: if_splits)
qed

lemma sched_branches_tcbs:
  "sched_lock_free see s = Some s' \<Longrightarrow> tcbs s' = tcbs s"
  "sched_lock_held see s = Some s' \<Longrightarrow> tcbs s' = tcbs s"
  "sched_none_waiting see s = Some s' \<Longrightarrow> tcbs s' = tcbs s"
  by (auto simp: sched_lock_free_def sched_lock_held_def sched_none_waiting_def bind_eq_Some_conv
      split: if_splits dest!: queue_ops_tcbs)

lemma scheduler_tcbs:
  assumes "scheduler see s = Some (oc, s')"
  shows "tcbs s' = tcbs s" and "oc = Jumped \<Longrightarrow> \<exists>a < length (tcbs s'). RUNNING s' = Some (Some a)"
  using assms
  by (auto simp: scheduler_def bind_eq_Some_conv deref_def split: if_splits option.splits
      dest!: sched_branches_tcbs)

section \<open>The two systems simulate each other\<close>

abbreviation same_result :: "(outcome \<times> masks \<times> ult) option \<Rightarrow> (outcome \<times> ult) option \<Rightarrow> bool" where
  "same_result \<equiv> rel_option same_run"

lemma saved_ok_frame [simp]:
  "saved_ok (m\<lparr>blocked := k\<rparr>) s \<longleftrightarrow> saved_ok m s"
  "saved_ok m (putline l s) \<longleftrightarrow> saved_ok m s"
  "saved_ok m (s\<lparr>pending := p\<rparr>) \<longleftrightarrow> saved_ok m s"
  "saved_ok m (s\<lparr>alarm_set := al\<rparr>) \<longleftrightarrow> saved_ok m s"
  "saved_ok m (s\<lparr>bank := b\<rparr>) \<longleftrightarrow> saved_ok m s"
  "saved_ok m (arrive n s) \<longleftrightarrow> saved_ok m s"
  "saved_ok (sigprocmask h k m) s \<longleftrightarrow> saved_ok m s"
  by (cases h; simp add: saved_ok_def putline_def)+

lemma saved_ok_running: "set_running f s = Some s' \<Longrightarrow> saved_ok m s' \<longleftrightarrow> saved_ok m s"
  by (auto simp: set_running_def saved_ok_def bind_eq_Some_conv)

lemma sched_run_same:
  assumes "blocked m = base_mask" and "saved_ok m s"
  shows "same_result (sched_run see m s) (scheduler see s)"
proof (cases "scheduler see s")
  case (Some c)
  then obtain oc s' where c: "scheduler see s = Some (oc, s')" by (cases c) auto
  note T = scheduler_tcbs [OF c]
  show ?thesis
  proof (cases oc)
    case Returned
    with c assms T show ?thesis by (simp add: sched_run_def saved_ok_def)
  next
    case Jumped
    with c assms T show ?thesis by (auto simp: sched_run_def saved_ok_def)
  qed
qed (simp add: sched_run_def)

lemma jump_sched_same: "saved_ok m s \<Longrightarrow> same_result (jump_sched see m s) (scheduler see s)"
  using sched_run_same [of "m\<lparr>blocked := base_mask\<rparr>" s see]
  by (simp add: jump_sched_def saved_ok_def)

lemma deliver_same: "saved_ok m s \<Longrightarrow> same_result (m_deliver n m s) (deliver n s)"
  using signals [of n]
  by (auto simp: m_deliver_def deliver_def m_sighandler_def sighandler_def saved_ok_def [of m]
      intro!: jump_sched_same)

lemma save_env_same:
  assumes "blocked m = base_mask" and "saved_ok m s"
  shows "rel_option (\<lambda>(m, s) s'. s' = s \<and> blocked m = base_mask \<and> saved_ok m s)
    (save_env place m s) (set_running (\<lambda>t. t\<lparr>environment := place\<rparr>) s)"
  using assms
  by (auto simp: save_env_def set_running_def saved_ok_def deref_def option_rel_Some2 split: bind_split)

text \<open>Each macro of the masked program does what its namesake does.\<close>

lemma thread_exit_same: "saved_ok m s \<Longrightarrow> same_result (m_thread_exit m s) (thread_exit s)"
  by (simp add: m_thread_exit_def thread_exit_def jump_sched_same)

lemma lock_same:
  assumes "blocked m = base_mask" and "saved_ok m s"
  shows "same_result (m_lock m s) (lock s)"
  unfolding m_lock_def lock_def
  by (rule rel_option_bind [OF save_env_same [OF assms]]) (auto intro: jump_sched_same)

lemma thread_yield_same:
  assumes "blocked m = base_mask" and "saved_ok m s"
  shows "same_result (m_thread_yield m place s) (thread_yield place s)"
  unfolding m_thread_yield_def thread_yield_def
  by (rule rel_option_bind [OF save_env_same [OF assms]])
    (auto simp: take_pending_def base_mask_def tstp_mask_def alrm_mask_def intro!: deliver_same)

text \<open>So do the thread functions, which the two programs share.\<close>

lemma unlock_saved: "unlock s = Some s' \<Longrightarrow> saved_ok m s' \<longleftrightarrow> saved_ok m s"
  by (auto simp: unlock_def bind_eq_Some_conv split: if_splits)

lemma fib_iter_same:
  assumes "blocked m = base_mask" and "saved_ok m s"
  shows "same_result (fib_iter strict (m_thread_exit m) (m_thread_yield m) s) (fib_iter strict thread_exit thread_yield s)"
  unfolding fib_iter_def
  by (intro rel_option_bind_same)
    (use assms in \<open>auto split: if_splits simp: saved_ok_running bind_eq_Some_conv intro!: thread_exit_same thread_yield_same\<close>)

lemma fact_iter_same:
  assumes "blocked m = base_mask" and "saved_ok m s"
  shows "same_result (fact_iter strict (m_thread_exit m) (m_thread_yield m) s) (fact_iter strict thread_exit thread_yield s)"
  unfolding fact_iter_def
  by (intro rel_option_bind_same)
    (use assms in \<open>auto split: if_splits simp: saved_ok_running intro!: thread_exit_same thread_yield_same\<close>)

lemma bank_steps_same:
  assumes "blocked m = base_mask" and "saved_ok m s"
  shows "same_result (bank_step1 (m_thread_yield m) s) (bank_step1 thread_yield s)"
    and "same_result (bank_step2 strict (m_thread_yield m) s) (bank_step2 strict thread_yield s)"
    and "same_result (bank_step3 (m_thread_exit m) s) (bank_step3 thread_exit s)"
  unfolding bank_step1_def bank_step2_def bank_step3_def
  by (intro rel_option_bind_same;
    use assms in \<open>auto split: if_splits simp: unlock_saved bind_eq_Some_conv intro!: thread_exit_same thread_yield_same\<close>)+

lemma resume_same:
  assumes "blocked m = base_mask" and "saved_ok m s"
  shows "same_result (m_resume m s) (resume s)"
  unfolding m_resume_def resume_def thread_code_def
  by (intro rel_option_bind_same)
    (use assms in \<open>auto split: jmp_point.split simp: saved_ok_running
      intro!: rel_option_bind_same fib_iter_same fact_iter_same bank_steps_same lock_same\<close>)

section \<open>The start and the reachable states\<close>

text \<open>While the threads are set up every control block gets the base mask.\<close>

definition setting_up :: "masks \<times> ult \<Rightarrow> ult \<Rightarrow> bool" where
  "setting_up c s' \<longleftrightarrow> snd c = s' \<and> blocked (fst c) = base_mask \<and> handled (fst c) = base_mask \<and>
     (\<forall>a < length (tcbs s'). env_mask (fst c) a = Some base_mask)"

lemma thread_setup_same:
  assumes "setting_up c s"
  shows "rel_option setting_up
     (if P then m_thread_setup place func i arg c else Some c)
     (if P then thread_setup place func i arg s else Some s)"
  using assms
  by (cases c) (auto simp: m_thread_setup_def setting_up_def thread_setup_def putline_def less_Suc_eq split: bind_split)

lemma init_threads_same:
  assumes "setting_up c s"
  shows "rel_option setting_up (m_init_threads f1 f2 b1 b2 c) (init_threads f1 f2 b1 b2 s)"
  unfolding m_init_threads_def init_threads_def
  by (intro rel_option_bind [of setting_up] thread_setup_same assms)

lemma start_same:
  assumes "setting_up c s"
  shows "same_result (m_start_threading c) (start_threading s)"
  using assms
  by (cases c) (auto simp: m_start_threading_def m_scheduler_def start_threading_def setting_up_def
      saved_ok_def intro!: sched_run_same)

lemma main_same: "same_result (m_main ts f1 f2 b1 b2) (ult_main ts f1 f2 b1 b2)"
proof -
  have "setting_up (init_signal fresh_masks, init_bank (globals\<lparr>timeslice := ts\<rparr>))
      (init_bank (globals\<lparr>timeslice := ts\<rparr>))"
    by (auto simp: setting_up_def init_signal_def fresh_masks_def init_bank_def globals_def base_mask_def)
  then show ?thesis
    unfolding m_main_def ult_main_def Option.bind.simps
    by (intro rel_option_bind [of setting_up] init_threads_same start_same)
qed

lemma step_forward: "\<lbrakk>same_run c d; m_step c c'\<rbrakk> \<Longrightarrow> \<exists>d'. ult_step d d' \<and> same_run c' d'"
proof (erule m_step.cases)
  fix m s e
  assume c: "same_run c d" "c = (Jumped, m, s)" "c' = e" "m_resume m s = Some e"
  with resume_same [of m s] have "same_result (Some e) (resume s)" by simp
  then obtain d' where "resume s = Some d'" "same_run e d'" by (auto simp: option_rel_Some1)
  moreover have "d = (Jumped, s)" using c by simp
  ultimately show ?thesis using c(3) ult_step.run by blast
next
  fix n m s
  assume "same_run c d" "c = (Jumped, m, s)" "c' = (Jumped, m, arrive n s)" "may_arrive n s"
  then show ?thesis by (cases n) (auto simp: may_arrive_def intro: ult_step.tstp ult_step.alrm)
next
  fix n m s e
  assume "same_run c d" "c = (Jumped, m, s)" "n \<notin> blocked m"
  with signals [of n] show ?thesis by simp
qed

lemma step_backward: "\<lbrakk>same_run c d; ult_step d d'\<rbrakk> \<Longrightarrow> \<exists>c'. m_step c c' \<and> same_run c' d'"
proof (erule ult_step.cases)
  fix s e
  assume d: "same_run c d" "d = (Jumped, s)" "d' = e" "resume s = Some e"
  then obtain m where c: "c = (Jumped, m, s)" "blocked m = base_mask" "saved_ok m s" by (cases c) auto
  with resume_same [of m s] d obtain e' where "m_resume m s = Some e'" "same_run e' e"
    by (auto simp: option_rel_Some2)
  with c(1) d(3) show ?thesis using m_run by blast
next
  fix s
  assume "same_run c d" "d = (Jumped, s)" "d' = (Jumped, arrive SIGTSTP s)"
  then show ?thesis
    using m_pend [of SIGTSTP s] signals [of SIGTSTP] by (cases c) (fastforce simp: may_arrive_def)
next
  fix s
  assume "same_run c d" "d = (Jumped, s)" "d' = (Jumped, arrive SIGALRM s)" "alarm_set s"
  then show ?thesis
    using m_pend [of SIGALRM s] signals [of SIGALRM] by (cases c) (fastforce simp: may_arrive_def)
qed

interpretation mask: bisimulation m_step ult_step same_run
  by unfold_locales (blast intro: step_forward step_backward)+

lemma masked_states:
  assumes "same_run c d"
  shows "{(oc, blocked m, s) | oc m s. reach m_step c (oc, m, s)} =
    {(oc, base_mask, s) | oc s. reach ult_step d (oc, s)}" (is "?L = ?R")
proof
  show "?L \<subseteq> ?R"
    using mask.reach_forward [OF _ assms] by fastforce
  show "?R \<subseteq> ?L"
  proof safe
    fix oc s
    assume "reach ult_step d (oc, s)"
    from mask.reach_backward [OF this assms] obtain c' where
      "reach m_step c c'" "same_run c' (oc, s)" by blast
    then show "\<exists>oc' m s'. (oc, base_mask, s) = (oc', blocked m, s') \<and> reach m_step c (oc', m, s')"
      by (cases c') auto
  qed
qed

end
