(* ===== verification/Ult_Range.thy ===== *)
theory Ult_Range
  imports Ult_Main
begin

text \<open>
  The range of the 32-bit arithmetic of the threads: the Fibonacci numbers and factorials that fit, the
  balance between 0 and what the two deposits allow, and the programs in which no operation overflows.
\<close>

section \<open>Ranges of the 32-bit arithmetic\<close>

lemma sint_of_nat_small:
  assumes "n < 2 ^ 31"
  shows "sint (of_nat n :: i32) = int n"
proof -
  have "sint (word_of_int (int n) :: i32) = int n"
    unfolding sint_sbintrunc' using assms by (simp add: signed_take_bit_int_eq_self)
  then show ?thesis by simp
qed

lemma fib_add: "fib (Suc (m + n)) = fib (Suc m) * fib (Suc n) + fib m * fib n"
  by (induction m rule: fib.induct) (simp_all add: algebra_simps)

lemma fib_46: "fib 46 = 1836311903"
proof -
  have small: "fib 10 = 55" "fib 11 = 89" "fib 12 = 144" "fib 13 = 233" by code_simp+
  have mid: "fib 22 = 17711" "fib 23 = 28657" "fib 24 = 46368"
    using fib_add [of 10 11] fib_add [of 11 11] fib_add [of 11 12] small
    by (simp_all only: Suc_numeral add_num_simps numeral_plus_numeral semiring_norm)
  show ?thesis
    using fib_add [of 22 23] mid by (simp only: Suc_numeral add_num_simps numeral_plus_numeral semiring_norm)
qed

lemma fib_mono: "m \<le> n \<Longrightarrow> fib m \<le> fib n"
proof (rule lift_Suc_mono_le [of fib])
  show "fib n \<le> fib (Suc n)" for n by (induction n rule: fib.induct) auto
qed

lemma fib_range: "k \<le> 46 \<Longrightarrow> fib k < 2 ^ 31"
proof -
  assume "k \<le> 46"
  then have "fib k \<le> fib 46" by (rule fib_mono)
  also have "\<dots> < 2 ^ 31" by (simp only: fib_46) simp
  finally show ?thesis .
qed

lemma fact_range: "k \<le> 12 \<Longrightarrow> (fact k :: nat) < 2 ^ 31"
proof -
  assume "k \<le> 12"
  then have "(fact k :: nat) \<le> fact 12" by (rule fact_mono)
  also have "(fact 12 :: nat) < 2 ^ 31" by (simp add: fact_numeral)
  finally show ?thesis .
qed

fun line_value :: "line \<Rightarrow> int" where
  "line_value (L_num i v) = sint v"
| "line_value _ = 0"

lemma numbers_values:
  "(\<And>j. j \<le> k \<Longrightarrow> f j < 2 ^ 31) \<Longrightarrow> map line_value (numbers f i k) = map (\<lambda>j. int (f j)) [1..<Suc k]"
  by (auto simp: numbers_def sint_of_nat_small less_Suc_eq_le)

text \<open>The lines of a thread at any time.\<close>

lemma inv_prefix:
  assumes "ult_inv args sg n (oc, s)" and "(i, k, arg) \<in> set sg"
  shows "\<exists>t m. t_id t = i \<and> thread_class (environment t) = k \<and> t_arg t = arg \<and> m \<le> total t \<and>
     shape t m (lines_of i (out s))"
proof -
  have "(i, k, arg) \<in> set (map identity (tcbs s))"
    using assms by (simp add: ult_inv_def)
  then obtain t where t: "t \<in> set (tcbs s)" "identity t = (i, k, arg)"
    by auto
  then obtain a where a: "a < length (tcbs s)" "t = tcbs s ! a"
    by (auto simp: in_set_conv_nth)
  obtain q where "data_ok args s q"
    using assms(1) by (auto simp: ult_inv_def)
  with a have "thread_data (a \<in> threads q) (lines_of (t_id t) (out s)) t"
    by (auto simp: data_ok_def ident_of_def)
  then have "\<exists>m \<le> total t. shape t m (lines_of (t_id t) (out s))"
    unfolding thread_data_def by (metis less_or_eq_imp_le order_refl)
  moreover have "t_id t = i" "thread_class (environment t) = k" "t_arg t = arg"
    using t(2) by (simp_all add: identity_def)
  ultimately show ?thesis by blast
qed

section \<open>The balance stays in range\<close>

lemma sint_i32_bounds: "- (2 ^ 31) \<le> sint (w :: i32)" "sint (w :: i32) < 2 ^ 31"
  using sint_ge [of w] sint_lt [of w] by simp_all

lemma sint_add_exact:
  fixes a b :: i32
  assumes "- (2 ^ 31) \<le> sint a + sint b" and "sint a + sint b < 2 ^ 31"
  shows "sint (a + b) = sint a + sint b"
  using assms by (simp add: sint_word_ariths signed_take_bit_int_eq_self)

lemma sint_diff_exact:
  fixes a b :: i32
  assumes "- (2 ^ 31) \<le> sint a - sint b" and "sint a - sint b < 2 ^ 31"
  shows "sint (a - b) = sint a - sint b"
  using assms by (simp add: sint_word_ariths signed_take_bit_int_eq_self)

lemma sint_mult_exact:
  fixes a b :: i32
  assumes "- (2 ^ 31) \<le> sint a * sint b" and "sint a * sint b < 2 ^ 31"
  shows "sint (a * b) = sint a * sint b"
  using assms by (simp add: sint_word_ariths signed_take_bit_int_eq_self)

lemma sint_c_abs: "- (2 ^ 31) < sint w \<Longrightarrow> sint (c_abs w) = \<bar>sint w\<bar>"
  using sint_diff_exact [of 0 w] sint_i32_bounds [of w] by (simp add: c_abs_def)

lemma bank_apply_range:
  assumes "0 \<le> sint b" and "sint b + max 0 (sint arg) < 2 ^ 31" and "- (2 ^ 31) < sint arg"
  shows "0 \<le> sint (bank_apply arg b)" and "sint (bank_apply arg b) \<le> sint b + max 0 (sint arg)"
proof -
  have "0 \<le> sint (bank_apply arg b) \<and> sint (bank_apply arg b) \<le> sint b + max 0 (sint arg)"
  proof (cases "sint arg > 0")
    case True
    then have "sint (b + arg) = sint b + sint arg" using assms by (intro sint_add_exact) auto
    with True assms show ?thesis by (simp add: bank_apply_def)
  next
    case False
    note A = sint_c_abs [OF assms(3)]
    show ?thesis
    proof (cases "sint (c_abs arg) \<le> sint b")
      case True
      then have "sint (b - c_abs arg) = sint b - sint (c_abs arg)"
        using A assms(1) sint_i32_bounds [of b] by (intro sint_diff_exact) auto
      with True False A assms show ?thesis by (simp add: bank_apply_def)
    qed (use False assms in \<open>simp add: bank_apply_def\<close>)
  qed
  then show "0 \<le> sint (bank_apply arg b)" "sint (bank_apply arg b) \<le> sint b + max 0 (sint arg)"
    by simp_all
qed

fun is_bank :: "line \<Rightarrow> bool" where
  "is_bank (L_bank i b b') = True"
| "is_bank _ = False"

text \<open>What the balance lines in the output have deposited.\<close>

fun deposit :: "(int \<Rightarrow> i32) \<Rightarrow> line \<Rightarrow> int" where
  "deposit args (L_bank i b b') = max 0 (sint (args i))"
| "deposit args _ = 0"

definition deposits :: "(int \<Rightarrow> i32) \<Rightarrow> line list \<Rightarrow> int" where
  "deposits args ls = sum_list (map (deposit args) ls)"

lemma deposit_nonneg [simp]: "0 \<le> deposit args l"
  by (cases l) auto

lemma deposits_simps [simp]:
  "deposits args [] = 0" "deposits args (l # ls) = deposit args l + deposits args ls"
  by (simp_all add: deposits_def)

lemma deposits_nonneg [simp]: "0 \<le> deposits args ls"
  by (induction ls) auto

lemma replay_range:
  assumes "replay args b ls = Some b'" and "0 \<le> sint b" and "sint b + deposits args ls < 2 ^ 31"
    and "\<And>l i. l \<in> set ls \<Longrightarrow> is_bank l \<Longrightarrow> line_of l = Some i \<Longrightarrow> - (2 ^ 31) < sint (args i)"
  shows "0 \<le> sint b' \<and> sint b' \<le> sint b + deposits args ls"
  using assms
proof (induction args b ls rule: replay.induct)
  case (2 args b i old new ls)
  have new: "new = bank_apply (args i) b" "replay args new ls = Some b'"
    using "2.prems"(1) by (auto split: if_splits)
  have m: "- (2 ^ 31) < sint (args i)" by (rule "2.prems"(4) [of "L_bank i old new"]) simp_all
  have s: "sint b + max 0 (sint (args i)) + deposits args ls < 2 ^ 31" using "2.prems"(3) by simp
  have s1: "sint b + max 0 (sint (args i)) < 2 ^ 31" using s deposits_nonneg [of args ls] by linarith
  note B = bank_apply_range [OF "2.prems"(2) s1 m, folded new(1)]
  have s2: "sint new + deposits args ls < 2 ^ 31" using B(2) s by linarith
  have c: "old = b \<and> new = bank_apply (args i) b" using "2.prems"(1) by (auto split: if_splits)
  have "0 \<le> sint b' \<and> sint b' \<le> sint new + deposits args ls"
    using "2.IH" [OF c new(2) B(1) s2] "2.prems"(4) by (meson list.set_intros(2))
  with B show ?case by simp
qed auto

text \<open>At most one balance line of each bank thread, none of another thread.\<close>

lemma shape_bank_lines:
  "shape t m ls \<Longrightarrow> length (filter is_bank ls) \<le> (if thread_class (environment t) = 2 then 1 else 0)"
  by (cases "environment t"; cases m rule: nat.exhaust)
    (auto simp: shape_def numbers_def filter_empty_conv take_Cons' split: if_splits)

lemma deposits_two_ids:
  "(\<And>l. l \<in> set ls \<Longrightarrow> is_bank l \<Longrightarrow> line_of l = Some 2 \<or> line_of l = Some 3) \<Longrightarrow>
     deposits args ls = deposits args (lines_of 2 ls) + deposits args (lines_of 3 ls)"
proof (induction ls)
  case (Cons l ls)
  then have "deposits args ls = deposits args (lines_of 2 ls) + deposits args (lines_of 3 ls)" by simp
  with Cons.prems [of l] show ?case by (cases l) (auto simp: lines_of_def)
qed (simp add: lines_of_def)

lemma deposits_lines_of:
  "deposits args (lines_of i ls) = int (length (filter is_bank (lines_of i ls))) * max 0 (sint (args i))"
proof (induction ls)
  case (Cons l ls)
  then show ?case by (cases l) (auto simp: lines_of_def algebra_simps)
qed (simp add: lines_of_def)

lemma inv_bank_lines:
  assumes inv: "main_inv f1 f2 b1 b2 n (oc, s)"
  shows "length (filter is_bank (lines_of i (out s))) \<le> 1"
    and "\<lbrakk>l \<in> set (out s); is_bank l\<rbrakk> \<Longrightarrow> line_of l = Some 2 \<or> line_of l = Some 3"
proof -
  have mem: "i \<in> {0, 1, 2, 3} \<and> k = min 2 (nat i)" if "(i, k, arg) \<in> set (identities f1 f2 b1 b2)" for i k arg
    using that by (auto simp: identities_def created_def new_tcb_def identity_def split: if_splits)
  have some: "\<exists>k arg. (i, k, arg) \<in> set (identities f1 f2 b1 b2)"
    if "l \<in> set (out s)" "line_of l = Some i" for l i
  proof -
    from inv that have "i \<in> t_id ` set (tcbs s)" "map identity (tcbs s) = identities f1 f2 b1 b2"
      by (auto simp: ult_inv_def data_ok_def)
    then show ?thesis by (metis (no_types, lifting) identity_def image_iff list.set_map)
  qed
  have one: "length (filter is_bank (lines_of i (out s))) \<le> (if i = 2 \<or> i = 3 then 1 else 0)"
    if "(i, k, arg) \<in> set (identities f1 f2 b1 b2)" for i k arg
  proof -
    from inv_prefix [OF inv that] obtain t m where
      "thread_class (environment t) = k" "shape t m (lines_of i (out s))" by blast
    with shape_bank_lines mem [OF that] show ?thesis by fastforce
  qed
  show "length (filter is_bank (lines_of i (out s))) \<le> 1"
  proof (cases "\<exists>k arg. (i, k, arg) \<in> set (identities f1 f2 b1 b2)")
    case True
    then obtain k arg where "(i, k, arg) \<in> set (identities f1 f2 b1 b2)" by blast
    from one [OF this] show ?thesis by (rule order_trans) simp
  next
    case False
    with some have "filter is_bank (lines_of i (out s)) = []"
      by (auto simp: lines_of_def filter_empty_conv)
    then show ?thesis by simp
  qed
  show "line_of l = Some 2 \<or> line_of l = Some 3" if l: "l \<in> set (out s)" "is_bank l" for l
  proof -
    obtain i where i: "line_of l = Some i" using l(2) by (cases l) auto
    then have "l \<in> set (filter is_bank (lines_of i (out s)))" using l by (simp add: lines_of_def)
    then have pos: "length (filter is_bank (lines_of i (out s))) \<noteq> 0" by (metis length_0_conv list.set(1) empty_iff)
    from some [OF l(1) i] obtain k arg where "(i, k, arg) \<in> set (identities f1 f2 b1 b2)" by blast
    from one [OF this] pos have "i = 2 \<or> i = 3" by (auto split: if_splits)
    with i show ?thesis by blast
  qed
qed

lemma inv_deposits:
  assumes inv: "main_inv f1 f2 b1 b2 n (oc, s)"
  shows "deposits (ult_args f1 f2 b1 b2) (out s) =
      deposits (ult_args f1 f2 b1 b2) (lines_of 2 (out s)) + deposits (ult_args f1 f2 b1 b2) (lines_of 3 (out s))"
    and "deposits (ult_args f1 f2 b1 b2) (lines_of 2 (out s)) \<le> max 0 (sint b1)"
    and "deposits (ult_args f1 f2 b1 b2) (lines_of 3 (out s)) \<le> max 0 (sint b2)"
proof -
  note B = inv_bank_lines [OF inv]
  show "deposits (ult_args f1 f2 b1 b2) (out s) =
      deposits (ult_args f1 f2 b1 b2) (lines_of 2 (out s)) + deposits (ult_args f1 f2 b1 b2) (lines_of 3 (out s))"
    by (rule deposits_two_ids) (rule B(2))
  have le: "deposits args (lines_of i (out s)) \<le> max 0 (sint (args i))" for args i
    using mult_right_mono [of "int (length (filter is_bank (lines_of i (out s))))" 1 "max 0 (sint (args i))"]
      B(1) [of i] by (simp add: deposits_lines_of)
  show "deposits (ult_args f1 f2 b1 b2) (lines_of 2 (out s)) \<le> max 0 (sint b1)"
    "deposits (ult_args f1 f2 b1 b2) (lines_of 3 (out s)) \<le> max 0 (sint b2)"
    using le [of "ult_args f1 f2 b1 b2" 2] le [of "ult_args f1 f2 b1 b2" 3] by (simp_all add: ult_args_def)
qed

text \<open>The arguments of the two bank threads for which no operation on the balance overflows.\<close>

definition bank_fits :: "i32 \<Rightarrow> i32 \<Rightarrow> bool" where
  "bank_fits b1 b2 \<longleftrightarrow> - (2 ^ 31) < sint b1 \<and> - (2 ^ 31) < sint b2 \<and>
     500 + max 0 (sint b1) + max 0 (sint b2) < 2 ^ 31"

lemma inv_balance:
  assumes inv: "main_inv f1 f2 b1 b2 n (oc, s)" and fit: "bank_fits b1 b2"
  shows "0 \<le> sint (balance (bank s))"
    and "sint (balance (bank s)) \<le> 500 + deposits (ult_args f1 f2 b1 b2) (out s)"
proof -
  let ?d = "deposits (ult_args f1 f2 b1 b2) (out s)"
  have d: "sint (500 :: i32) + ?d < 2 ^ 31"
    using inv_deposits [OF inv] fit unfolding bank_fits_def by simp
  have m: "- (2 ^ 31) < sint (ult_args f1 f2 b1 b2 i)"
    if "l \<in> set (out s)" "is_bank l" "line_of l = Some i" for l i
    using inv_bank_lines(2) [OF inv that(1,2)] that(3) fit by (auto simp: ult_args_def bank_fits_def)
  have "0 \<le> sint (balance (bank s)) \<and> sint (balance (bank s)) \<le> sint (500 :: i32) + ?d"
    by (rule replay_range [OF inv_traces(2) [OF inv] _ d m]) simp_all
  then show "0 \<le> sint (balance (bank s))" "sint (balance (bank s)) \<le> 500 + ?d" by simp_all
qed

section \<open>Programs without overflow\<close>

lemma inv_running:
  assumes "ult_inv args sg n (Jumped, s)"
  shows "\<exists>a. RUNNING s = Some (Some a) \<and> a < length (tcbs s) \<and> identity (tcbs s ! a) \<in> set sg \<and>
     thread_data True (lines_of (t_id (tcbs s ! a)) (out s)) (tcbs s ! a)"
proof -
  obtain q where q: "sys_ok s q" "data_ok args s q" "cur q < length (ready q)" "map identity (tcbs s) = sg"
    using assms by (auto simp: ult_inv_def)
  note R = running_thread [OF q(1,3)]
  have "thread_data True (lines_of (ident_of s (ready q ! cur q)) (out s)) (tcbs s ! (ready q ! cur q))"
    using q(2) R(1,3) by (auto simp: data_ok_def)
  moreover have "identity (tcbs s ! (ready q ! cur q)) \<in> set sg"
    using q(4) R(1) by (metis imageI list.set_map nth_mem)
  ultimately show ?thesis using R(1,2) by (auto simp: ident_of_def)
qed

lemma identities_cases:
  assumes "(i, k, arg) \<in> set (identities f1 f2 b1 b2)"
  shows "k = 0 \<Longrightarrow> arg = f1" and "k = 1 \<Longrightarrow> arg = f2"
    and "k = 2 \<Longrightarrow> i = 2 \<and> arg = b1 \<or> i = 3 \<and> arg = b2"
  using assms by (auto simp: identities_def created_def new_tcb_def identity_def split: if_splits)

text \<open>One step of each loop: the operations on \<open>int\<close>s are exact.\<close>

lemma fib_step_exact:
  assumes run: "RUNNING s = Some (Some a)" "a < length (tcbs s)" and e: "environment (tcbs s ! a) = Fib_yield"
    and regs: "regs_ok (tcbs s ! a)" and i: "sint (t_i (tcbs s ! a)) < 46"
  shows "strict_resume s = resume s"
proof -
  define t where "t = tcbs s ! a"
  have r: "1 \<le> sint (t_i t)" "t_y t = of_nat (fib (nat (sint (t_i t))))"
    "2 \<le> sint (t_i t) \<Longrightarrow> t_x t = of_nat (fib (nat (sint (t_i t)) - 1))"
    using regs e by (auto simp: regs_ok_def t_def)
  have add: "sint (t_i t + 1) = sint (t_i t) + 1"
    using i r(1) unfolding t_def by (intro trans [OF sint_add_exact]) simp_all
  have xy: "sint (t_x t + t_y t) = sint (t_x t) + sint (t_y t)" if two: "2 < sint (t_i t + 1)"
  proof -
    define m where "m = nat (sint (t_i t)) - 1"
    have m: "nat (sint (t_i t)) = Suc m" "2 \<le> sint (t_i t)" "Suc (Suc m) \<le> 46"
      using two add r(1) i unfolding m_def t_def by linarith+
    have f: "fib m < 2 ^ 31" "fib (Suc m) < 2 ^ 31" "fib (Suc (Suc m)) < 2 ^ 31"
      using m(3) by (intro fib_range; simp)+
    have "t_y t = of_nat (fib (Suc m))" "t_x t = of_nat (fib m)" using r(2) r(3) m by simp_all
    then have s: "sint (t_x t) = int (fib m)" "sint (t_y t) = int (fib (Suc m))"
      using f by (simp_all only: sint_of_nat_small)
    have "int (fib m) + int (fib (Suc m)) < 2 ^ 31" using f(3) by simp
    with s show ?thesis by (intro sint_add_exact) simp_all
  qed
  have "int_add True (t_i t) 1 = Some (t_i t + 1)" using add by (simp add: int_add_def)
  moreover have "int_add True (t_x t) (t_y t) = Some (t_x t + t_y t)" if "2 < sint (t_i t + 1)"
    using xy [OF that] by (simp add: int_add_def)
  ultimately show ?thesis
    using run e by (simp add: strict_resume_def resume_def thread_code_def fib_iter_def t_def)
qed

lemma fact_step_exact:
  assumes run: "RUNNING s = Some (Some a)" "a < length (tcbs s)" and e: "environment (tcbs s ! a) = Fact_yield"
    and regs: "regs_ok (tcbs s ! a)" and i: "sint (t_i2 (tcbs s ! a)) < 12"
  shows "strict_resume s = resume s"
proof -
  define t where "t = tcbs s ! a"
  have r: "1 \<le> sint (t_i2 t)" "t_z t = of_nat (fact (nat (sint (t_i2 t))))"
    using regs e by (auto simp: regs_ok_def t_def)
  have add: "sint (t_i2 t + 1) = sint (t_i2 t) + 1"
    using i r(1) unfolding t_def by (intro trans [OF sint_add_exact]) simp_all
  define m where "m = nat (sint (t_i2 t))"
  have m: "sint (t_i2 t + 1) = int (Suc m)" "Suc m \<le> 12"
    using add r(1) i unfolding m_def t_def by linarith+
  have f: "(fact m :: nat) < 2 ^ 31" "(fact (Suc m) :: nat) < 2 ^ 31"
    using m(2) by (intro fact_range; simp)+
  have z: "sint (t_z t) = int (fact m)" using r(2) f(1) by (simp only: m_def [symmetric] sint_of_nat_small)
  have p: "sint (t_z t) * sint (t_i2 t + 1) = int (fact (Suc m))"
    unfolding z m(1) by (simp only: fact_Suc of_nat_mult mult.commute of_nat_id)
  have "- (2 ^ 31) \<le> int n \<and> int n < 2 ^ 31" if "n < 2 ^ 31" for n :: nat
    using that by simp
  from this [OF f(2)] have "sint (t_z t * (t_i2 t + 1)) = sint (t_z t) * sint (t_i2 t + 1)"
    unfolding p [symmetric] by (blast intro: sint_mult_exact)
  then have "int_mul True (t_z t) (t_i2 t + 1) = Some (t_z t * (t_i2 t + 1))"
    by (simp add: int_mul_def)
  moreover have "int_add True (t_i2 t) 1 = Some (t_i2 t + 1)" using add by (simp add: int_add_def)
  ultimately show ?thesis
    using run e by (simp add: strict_resume_def resume_def thread_code_def fact_iter_def t_def)
qed

lemma bank_step_exact:
  assumes run: "RUNNING s = Some (Some a)" "a < length (tcbs s)" and e: "environment (tcbs s ! a) = Bank_yield1"
    and b: "0 \<le> sint (balance (bank s))"
      "sint (balance (bank s)) + max 0 (sint (t_arg (tcbs s ! a))) < 2 ^ 31"
    and m: "- (2 ^ 31) < sint (t_arg (tcbs s ! a))"
  shows "strict_resume s = resume s"
proof -
  define arg where "arg = t_arg (tcbs s ! a)"
  have "int_add True (balance (bank s)) arg = Some (balance (bank s) + arg)" if "0 < sint arg"
    using b that unfolding arg_def by (simp add: int_add_def sint_add_exact)
  moreover have "int_abs True arg = Some (c_abs arg)"
    using sint_c_abs [OF m] by (simp add: int_abs_def arg_def)
  moreover have "int_sub True (balance (bank s)) (c_abs arg) = Some (balance (bank s) - c_abs arg)"
    if "sint (c_abs arg) \<le> sint (balance (bank s))"
    using that b(1) sint_c_abs [OF m] sint_i32_bounds [of "balance (bank s)"]
    by (simp add: int_sub_def sint_diff_exact arg_def)
  ultimately show ?thesis
    using run e by (simp add: strict_resume_def resume_def thread_code_def bank_step2_def arg_def)
qed

lemma strict_resume_exact:
  assumes inv: "main_inv f1 f2 b1 b2 n (Jumped, s)"
    and fits: "sint f1 \<le> 46" "sint f2 \<le> 12" "bank_fits b1 b2"
  shows "strict_resume s = resume s"
proof -
  obtain a where run: "RUNNING s = Some (Some a)" "a < length (tcbs s)"
    and id: "identity (tcbs s ! a) \<in> set (identities f1 f2 b1 b2)"
    and data: "thread_data True (lines_of (t_id (tcbs s ! a)) (out s)) (tcbs s ! a)"
    using inv_running [OF inv] by blast
  let ?t = "tcbs s ! a"
  note I = identities_cases [OF id [unfolded identity_def]] and D = data [unfolded thread_data_live]
  show ?thesis
  proof (cases "environment ?t")
    case Fib_yield
    then have "sint (t_i ?t) < 46" using I(1) D fits(1) by (auto simp: regs_ok_def)
    with Fib_yield D show ?thesis by (intro fib_step_exact [OF run]) simp_all
  next
    case Fact_yield
    then have "sint (t_i2 ?t) < 12" using I(2) D fits(2) by (auto simp: regs_ok_def)
    with Fact_yield D show ?thesis by (intro fact_step_exact [OF run]) simp_all
  next
    case Bank_yield1
    note bal = inv_balance [OF inv fits(3)]
    have none: "deposits (ult_args f1 f2 b1 b2) (lines_of (t_id ?t) (out s)) = 0"
      using D Bank_yield1 by (auto simp: shape_def)
    have "deposits (ult_args f1 f2 b1 b2) (out s) + max 0 (sint (t_arg ?t)) \<le> max 0 (sint b1) + max 0 (sint b2)"
      using I(3) Bank_yield1 none inv_deposits [OF inv] by auto
    then have "sint (balance (bank s)) + max 0 (sint (t_arg ?t)) < 2 ^ 31" "- (2 ^ 31) < sint (t_arg ?t)"
      using bal(2) fits(3) I(3) Bank_yield1 by (auto simp: bank_fits_def)
    with bank_step_exact [OF run Bank_yield1 bal(1)] show ?thesis by blast
  qed (use run in \<open>simp_all add: strict_resume_def resume_def thread_code_def fib_iter_def fact_iter_def int_mul_def\<close>)
qed

end
