(* ===== verification/Ult_Fifo.thy ===== *)
theory Ult_Fifo
  imports Ult_Main
begin

text \<open>
  The waiting queue of the bank lock: a FIFO queue in its array, and what a step of the running program
  does to it and to the owner of the lock.
\<close>

section \<open>The waiting queue is a FIFO queue\<close>

definition waiting_list :: "ult \<Rightarrow> addr list" where
  "waiting_list s = map the (take (nat (wq_size s)) (waiting_queue s))"

definition fits :: "ult \<Rightarrow> bool" where
  "fits s \<longleftrightarrow> (\<exists>q. repr s q \<and> length (ready q) + length (waiting q) \<le> THREAD_MAX \<and>
     cur q < length (ready q))"

text \<open>To enqueue a thread is to block the running one; to dequeue is to hand it the lock.\<close>

definition wq_deq :: "ult \<Rightarrow> (addr \<times> ult) option" where
  "wq_deq s = do { p \<leftarrow> arr_get (waiting_queue s) 0; a \<leftarrow> p; s' \<leftarrow> bring_waiting s; Some (a, s') }"

definition blocks :: "addr \<Rightarrow> ult \<Rightarrow> bool" where
  "blocks a s \<longleftrightarrow> RUNNING s = Some (Some a) \<and> rq_size s + wq_size s < int THREAD_MAX"

lemma waiting_list_repr: "repr s q \<Longrightarrow> waiting_list s = waiting q"
  by (auto simp: waiting_list_def repr_def pad_def)

interpretation wq: fifo fits waiting_list "\<lambda>a. enqueue_waiting" wq_deq blocks
proof
  fix a s assume "fits s" "blocks a s"
  then obtain q where q: "repr s q" "cur q < length (ready q)"
    "length (ready q) + length (waiting q) < THREAD_MAX" "ready q ! cur q = a"
    by (auto simp: fits_def blocks_def repr_def RUNNING_def pad_get)
  then obtain s' where s': "enqueue_waiting s = Some s'"
    "repr s' (q\<lparr>waiting := waiting q @ [a]\<rparr>)"
    using enqueue_waiting_repr [OF q(1,2)] by (auto simp: implements_def)
  moreover have "fits s'"
    unfolding fits_def using q s'(2) by (intro exI [of _ "q\<lparr>waiting := waiting q @ [a]\<rparr>"]) simp
  ultimately show "\<exists>q'. enqueue_waiting s = Some q' \<and> fits q' \<and> waiting_list q' = waiting_list s @ [a]"
    using waiting_list_repr q(1) by fastforce
next
  fix s assume "fits s" "waiting_list s \<noteq> []"
  then obtain q where q: "repr s q" "cur q < length (ready q)"
    "length (ready q) + length (waiting q) \<le> THREAD_MAX" "waiting q \<noteq> []"
    by (auto simp: fits_def waiting_list_repr)
  then have room: "length (waiting q) < THREAD_MAX" "length (ready q) < THREAD_MAX"
    by (cases "waiting q"; force)+
  let ?q = "wake_first (ident_of s) q"
  obtain s' where s': "bring_waiting s = Some s'" "repr s' ?q"
    using bring_waiting_repr [OF q(1,4) room] by (auto simp: implements_def)
  have "arr_get (waiting_queue s) 0 = Some (Some (hd (waiting q)))"
    using q pad_get [of 0 "waiting q" THREAD_MAX] room by (simp add: repr_def hd_conv_nth)
  moreover have "fits s'"
    unfolding fits_def using q s'(2)
    by (intro exI [of _ ?q]) (cases "waiting q"; simp add: wake_first_def)
  ultimately show "\<exists>q'. wq_deq s = Some (hd (waiting_list s), q') \<and> fits q' \<and>
      waiting_list q' = tl (waiting_list s)"
    using s' waiting_list_repr [OF q(1)] waiting_list_repr [OF s'(2)]
    by (auto simp: wq_deq_def wake_first_def)
qed

text \<open>The array is a FIFO queue: the running thread, when it blocks, comes out after all that wait.\<close>

lemma waiting_queue_order:
  assumes "fits s" and "blocks a s"
  shows "\<exists>s1 s2. enqueue_waiting s = Some s1 \<and>
     wq.deq_n (Suc (length (waiting_list s))) s1 = Some (waiting_list s @ [a], s2) \<and> waiting_list s2 = []"
  by (rule wq.fifo_order [OF assms])

section \<open>The lock over one step of the program\<close>

definition ready_list :: "ult \<Rightarrow> addr list" where
  "ready_list s = map the (take (nat (rq_size s)) (ready_queue s))"

lemma ready_list_repr: "repr s q \<Longrightarrow> ready_list s = ready q"
  by (auto simp: ready_list_def repr_def pad_def)

text \<open>
  What the step of thread \<open>r\<close> does to the lock: a thread that asks for it takes it or waits behind
  the others, a thread that releases it hands it to the first waiting one, no other step touches it.
\<close>

definition lock_effect :: "addr \<Rightarrow> ult \<Rightarrow> ult \<Rightarrow> bool" where
  "lock_effect r s s' = (case environment (tcbs s ! r) of
     Bank_setup \<Rightarrow>
       (if lock_owner (bank s) = -1
        then waiting_list s = [] \<and> waiting_list s' = [] \<and> lock_owner (bank s') = t_id (tcbs s ! r)
        else waiting_list s' = waiting_list s @ [r] \<and> lock_owner (bank s') = lock_owner (bank s))
   | Bank_yield2 \<Rightarrow> lock_owner (bank s) = t_id (tcbs s ! r) \<and>
       (case waiting_list s of
         [] \<Rightarrow> waiting_list s' = [] \<and> lock_owner (bank s') = -1
       | a # as \<Rightarrow> waiting_list s' = as \<and> lock_owner (bank s') = t_id (tcbs s ! a) \<and> a \<in> set (ready_list s'))
   | _ \<Rightarrow> waiting_list s' = waiting_list s \<and> lock_owner (bank s') = lock_owner (bank s))"

lemma seg_ctl:
  assumes "seg t b = (t', ls, b', k)"
  shows "k = C_lock \<longleftrightarrow> environment t = Bank_setup" and "k = C_release \<longleftrightarrow> environment t = Bank_yield2"
  using assms by (auto simp: seg_def fib_seg_def fact_seg_def Let_def split: jmp_point.splits if_splits)

lemma lock_change_other: "k \<noteq> C_lock \<Longrightarrow> k \<noteq> C_release \<Longrightarrow>
    lock_change k ident q q' \<longleftrightarrow> waiting q' = waiting q \<and> owner q' = owner q"
  by (cases k) auto

lemma resume_lock:
  assumes inv: "ult_inv args sg n (Jumped, s)" and res: "resume s = Some (oc, s')"
  shows "\<exists>r. RUNNING s = Some (Some r) \<and> lock_effect r s s'"
proof -
  obtain q where sys: "sys_ok s q" and cur: "cur q < length (ready q)"
    using inv by (auto simp: ult_inv_def)
  define a where "a = ready q ! cur q"
  note R = running_thread [OF sys cur, folded a_def]
  have r: "repr s q" and ok: "lock_ok (ident_of s) (env_of s) q" using sys by (simp_all add: sys_ok_def)
  note D = lock_okD [OF ok]
  obtain t' ls b' k where sg: "seg (tcbs s ! a) (balance (bank s)) = (t', ls, b', k)"
    by (metis prod_cases4)
  let ?s = "after s a t' ls b'"
  obtain q' where q': "repr s' q'" "lock_change k (ident_of ?s) q q'"
    using resume_split [OF sys cur a_def sg] res by (auto simp: sched_result_def)
  have id: "ident_of ?s b = t_id (tcbs s ! b)" for b
    using seg_frame(1) [OF sg] R(1) by (simp add: ident_of_def after_def nth_list_update)
  have W: "waiting_list s = waiting q" "waiting_list s' = waiting q'" "ready_list s' = ready q'"
    "lock_owner (bank s) = owner q" "lock_owner (bank s') = owner q'"
    using waiting_list_repr ready_list_repr r q'(1) by (simp_all add: repr_def)
  have ar: "a \<in> set (ready q)" using cur by (simp add: a_def)
  have "lock_effect a s s'"
  proof (cases "environment (tcbs s ! a)")
    case Bank_setup
    then have "lock_change C_lock (ident_of ?s) q q'" using seg_ctl(1) [OF sg] q'(2) by blast
    with Bank_setup D(8) show ?thesis by (auto simp: lock_effect_def W id a_def [symmetric])
  next
    case Bank_yield2
    then have c: "lock_change C_release (ident_of ?s) q q'" using seg_ctl(2) [OF sg] q'(2) by blast
    have "t_id (tcbs s ! a) = owner q"
      using D(7) [OF ar] Bank_yield2 by (simp add: env_of_def ident_of_def)
    with c Bank_yield2 show ?thesis by (cases "waiting q") (simp_all add: lock_effect_def W id)
  qed (use q'(2) seg_ctl [OF sg] in \<open>simp_all add: lock_effect_def W lock_change_other\<close>)
  with R(2) show ?thesis by blast
qed

end
