(* ===== verification/Ult_Props.thy ===== *)
theory Ult_Props
  imports Ult_Args Ult_Masks Ult_Range Ult_Fifo
begin

text \<open>
  The properties of the user-level thread library, with a witness at a concrete program for each
  one that has a hypothesis.
\<close>

section \<open>Nobody frees a control block\<close>

lemma myclear_tcbs: "myclear i w s = Some s' \<Longrightarrow> tcbs s' = tcbs s"
  by (auto simp: myclear_def bind_eq_Some_conv split: if_splits)

lemma fill_hole_tcbs: "fill_hole s = Some s' \<Longrightarrow> tcbs s' = tcbs s"
  by (auto simp: fill_hole_def bind_eq_Some_conv dest!: myclear_tcbs)

lemma remove_current_tcbs: "remove_current s = Some s' \<Longrightarrow> tcbs s' = tcbs s"
  by (auto simp: remove_current_def bind_eq_Some_conv split: if_splits
      dest!: myclear_tcbs fill_hole_tcbs)

lemma enqueue_waiting_tcbs: "enqueue_waiting s = Some s' \<Longrightarrow> tcbs s' = tcbs s"
  by (auto simp: enqueue_waiting_def bind_eq_Some_conv)

lemma bring_waiting_tcbs: "bring_waiting s = Some s' \<Longrightarrow> tcbs s' = tcbs s"
  by (auto simp: bring_waiting_def bind_eq_Some_conv dest!: myclear_tcbs)

lemma next_current_tcbs: "next_current s = Some s' \<Longrightarrow> tcbs s' = tcbs s"
  by (auto simp: next_current_def split: if_splits)

lemmas queue_op_tcbs = fill_hole_tcbs remove_current_tcbs enqueue_waiting_tcbs bring_waiting_tcbs
  next_current_tcbs

lemma sched_branch_tcbs:
  "sched_lock_free see s = Some s' \<Longrightarrow> tcbs s' = tcbs s"
  "sched_lock_held see s = Some s' \<Longrightarrow> tcbs s' = tcbs s"
  "sched_none_waiting see s = Some s' \<Longrightarrow> tcbs s' = tcbs s"
  unfolding sched_lock_free_def sched_lock_held_def sched_none_waiting_def
  by (auto simp: bind_eq_Some_conv split: if_splits dest!: queue_op_tcbs)

section \<open>Concrete programs for the witnesses\<close>

lemma ult_run_reach:
  "ult_run fuel sig c = Some s \<Longrightarrow> reach ult_step c (Returned, s)"
proof (induction fuel arbitrary: c)
  case 0
  then show ?case by (cases c; cases "fst c") auto
next
  case (Suc fuel)
  obtain oc t where c: "c = (oc, t)" by (cases c)
  show ?case
  proof (cases oc)
    case Returned
    with Suc.prems c show ?thesis by simp
  next
    case Jumped
    with Suc.prems c obtain c' where c': "resume (arrivals (sig fuel) t) = Some c'"
      "ult_run fuel sig c' = Some s"
      by (auto simp: bind_eq_Some_conv)
    have "reach ult_step (Jumped, t) (Jumped, arrivals ns t)" for ns
      unfolding arrivals_def
    proof (induction ns rule: rev_induct)
      case (snoc n ns)
      then show ?case by (cases n) (auto intro: reach_step ult_step.intros)
    qed simp
    then have "reach ult_step (Jumped, t) c'"
      using c'(1) by (blast intro: reach_step ult_step.run)
    with Suc.IH [OF c'(2)] c Jumped show ?thesis by (auto intro: reach_trans)
  qed
qed

lemma complete_run:
  "\<exists>c s. ult_main ts f1 f2 b1 b2 = Some c \<and> reach ult_step c (Returned, s)"
  using ult_main_inv [of ts f1 f2 b1 b2] ult_run_complete ult_run_reach by (metis order_refl)

definition two_banks :: ult where
  "two_banks = globals\<lparr>tcbs := [new_tcb Bank_setup 2 200, new_tcb Bank_setup 3 (-900)],
     ready_queue := pad THREAD_MAX [0, 1], rq_size := 2,
     bank := \<lparr>balance = 500, lock_owner = -1\<rparr>\<rparr>"

definition two_banks_queues :: queues where
  "two_banks_queues = \<lparr>ready = [0, 1], cur = 0, waiting = [], owner = -1\<rparr>"

lemma two_banks_repr: "repr two_banks two_banks_queues"
  by (simp add: repr_def two_banks_def two_banks_queues_def globals_def pad_Nil THREAD_MAX_def)

lemma two_banks_pre: "see \<in> {1, 2, 3} \<Longrightarrow> sched_pre see two_banks_queues"
  by (auto simp: sched_pre_def two_banks_queues_def THREAD_MAX_def)

text \<open>Two bank threads: the first takes the lock and yields to a signal, the second is about to ask for it.\<close>

definition second_asks :: "ult option" where
  "second_asks = do {
     (oc0, s0) \<leftarrow> ult_main 3 0 0 200 (-900);
     (oc1, s1) \<leftarrow> resume s0;
     (oc, s) \<leftarrow> resume (arrive SIGTSTP s1);
     (if oc0 = Jumped \<and> oc1 = Jumped \<and> oc = Jumped then Some s else None) }"

lemma second_asks_runs:
  "map_option (\<lambda>s. (lock_owner (bank s), RUNNING s, environment (tcbs s ! 1))) second_asks =
     Some (2, Some (Some 1), Bank_setup)"
  by code_simp

lemma second_bank_asks:
  "\<exists>c s. ult_main 3 0 0 200 (-900) = Some c \<and> reach ult_step c (Jumped, s) \<and>
     lock_owner (bank s) = 2 \<and> RUNNING s = Some (Some 1) \<and> environment (tcbs s ! 1) = Bank_setup"
proof -
  obtain s where s: "second_asks = Some s"
    "lock_owner (bank s) = 2" "RUNNING s = Some (Some 1)" "environment (tcbs s ! 1) = Bank_setup"
    using second_asks_runs by auto
  then obtain s0 s1 where r: "ult_main 3 0 0 200 (-900) = Some (Jumped, s0)"
    "resume s0 = Some (Jumped, s1)" "resume (arrive SIGTSTP s1) = Some (Jumped, s)"
    by (auto simp: second_asks_def bind_eq_Some_conv split: if_splits)
  then have "reach ult_step (Jumped, s0) (Jumped, s)"
    by (metis reach_init reach_step ult_step.intros(1,2))
  with r(1) s show ?thesis by blast
qed

section \<open>The properties\<close>

text \<open>C1: The scheduler does on its two pointer arrays what the specification says on two lists:
  a free lock goes to the thread that has waited longest, which is appended to the ready list; an
  exiting or blocking thread's place is taken by the last ready thread; a yielding thread hands
  over to the next one. It neither reads nor writes out of bounds, returns to \<open>main\<close> exactly when
  both lists are empty, and touches nothing but the queues and the owner of the lock.\<close>

theorem scheduler_refines_spec:
  assumes "repr s q" and "sched_pre see q"
  shows "\<exists>s'. scheduler see s = Some (if ready (sched_spec (ident_of s) see q) = [] \<and>
       waiting (sched_spec (ident_of s) see q) = [] then Returned else Jumped, s') \<and>
     repr s' (sched_spec (ident_of s) see q) \<and> same_rest s s'"
  by (rule scheduler_repr [OF assms])

theorem scheduler_refines_spec_witness:
  "repr two_banks two_banks_queues \<and> sched_pre 2 two_banks_queues \<and>
   (\<exists>s'. scheduler 2 two_banks = Some (Jumped, s') \<and> lock_owner (bank s') = 2)"
proof -
  have pre: "sched_pre 2 two_banks_queues" by (rule two_banks_pre) simp
  have spec: "sched_spec (ident_of two_banks) 2 two_banks_queues = two_banks_queues\<lparr>owner := 2\<rparr>"
    by (simp add: sched_spec_def two_banks_queues_def two_banks_def ident_of_def new_tcb_def)
  obtain s' where "scheduler 2 two_banks = Some (Jumped, s')"
    "repr s' (two_banks_queues\<lparr>owner := 2\<rparr>)"
    using scheduler_refines_spec [OF two_banks_repr pre] unfolding spec
    by (auto simp: two_banks_queues_def)
  with two_banks_repr pre show ?thesis by (auto simp: repr_def)
qed

text \<open>C17: No program goes wrong: for all arguments \<open>main\<close> starts the threads, and in every state
  reached under any arrival of signals the running thread's next step is defined - no \<open>NULL\<close>
  thread is entered, no index leaves a queue, no division by an empty ready queue. When the Fibonacci argument
  is at most 46, the factorial argument at most 12, and the two operations on the account keep it
  in the range of an \<open>int\<close>, no step overflows either: the step in which every overflow and \<open>abs (INT_MIN)\<close> is
  undefined does the same.\<close>

theorem ult_never_stuck:
  "\<exists>c. ult_main ts f1 f2 b1 b2 = Some c \<and> (\<forall>s. reach ult_step c (Jumped, s) \<longrightarrow>
     resume s \<noteq> None \<and>
     (sint f1 \<le> 46 \<and> sint f2 \<le> 12 \<and> - (2 ^ 31) < sint b1 \<and> - (2 ^ 31) < sint b2 \<and>
      500 + max 0 (sint b1) + max 0 (sint b2) < 2 ^ 31 \<longrightarrow> strict_resume s = resume s))"
proof -
  obtain c where c: "ult_main ts f1 f2 b1 b2 = Some c" using ult_main_inv by blast
  have inv: "\<exists>n. main_inv f1 f2 b1 b2 n (Jumped, s)" if "reach ult_step c (Jumped, s)" for s
    using ult.reach_inv [OF c that] .
  have "resume s \<noteq> None" if "reach ult_step c (Jumped, s)" for s
    using inv [OF that] resume_inv by fastforce
  moreover have "strict_resume s = resume s"
    if "reach ult_step c (Jumped, s)" "sint f1 \<le> 46" "sint f2 \<le> 12" "bank_fits b1 b2" for s
    using inv [OF that(1)] strict_resume_exact [OF _ that(2-4)] by blast
  ultimately show ?thesis using c unfolding bank_fits_def by blast
qed

theorem ult_never_stuck_witness:
  "\<exists>s. ult_main 3 46 12 200 (-900) = Some (Jumped, s) \<and> resume s \<noteq> None \<and> strict_resume s = resume s"
proof -
  obtain c where c: "ult_main 3 46 12 200 (-900) = Some c"
    "\<forall>s. reach ult_step c (Jumped, s) \<longrightarrow> resume s \<noteq> None \<and> strict_resume s = resume s"
    using ult_never_stuck [of 3 46 12 200 "-900"] by auto
  moreover have "main_inv 46 12 200 (-900) 66 c"
    using ult_main_inv [of 3 46 12 200 "-900"] c(1) by (simp add: ult_work_def)
  ultimately obtain s where "c = (Jumped, s)"
    by (cases c; cases "fst c") (auto simp: ult_inv_def work_left_def)
  with c show ?thesis by auto
qed

text \<open>C18: A signal interrupts a thread only inside \<open>thread_yield\<close>: with the masks that \<open>init_signal\<close> sets up,
  \<open>sigsetjmp\<close> saves and \<open>siglongjmp\<close> restores, the program has in every reachable state both signals
  blocked, and apart from the masks it reaches exactly the states of the program in which signals
  are held back by definition and only \<open>thread_yield\<close> takes them.\<close>

theorem signals_only_at_yield:
  "\<exists>oc m s. m_main ts f1 f2 b1 b2 = Some (oc, m, s) \<and> ult_main ts f1 f2 b1 b2 = Some (oc, s) \<and>
     {(oc', blocked m', s') | oc' m' s'. reach m_step (oc, m, s) (oc', m', s')} =
     {(oc', {SIGTSTP, SIGALRM}, s') | oc' s'. reach ult_step (oc, s) (oc', s')}"
proof -
  obtain d where d: "ult_main ts f1 f2 b1 b2 = Some d"
    using ult_main_inv by blast
  with main_same [of ts f1 f2 b1 b2] obtain c where c: "m_main ts f1 f2 b1 b2 = Some c" "same_run c d"
    by (auto simp: option_rel_Some2)
  then obtain oc m s where "c = (oc, m, s)" "d = (oc, s)" by (cases c) auto
  with c d masked_states [OF c(2)] show ?thesis by (simp add: base_mask_def)
qed

text \<open>C5: Mutual exclusion, seen in the output: between a thread's \<open>acquired the lock\<close> and its
  \<open>released the lock\<close> no other thread acquires the lock or touches the balance, and every balance
  line stands inside a section of the thread that prints it; when the program returns to \<open>main\<close>,
  no section is open.\<close>

theorem critical_sections_disjoint:
  assumes "ult_main ts f1 f2 b1 b2 = Some c" and "reach ult_step c (oc, s)"
  shows "\<exists>h. cs_trace None (out s) = Some h \<and> (oc = Returned \<longrightarrow> h = None)"
  using ult.reach_inv [OF assms] inv_traces(1) by blast

theorem critical_sections_disjoint_witness:
  "\<exists>c s. ult_main 3 6 10 200 (-900) = Some c \<and> reach ult_step c (Returned, s) \<and>
     cs_trace None (out s) = Some None"
  using complete_run [of 3 6 10 200 "-900"] critical_sections_disjoint [of 3 6 10 200 "-900"] by blast

text \<open>C22: The balance has a serial history: starting from 500, every balance line reports as old
  balance what the line before left, and as new balance the result of that thread's deposit or
  covered withdrawal; the last one is the balance of the bank.\<close>

theorem bank_history_serial:
  assumes "ult_main ts f1 f2 b1 b2 = Some c" and "reach ult_step c (oc, s)"
  shows "replay (ult_args f1 f2 b1 b2) 500 (out s) = Some (balance (bank s))"
  using ult.reach_inv [OF assms] inv_traces(2) by blast

theorem bank_history_serial_witness:
  "\<exists>c s. ult_main 3 0 0 200 (-900) = Some c \<and> reach ult_step c (Returned, s) \<and>
     replay (ult_args 0 0 200 (-900)) 500 (out s) = Some (balance (bank s))"
  using complete_run [of 3 0 0 200 "-900"] bank_history_serial [of 3 0 0 200 "-900"] by blast

text \<open>C9: Every run ends, whatever signals arrive: \<open>ult_work\<close> steps of the threads are enough, and
  then every thread has printed all its lines in order - the first \<open>n\<close> Fibonacci numbers, the
  first \<open>n\<close> factorials, one acquire-update-release per bank operation.\<close>

theorem ult_terminates:
  assumes "ult_work f1 f2 b1 b2 \<le> fuel"
  shows "\<exists>c s. ult_main ts f1 f2 b1 b2 = Some c \<and> ult_run fuel sig c = Some s \<and>
     (0 < sint f1 \<longrightarrow> lines_of 0 (out s) = numbers fib 0 (nat (sint f1))) \<and>
     (0 < sint f2 \<longrightarrow> lines_of 1 (out s) = numbers fact 1 (nat (sint f2))) \<and>
     (b1 \<noteq> 0 \<longrightarrow> (\<exists>b. lines_of 2 (out s) = [L_acquired 2, L_bank 2 b (bank_apply b1 b), L_released 2])) \<and>
     (b2 \<noteq> 0 \<longrightarrow> (\<exists>b. lines_of 3 (out s) = [L_acquired 3, L_bank 3 b (bank_apply b2 b), L_released 3]))"
proof -
  obtain c where c: "ult_main ts f1 f2 b1 b2 = Some c" "main_inv f1 f2 b1 b2 (ult_work f1 f2 b1 b2) c"
    using ult_main_inv by blast
  obtain s where s: "ult_run fuel sig c = Some s" "main_inv f1 f2 b1 b2 0 (Returned, s)"
    using ult_run_complete [OF c(2) assms] by blast
  note L = inv_thread_lines [OF s(2)] and I = identities_mem [where ?f1.0 = f1 and ?f2.0 = f2
    and ?b1.0 = b1 and ?b2.0 = b2]
  have "lines_of 0 (out s) = numbers fib 0 (nat (sint f1))" if "0 < sint f1"
    using L [OF I(1) [OF that]] by (metis shape_numbers(1))
  moreover have "lines_of 1 (out s) = numbers fact 1 (nat (sint f2))" if "0 < sint f2"
    using L [OF I(2) [OF that]] by (metis shape_numbers(2))
  moreover have "\<exists>b. lines_of 2 (out s) = [L_acquired 2, L_bank 2 b (bank_apply b1 b), L_released 2]"
    if "b1 \<noteq> 0" using L [OF I(3) [OF that]] by (metis shape_numbers(3))
  moreover have "\<exists>b. lines_of 3 (out s) = [L_acquired 3, L_bank 3 b (bank_apply b2 b), L_released 3]"
    if "b2 \<noteq> 0" using L [OF I(4) [OF that]] by (metis shape_numbers(3))
  ultimately show ?thesis using c(1) s(1) by blast
qed

theorem ult_terminates_witness:
  "ult_work 3 2 200 0 \<le> 9 \<and> (\<exists>c s. ult_main 3 3 2 200 0 = Some c \<and>
     ult_run 9 (\<lambda>k. [SIGTSTP]) c = Some s \<and>
     lines_of 0 (out s) = [L_num 0 1, L_num 0 1, L_num 0 2])"
proof -
  have w: "ult_work 3 2 200 0 \<le> 9" by (simp add: ult_work_def)
  have "numbers fib 0 (nat (sint (3 :: i32))) = [L_num 0 1, L_num 0 1, L_num 0 2]"
    by (simp add: numbers_def upt_rec numeral_2_eq_2 numeral_3_eq_3)
  with ult_terminates [OF w, of 3 "\<lambda>k. [SIGTSTP]"] w show ?thesis by force
qed

text \<open>The Fibonacci thread prints the true Fibonacci numbers, in order and as long as it runs, for
  every argument up to 46; the 32-bit additions do not overflow there.\<close>

theorem fibonacci_exact:
  assumes "0 < sint f1" and "sint f1 \<le> 46"
    and "ult_main ts f1 f2 b1 b2 = Some c" and "reach ult_step c (oc, s)"
  shows "\<exists>k. int k \<le> sint f1 \<and>
     map line_value (lines_of 0 (out s)) = map (\<lambda>j. int (fib j)) [1..<Suc k]"
proof -
  obtain n where "main_inv f1 f2 b1 b2 n (oc, s)" using ult.reach_inv [OF assms(3,4)] by blast
  from inv_prefix [OF this identities_mem(1) [OF assms(1)]] obtain t k where
    t: "t_id t = 0" "thread_class (environment t) = 0" "t_arg t = f1" "k \<le> total t"
       "shape t k (lines_of 0 (out s))" by blast
  then have ls: "lines_of 0 (out s) = numbers fib 0 k" and k: "int k \<le> sint f1"
    using assms(1) by (cases "environment t"; simp add: shape_def)+
  have "map line_value (numbers fib 0 k) = map (\<lambda>j. int (fib j)) [1..<Suc k]"
    using k assms(2) by (intro numbers_values fib_range) linarith
  with ls k show ?thesis by metis
qed

theorem fibonacci_exact_witness:
  "\<exists>c s k. ult_main 3 46 0 0 0 = Some c \<and> reach ult_step c (Returned, s) \<and> int k \<le> 46 \<and>
     map line_value (lines_of 0 (out s)) = map (\<lambda>j. int (fib j)) [1..<Suc k]"
  using complete_run [of 3 46 0 0 0] fibonacci_exact [of 46 3 0 0 0] by fastforce

text \<open>The bounds are needed: with a Fibonacci argument of 47, a factorial argument of 13, and the least or
  the greatest \<open>int\<close> as operation on the account, a state is reached whose next step overflows.\<close>

fun ult_steps :: "nat \<Rightarrow> outcome \<times> ult \<Rightarrow> ult option" where
  "ult_steps n (Returned, s) = None"
| "ult_steps 0 (Jumped, s) = Some s"
| "ult_steps (Suc n) (Jumped, s) = do { c \<leftarrow> resume s; ult_steps n c }"

lemma ult_steps_reach: "ult_steps n c = Some s \<Longrightarrow> reach ult_step c (Jumped, s)"
proof (induction n c rule: ult_steps.induct)
  case (3 n s0)
  then obtain c where c: "resume s0 = Some c" "ult_steps n c = Some s" by (auto simp: bind_eq_Some_conv)
  from "3.IH" [OF c] ult_step.run [OF c(1)] show ?case by (blast intro: reach_trans reach_step reach_init)
qed auto

lemma fib_47_run: "do { c \<leftarrow> ult_main 0 47 0 0 0; s \<leftarrow> ult_steps 46 c; Some (strict_resume s) } = Some None"
  by code_simp

lemma fact_13_run: "do { c \<leftarrow> ult_main 0 0 13 0 0; s \<leftarrow> ult_steps 12 c; Some (strict_resume s) } = Some None"
  by code_simp

lemma bank_min_run: "do { c \<leftarrow> ult_main 0 0 0 (- 2147483648) 0; s \<leftarrow> ult_steps 2 c; Some (strict_resume s) } = Some None"
  by code_simp

lemma bank_max_run: "do { c \<leftarrow> ult_main 0 0 0 2147483647 0; s \<leftarrow> ult_steps 2 c; Some (strict_resume s) } = Some None"
  by code_simp

theorem int_overflows:
  "(\<exists>c s. ult_main 0 47 0 0 0 = Some c \<and> reach ult_step c (Jumped, s) \<and> strict_resume s = None) \<and>
   (\<exists>c s. ult_main 0 0 13 0 0 = Some c \<and> reach ult_step c (Jumped, s) \<and> strict_resume s = None) \<and>
   (\<exists>c s. ult_main 0 0 0 (- 2147483648) 0 = Some c \<and> reach ult_step c (Jumped, s) \<and> strict_resume s = None) \<and>
   (\<exists>c s. ult_main 0 0 0 2147483647 0 = Some c \<and> reach ult_step c (Jumped, s) \<and> strict_resume s = None)"
proof -
  have "\<exists>c s. m = Some c \<and> reach ult_step c (Jumped, s) \<and> strict_resume s = None"
    if "do { c \<leftarrow> m; s \<leftarrow> ult_steps n c; Some (strict_resume s) } = Some None" for m n
    using that ult_steps_reach by (fastforce simp: bind_eq_Some_conv)
  from this [OF fib_47_run] this [OF fact_13_run] this [OF bank_min_run] this [OF bank_max_run]
  show ?thesis by blast
qed

text \<open>The factorial thread prints the true factorials for every argument up to 12.\<close>

theorem factorial_exact:
  assumes "0 < sint f2" and "sint f2 \<le> 12"
    and "ult_main ts f1 f2 b1 b2 = Some c" and "reach ult_step c (oc, s)"
  shows "\<exists>k. int k \<le> sint f2 \<and>
     map line_value (lines_of 1 (out s)) = map (\<lambda>j. int (fact j)) [1..<Suc k]"
proof -
  obtain n where "main_inv f1 f2 b1 b2 n (oc, s)" using ult.reach_inv [OF assms(3,4)] by blast
  from inv_prefix [OF this identities_mem(2) [OF assms(1)]] obtain t k where
    t: "t_id t = 1" "thread_class (environment t) = 1" "t_arg t = f2" "k \<le> total t"
       "shape t k (lines_of 1 (out s))" by blast
  then have ls: "lines_of 1 (out s) = numbers fact 1 k" and k: "int k \<le> sint f2"
    using assms(1) by (cases "environment t"; simp add: shape_def)+
  have "map line_value (numbers fact 1 k) = map (\<lambda>j. int (fact j)) [1..<Suc k]"
    using k assms(2) by (intro numbers_values fact_range) linarith
  with ls k show ?thesis by metis
qed

theorem factorial_exact_witness:
  "\<exists>c s k. ult_main 4 0 12 0 0 = Some c \<and> reach ult_step c (Returned, s) \<and> int k \<le> 12 \<and>
     map line_value (lines_of 1 (out s)) = map (\<lambda>j. int (fact j)) [1..<Suc k]"
  using complete_run [of 4 0 12 0 0] factorial_exact [of 12 4 0 0 0] by fastforce

text \<open>C39: The balance never becomes negative and never exceeds 500 plus the two deposits, whatever the
  other two threads compute, as long as this bound fits into 32 bits and neither operation is
  \<open>INT_MIN\<close>, whose \<open>abs\<close> is undefined.\<close>

theorem balance_in_range:
  assumes "ult_main ts f1 f2 b1 b2 = Some c" and "reach ult_step c (oc, s)"
    and "- (2 ^ 31) < sint b1" and "- (2 ^ 31) < sint b2"
    and "500 + max 0 (sint b1) + max 0 (sint b2) < 2 ^ 31"
  shows "0 \<le> sint (balance (bank s)) \<and>
     sint (balance (bank s)) \<le> 500 + max 0 (sint b1) + max 0 (sint b2)"
proof -
  obtain n where inv: "main_inv f1 f2 b1 b2 n (oc, s)" using ult.reach_inv [OF assms(1,2)] by blast
  have "bank_fits b1 b2" using assms(3-5) by (simp add: bank_fits_def)
  from inv_balance [OF inv this] inv_deposits [OF inv] show ?thesis by linarith
qed

theorem balance_in_range_witness:
  "\<exists>c s. ult_main 3 1000 4 200 (-900) = Some c \<and> reach ult_step c (Returned, s) \<and>
     0 \<le> sint (balance (bank s)) \<and> sint (balance (bank s)) \<le> 700"
proof -
  obtain c s where "ult_main 3 1000 4 200 (-900) = Some c" "reach ult_step c (Returned, s)"
    using complete_run by blast
  with balance_in_range [of 3 1000 4 200 "-900" c Returned s] show ?thesis by force
qed

text \<open>C37: The lock is handed out in the order of the requests, in every reachable state of every
  program: a thread that calls \<open>lock\<close> takes a free lock at once, and queues up behind all waiting
  threads otherwise; a thread that releases the lock hands it to the one that has waited
  longest, which leaves the waiting queue for the ready queue, and frees the lock when nobody waits; no other step
  changes the owner or the waiting threads.\<close>

theorem waiting_fifo:
  assumes "ult_main ts f1 f2 b1 b2 = Some c" and "reach ult_step c (Jumped, s)"
    and "resume s = Some (oc, s')"
  shows "\<exists>r. RUNNING s = Some (Some r) \<and> lock_effect r s s'"
  using ult.reach_inv [OF assms(1,2)] resume_lock [OF _ assms(3)] by blast

theorem waiting_fifo_witness:
  "\<exists>c s oc s'. ult_main 3 0 0 200 (-900) = Some c \<and> reach ult_step c (Jumped, s) \<and>
     lock_owner (bank s) = 2 \<and> resume s = Some (oc, s') \<and>
     waiting_list s' = waiting_list s @ [1] \<and> lock_owner (bank s') = 2"
proof -
  obtain c s where s: "ult_main 3 0 0 200 (-900) = Some c" "reach ult_step c (Jumped, s)"
    "lock_owner (bank s) = 2" "RUNNING s = Some (Some 1)" "environment (tcbs s ! 1) = Bank_setup"
    using second_bank_asks by blast
  obtain n where "main_inv 0 0 200 (-900) n (Jumped, s)" using ult.reach_inv [OF s(1,2)] by blast
  from resume_inv [OF this] obtain oc s' where s': "resume s = Some (oc, s')" by auto
  from waiting_fifo [OF s(1,2) s'] s s' show ?thesis by (force simp: lock_effect_def)
qed

text \<open>The scheduler frees no control block, whichever branch it takes: a thread that exits is
  dropped from the ready queue, its block stays allocated and unchanged.\<close>

theorem tcbs_never_freed:
  assumes "scheduler see s = Some (oc, s')"
  shows "tcbs s' = tcbs s"
  using assms unfolding scheduler_def
  by (auto simp: bind_eq_Some_conv split: if_splits dest!: sched_branch_tcbs)

theorem tcbs_never_freed_witness:
  "\<exists>oc s'. scheduler 3 two_banks = Some (oc, s') \<and> length (tcbs s') = 2"
proof -
  obtain oc s' where s': "scheduler 3 two_banks = Some (oc, s')"
    using scheduler_repr [OF two_banks_repr two_banks_pre [of 3]] by blast
  from tcbs_never_freed [OF this] s' show ?thesis by (simp add: two_banks_def)
qed

text \<open>The program called with the decimal texts of any five \<open>int\<close>s runs the threads with exactly
  these numbers and comes to its end; called with any other number of arguments it prints its
  usage line.\<close>

theorem main_reads_arguments:
  fixes ts f1 f2 b1 b2 :: i32
  assumes "length xs \<noteq> 5"
  shows "main_args (prog # xs) = Some (Usage (usage prog)) \<and>
    (\<exists>c s. main_args [prog, intTostr (sint ts), intTostr (sint f1), intTostr (sint f2), intTostr (sint b1),
        intTostr (sint b2)] = Some (Started c) \<and>
      ult_main (sint ts) f1 f2 b1 b2 = Some c \<and> ult_run (ult_work f1 f2 b1 b2) sig c = Some s)"
proof -
  obtain c where c: "ult_main (sint ts) f1 f2 b1 b2 = Some c" "main_inv f1 f2 b1 b2 (ult_work f1 f2 b1 b2) c"
    using ult_main_inv by blast
  obtain s where "ult_run (ult_work f1 f2 b1 b2) sig c = Some s"
    using ult_run_complete [OF c(2) order_refl] by blast
  with c(1) show ?thesis using main_args_usage [of "prog # xs"] assms by (simp add: main_args_numbers)
qed

theorem main_reads_arguments_witness:
  "main_args [''main'', ''3''] = Some (Usage ''usage: main [timeslice] [fib_arg] [fact_arg] [bank1_arg] [bank2_arg]'') \<and>
   (\<exists>c. main_args [''main'', ''3'', ''6'', ''10'', ''200'', ''-900''] = Some (Started c))"
proof -
  have "intTostr 3 = ''3''" "intTostr 6 = ''6''" "intTostr 10 = ''10''" "intTostr 200 = ''200''" "intTostr (-900) = ''-900''"
    by (simp_all add: intTostr_def nat_str.simps digit_def char_of_def bit_0)
  then show ?thesis
    using main_reads_arguments [of "[''3'']" "''main''" 3 6 10 200 "-900" "\<lambda>k. []"] by (simp add: usage_def) blast
qed

end
