(* ===== verification/Pool_List.thy ===== *)
theory Pool_List
  imports Prelude
begin

text \<open>
  The data of the thread pool (\<open>MultiThread/my_pool.h\<close>) and its job list: a singly linked list
  in the C heap with a head and a tail pointer, appended to by \<open>tpool_add\<close> and popped by the
  workers. The heap is the list of the blocks \<open>malloc\<close> returned, \<open>None\<close> for one that was
  freed; an access through \<open>NULL\<close> or to a freed block is \<open>None\<close>.
\<close>

section \<open>Data\<close>

datatype thr = Worker nat | Client nat

record job =
  j_next :: "addr option"
  j_myfunc :: nat
  j_arg :: nat

record tpool =
  jc :: int
  tc :: int
  shutdown :: int
  mylock :: "thr option"       \<comment> \<open>the thread that holds the mutex\<close>
  pool_head :: "addr option"
  pool_tail :: "addr option"

type_synonym heap = "job option list"

definition heap_get :: "heap \<Rightarrow> addr option \<Rightarrow> job option" where
  "heap_get h x = (case x of None \<Rightarrow> None | Some a \<Rightarrow> if a < length h then h ! a else None)"

definition heap_set :: "heap \<Rightarrow> addr option \<Rightarrow> job \<Rightarrow> heap option" where
  "heap_set h x j = (case heap_get h x of None \<Rightarrow> None | Some _ \<Rightarrow> Some (h[the x := Some j]))"

definition heap_free :: "heap \<Rightarrow> addr \<Rightarrow> heap option" where
  "heap_free h a = (case heap_get h (Some a) of None \<Rightarrow> None | Some _ \<Rightarrow> Some (h[a := None]))"

section \<open>Operations on the list\<close>

text \<open>The tail of \<open>tpool_add\<close>: link a job behind the last one.\<close>

definition append_job :: "addr \<Rightarrow> heap \<times> tpool \<Rightarrow> (heap \<times> tpool) option" where
  "append_job job1 = (\<lambda>(h, p).
     if pool_head p \<noteq> None
     then do {
       t \<leftarrow> heap_get h (pool_tail p);
       h \<leftarrow> heap_set h (pool_tail p) (t\<lparr>j_next := Some job1\<rparr>);
       Some (h, p\<lparr>pool_tail := Some job1\<rparr>) }
     else Some (h, p\<lparr>pool_head := Some job1, pool_tail := Some job1\<rparr>))"

text \<open>What a worker does to take a job; the result is the variable \<open>job1\<close>.\<close>

definition take_job :: "heap \<times> tpool \<Rightarrow> (addr option \<times> heap \<times> tpool) option" where
  "take_job = (\<lambda>(h, p).
     (case pool_head p of
       None \<Rightarrow> Some (None, h, p)
     | Some a \<Rightarrow> do {
         j \<leftarrow> heap_get h (Some a);
         p \<leftarrow> Some (if j_next j = None then p\<lparr>pool_head := None, pool_tail := None\<rparr>
                    else p\<lparr>pool_head := j_next j\<rparr>);
         Some (Some a, h, p\<lparr>jc := jc p + 1\<rparr>) }))"

section \<open>The list the pointers represent\<close>

inductive linked :: "heap \<Rightarrow> addr option \<Rightarrow> addr list \<Rightarrow> bool" for h where
  linked_Nil: "linked h None []"
| linked_Cons: "\<lbrakk>heap_get h (Some a) = Some j; linked h (j_next j) as\<rbrakk> \<Longrightarrow> linked h (Some a) (a # as)"

inductive_cases linked_ConsE: "linked h x (a # as)"
inductive_simps linked_None [simp]: "linked h None as"
inductive_simps linked_Nil_iff [simp]: "linked h x []"
inductive_simps linked_Cons_iff [simp]: "linked h x (a # as)"

fun walk :: "nat \<Rightarrow> heap \<Rightarrow> addr option \<Rightarrow> addr list" where
  "walk 0 h x = []"
| "walk (Suc k) h x = (case x of None \<Rightarrow> []
     | Some a \<Rightarrow> (case heap_get h x of None \<Rightarrow> [] | Some j \<Rightarrow> a # walk k h (j_next j)))"

definition jobs :: "heap \<times> tpool \<Rightarrow> addr list" where
  "jobs = (\<lambda>(h, p). walk (length h) h (pool_head p))"

lemma heap_get_Some: "heap_get h (Some a) = Some j \<longleftrightarrow> a < length h \<and> h ! a = Some j"
  by (simp add: heap_get_def)

lemma heap_get_None [simp]: "heap_get h None = None"
  by (simp add: heap_get_def)

lemma linked_walk: "linked h x as \<Longrightarrow> length as \<le> k \<Longrightarrow> walk k h x = as"
proof (induction arbitrary: k rule: linked.induct)
  case linked_Nil
  then show ?case by (cases k) auto
next
  case (linked_Cons a j as)
  then show ?case by (cases k) auto
qed

lemma linked_live: "linked h x as \<Longrightarrow> a \<in> set as \<Longrightarrow> a < length h \<and> h ! a \<noteq> None"
  by (induction rule: linked.induct) (auto simp: heap_get_Some)

lemma linked_bound:
  assumes "linked h x as" and "distinct as"
  shows "length as \<le> length h"
proof -
  have "set as \<subseteq> {..<length h}" using linked_live [OF assms(1)] by auto
  then have "card (set as) \<le> length h" using card_mono [of "{..<length h}"] by fastforce
  then show ?thesis using assms(2) by (simp add: distinct_card)
qed

text \<open>The list does not see blocks outside it, nor new blocks.\<close>

lemma linked_cong:
  "linked h x as \<Longrightarrow> (\<And>a. a \<in> set as \<Longrightarrow> heap_get h' (Some a) = heap_get h (Some a)) \<Longrightarrow> linked h' x as"
  by (induction rule: linked.induct) auto

lemma linked_free: "linked h x as \<Longrightarrow> a \<notin> set as \<Longrightarrow> linked (h[a := None]) x as"
  by (erule linked_cong) (metis (no_types, lifting) heap_get_Some length_list_update not_Some_eq nth_list_update_neq)

lemma linked_malloc: "linked h x as \<Longrightarrow> linked (h @ [b]) x as"
  by (rule linked_cong, assumption) (auto simp: heap_get_def nth_append dest: linked_live)

lemma linked_append:
  assumes "linked h x as" and "as \<noteq> []" and "distinct as"
    and "heap_get h (Some (last as)) = Some t" and "heap_get h (Some b) = Some j" and "j_next j = None"
    and "b \<notin> set as"
  shows "linked (h[last as := Some (t\<lparr>j_next := Some b\<rparr>)]) x (as @ [b])"
  using assms
proof (induction arbitrary: rule: linked.induct)
  case (linked_Cons a j' as)
  then show ?case
    by (cases "as = []") (auto simp: heap_get_def nth_list_update split: if_splits intro!: linked.intros)
qed simp

text \<open>The invariant of the list.\<close>

definition jobs_ok :: "heap \<times> tpool \<Rightarrow> bool" where
  "jobs_ok = (\<lambda>(h, p). \<exists>as. linked h (pool_head p) as \<and> distinct as \<and>
     pool_tail p = (if as = [] then None else Some (last as)))"

lemma jobs_okE:
  assumes "jobs_ok (h, p)"
  obtains "linked h (pool_head p) (jobs (h, p))" and "distinct (jobs (h, p))"
    and "pool_tail p = (if jobs (h, p) = [] then None else Some (last (jobs (h, p))))"
proof -
  from assms obtain as where as: "linked h (pool_head p) as" "distinct as"
    "pool_tail p = (if as = [] then None else Some (last as))" by (auto simp: jobs_ok_def)
  have "jobs (h, p) = as" using linked_walk [OF as(1)] linked_bound [OF as(1,2)] by (simp add: jobs_def)
  with as that show ?thesis by metis
qed

lemma jobsI:
  assumes "linked h (pool_head p) as" and "distinct as" and "pool_tail p = (if as = [] then None else Some (last as))"
  shows "jobs_ok (h, p) \<and> jobs (h, p) = as"
  using assms linked_walk [OF assms(1)] linked_bound [OF assms(1,2)] by (auto simp: jobs_ok_def jobs_def)

lemma jobs_empty: "jobs_ok (h, p) \<Longrightarrow> jobs (h, p) = [] \<longleftrightarrow> pool_head p = None"
  by (erule jobs_okE) (cases "jobs (h, p)"; auto)

text \<open>The fields the list does not use, and blocks it does not hold, do not matter.\<close>

lemma jobs_irrelevant:
  "pool_head p' = pool_head p \<Longrightarrow> pool_tail p' = pool_tail p \<Longrightarrow>
     jobs_ok (h, p') = jobs_ok (h, p) \<and> jobs (h, p') = jobs (h, p)"
  by (simp add: jobs_ok_def jobs_def)

lemma jobs_free:
  assumes "jobs_ok (h, p)" and "a \<notin> set (jobs (h, p))"
  shows "jobs_ok (h[a := None], p) \<and> jobs (h[a := None], p) = jobs (h, p)"
  using assms by (elim jobs_okE) (intro jobsI; simp add: linked_free)

lemma jobs_malloc:
  assumes "jobs_ok (h, p)"
  shows "jobs_ok (h @ [b], p) \<and> jobs (h @ [b], p) = jobs (h, p)"
  using assms by (elim jobs_okE) (intro jobsI; simp add: linked_malloc)

definition fresh_job :: "addr \<Rightarrow> heap \<times> tpool \<Rightarrow> bool" where
  "fresh_job a = (\<lambda>(h, p). a \<notin> set (jobs (h, p)) \<and>
     (\<exists>j. heap_get h (Some a) = Some j \<and> j_next j = None))"

definition payload :: "heap \<Rightarrow> addr \<Rightarrow> nat \<times> nat" where
  "payload h a = (case heap_get h (Some a) of None \<Rightarrow> (0, 0) | Some j \<Rightarrow> (j_myfunc j, j_arg j))"

definition live :: "heap \<Rightarrow> addr set" where
  "live h = {a. a < length h \<and> h ! a \<noteq> None}"

lemma finite_live [simp]: "finite (live h)"
  by (simp add: live_def)

lemma live_get: "a \<in> live h \<longleftrightarrow> (\<exists>j. heap_get h (Some a) = Some j)"
  by (auto simp: live_def heap_get_Some)

lemma live_free: "live (h[a := None]) = live h - {a}"
  by (auto simp: live_def nth_upd)

lemma live_malloc: "live (h @ [Some j]) = insert (length h) (live h)"
  by (auto simp: live_def nth_append)

lemma live_set: "heap_get h (Some a) = Some t \<Longrightarrow> live (h[a := Some j]) = live h"
  by (auto simp: live_def heap_get_Some nth_list_update)

lemma jobs_live: "jobs_ok (h, p) \<Longrightarrow> set (jobs (h, p)) \<subseteq> live h"
  by (erule jobs_okE) (auto simp: live_def dest: linked_live)

section \<open>The operations on the represented list\<close>

lemma append_job_ok:
  assumes ok: "jobs_ok (h, p)" and fresh: "fresh_job a (h, p)"
  shows "\<exists>h' hd tl. append_job a (h, p) = Some (h', p\<lparr>pool_head := hd, pool_tail := tl\<rparr>) \<and>
     jobs_ok (h', p\<lparr>pool_head := hd, pool_tail := tl\<rparr>) \<and>
     jobs (h', p\<lparr>pool_head := hd, pool_tail := tl\<rparr>) = jobs (h, p) @ [a] \<and>
     length h' = length h \<and> payload h' = payload h \<and> live h' = live h \<and> hd \<noteq> None \<and>
     (\<forall>x. x \<notin> set (jobs (h, p)) \<longrightarrow> heap_get h' (Some x) = heap_get h (Some x))"
proof -
  let ?as = "jobs (h, p)"
  from ok have L: "linked h (pool_head p) ?as" "distinct ?as"
    "pool_tail p = (if ?as = [] then None else Some (last ?as))" by (metis jobs_okE)+
  from fresh obtain j where a: "a \<notin> set ?as" "heap_get h (Some a) = Some j" "j_next j = None"
    by (auto simp: fresh_job_def)
  show ?thesis
  proof (cases "?as = []")
    case True
    with L have "pool_head p = None" by simp
    moreover have "linked h (Some a) [a]" using a by simp
    ultimately show ?thesis
      using True a jobsI [of h "p\<lparr>pool_head := Some a, pool_tail := Some a\<rparr>" "[a]"]
      by (intro exI [of _ h] exI [of _ "Some a"]) (auto simp: append_job_def)
  next
    case False
    then obtain t where t: "heap_get h (Some (last ?as)) = Some t"
      using jobs_live [OF ok] by (meson last_in_set live_get subsetD)
    let ?h = "h[last ?as := Some (t\<lparr>j_next := Some a\<rparr>)]"
    let ?p = "p\<lparr>pool_head := pool_head p, pool_tail := Some a\<rparr>"
    have head: "pool_head p \<noteq> None" using ok False by (simp add: jobs_empty)
    have "append_job a (h, p) = Some (?h, ?p)"
      using head L(3) False t by (auto simp: append_job_def heap_set_def)
    moreover have "jobs_ok (?h, ?p) \<and> jobs (?h, ?p) = ?as @ [a]"
      using linked_append [OF L(1) False L(2) t a(2,3,1)] L(2) a(1) by (intro jobsI) auto
    moreover have "payload ?h = payload h"
      using t by (auto simp: payload_def heap_get_def nth_upd fun_eq_iff split: if_splits)
    moreover have "heap_get ?h (Some x) = heap_get h (Some x)" if "x \<notin> set ?as" for x
      using that False last_in_set [OF False] by (auto simp: heap_get_def nth_upd)
    ultimately show ?thesis using head live_set [OF t] by (metis length_list_update)
  qed
qed

lemma take_job_ok:
  assumes ok: "jobs_ok (h, p)" and js: "jobs (h, p) = a # as"
  shows "\<exists>hd tl. take_job (h, p) = Some (Some a, h, p\<lparr>pool_head := hd, pool_tail := tl, jc := jc p + 1\<rparr>) \<and>
     jobs_ok (h, p\<lparr>pool_head := hd, pool_tail := tl, jc := jc p + 1\<rparr>) \<and>
     jobs (h, p\<lparr>pool_head := hd, pool_tail := tl, jc := jc p + 1\<rparr>) = as"
proof -
  from ok have L: "linked h (pool_head p) (a # as)" "distinct (a # as)" "pool_tail p = Some (last (a # as))"
    using js by (metis jobs_okE list.simps(3))+
  then obtain j where j: "pool_head p = Some a" "heap_get h (Some a) = Some j" "linked h (j_next j) as"
    by auto
  let ?hd = "j_next j" let ?tl = "if j_next j = None then None else pool_tail p"
  let ?p = "p\<lparr>pool_head := ?hd, pool_tail := ?tl, jc := jc p + 1\<rparr>"
  have "as = [] \<longleftrightarrow> j_next j = None" using j(3) by (cases "j_next j") (auto elim: linked.cases)
  then have "jobs_ok (h, ?p) \<and> jobs (h, ?p) = as"
    using j L by (intro jobsI) auto
  moreover have "take_job (h, p) = Some (Some a, h, ?p)"
    using j by (auto simp: take_job_def)
  ultimately show ?thesis by blast
qed

text \<open>The job list provides the interface of a FIFO queue.\<close>

definition pool_deq :: "heap \<times> tpool \<Rightarrow> (addr \<times> heap \<times> tpool) option" where
  "pool_deq q = do { (x, q') \<leftarrow> take_job q; a \<leftarrow> x; Some (a, q') }"

interpretation jq: fifo jobs_ok jobs append_job pool_deq fresh_job
proof
  fix q :: "heap \<times> tpool" and x assume "jobs_ok q" "fresh_job x q"
  then show "\<exists>q'. append_job x q = Some q' \<and> jobs_ok q' \<and> jobs q' = jobs q @ [x]"
    using append_job_ok by (cases q) blast
next
  fix q :: "heap \<times> tpool" assume q: "jobs_ok q" "jobs q \<noteq> []"
  then obtain a as where "jobs q = a # as" by (cases "jobs q") auto
  then show "\<exists>q'. pool_deq q = Some (hd (jobs q), q') \<and> jobs_ok q' \<and> jobs q' = tl (jobs q)"
    using take_job_ok [of "fst q" "snd q" a as] q(1) by (auto simp: pool_deq_def)
qed

end
