(* ===== verification/Pool_Sys.thy ===== *)
theory Pool_Sys
  imports Pool_List
begin

text \<open>
  The threads of the pool (\<open>MultiThread/my_pool.c\<close>): the workers run \<open>eachthread\<close>, the
  clients call \<open>tpool_add\<close>, \<open>tpool_wait\<close> and \<open>tpool_destroy\<close>. The code between two calls of
  the pthread library is one step, and so is each call; the state says where every thread
  stands. The mutex lies in the pool, so it is gone with it.
\<close>

section \<open>State\<close>

text \<open>The argument is the variable \<open>job1\<close> of the worker.\<close>

datatype wpc =
    W_Lock | W_Check | W_Sleep | W_Woken | W_Take
  | W_Run "addr option" | W_Unlock "addr option" | W_Lock2 "addr option" | W_Finish "addr option"
  | W_Unlock2 | W_Exit | W_Unlock3 | W_Gone

datatype cpc =
    C_Idle
  | C_AddLock addr | C_Append addr | C_AddUnlock
  | C_WaitLock | C_WaitCheck | C_WaitSleep | C_WaitWoken | C_WaitUnlock
  | C_DestLock | C_DestSet | C_DestCheck | C_DestSleep | C_DestWoken | C_DestUnlock | C_Free | C_Done

text \<open>
  \<open>ran\<close> is the sequence of calls \<open>myfunc(arg)\<close> the workers made, \<open>added\<close> the sequence in
  which jobs were linked into the list.
\<close>

record sys =
  s_heap :: heap
  s_pool :: "tpool option"
  workers :: "wpc list"
  clients :: "cpc list"
  ran :: "(nat \<times> nat) list"
  added :: "(nat \<times> nat) list"

definition w_at :: "nat \<Rightarrow> wpc \<Rightarrow> sys \<Rightarrow> sys" where
  "w_at i pc s = s\<lparr>workers := (workers s)[i := pc]\<rparr>"

definition c_at :: "nat \<Rightarrow> cpc \<Rightarrow> sys \<Rightarrow> sys" where
  "c_at i pc s = s\<lparr>clients := (clients s)[i := pc]\<rparr>"

section \<open>The mutex and the condition variables\<close>

text \<open>\<open>pthread_mutex_lock\<close> can be taken only when the mutex is free.\<close>

definition acquire :: "thr \<Rightarrow> sys \<Rightarrow> sys option" where
  "acquire t s = do {
     p \<leftarrow> s_pool s;
     (if mylock p = None then Some (s\<lparr>s_pool := Some (p\<lparr>mylock := Some t\<rparr>)\<rparr>) else None) }"

text \<open>\<open>pthread_mutex_unlock\<close> is defined for the holder only.\<close>

definition release :: "thr \<Rightarrow> sys \<Rightarrow> sys option" where
  "release t s = do {
     p \<leftarrow> s_pool s;
     (if mylock p = Some t then Some (s\<lparr>s_pool := Some (p\<lparr>mylock := None\<rparr>)\<rparr>) else None) }"

definition broadcast_A :: "sys \<Rightarrow> sys" where
  "broadcast_A s = s\<lparr>workers := map (\<lambda>pc. if pc = W_Sleep then W_Woken else pc) (workers s)\<rparr>"

text \<open>A signal wakes one sleeper, \<open>c\<close>, when there is one. Only clients sleep on \<open>Bcond\<close> and
  \<open>Ccond\<close>.\<close>

definition signal_cond :: "cpc \<Rightarrow> cpc \<Rightarrow> nat \<Rightarrow> sys \<Rightarrow> sys option" where
  "signal_cond asleep awake c s =
     (if asleep \<notin> set (clients s) then Some s
      else if c < length (clients s) \<and> clients s ! c = asleep then Some (c_at c awake s)
      else None)"

section \<open>\<open>eachthread\<close>\<close>

definition w_check :: "nat \<Rightarrow> sys \<Rightarrow> sys option" where
  "w_check i s = do {
     p \<leftarrow> s_pool s;
     (if shutdown p = 0 \<and> pool_head p = None
      then do { s \<leftarrow> release (Worker i) s; Some (w_at i W_Sleep s) }
      else if shutdown p = 1 then Some (w_at i W_Exit s)
      else Some (w_at i W_Take s)) }"

definition w_take :: "nat \<Rightarrow> sys \<Rightarrow> sys option" where
  "w_take i s = do {
     p \<leftarrow> s_pool s;
     (job1, h, p) \<leftarrow> take_job (s_heap s, p);
     Some (w_at i (W_Run job1) (s\<lparr>s_heap := h, s_pool := Some p\<rparr>)) }"

definition w_run :: "nat \<Rightarrow> addr option \<Rightarrow> sys \<Rightarrow> sys option" where
  "w_run i job1 s =
     (if job1 \<noteq> None
      then do {
        j \<leftarrow> heap_get (s_heap s) job1;
        Some (w_at i (W_Unlock job1) (s\<lparr>ran := ran s @ [(j_myfunc j, j_arg j)]\<rparr>)) }
      else Some (w_at i (W_Unlock job1) s))"

definition w_finish :: "nat \<Rightarrow> addr option \<Rightarrow> nat \<Rightarrow> sys \<Rightarrow> sys option" where
  "w_finish i job1 c s = do {
     p \<leftarrow> s_pool s;
     s \<leftarrow> (case job1 of
         Some a \<Rightarrow> do {
           h \<leftarrow> heap_free (s_heap s) a;
           Some (s\<lparr>s_heap := h, s_pool := Some (p\<lparr>jc := jc p - 1\<rparr>)\<rparr>) }
       | None \<Rightarrow> Some s);
     p \<leftarrow> s_pool s;
     s \<leftarrow> (if jc p = 0 \<and> pool_head p = None then signal_cond C_WaitSleep C_WaitWoken c s else Some s);
     Some (w_at i W_Unlock2 s) }"

definition w_exit :: "nat \<Rightarrow> nat \<Rightarrow> sys \<Rightarrow> sys option" where
  "w_exit i c s = do {
     p \<leftarrow> s_pool s;
     s \<leftarrow> signal_cond C_DestSleep C_DestWoken c (s\<lparr>s_pool := Some (p\<lparr>tc := tc p - 1\<rparr>)\<rparr>);
     Some (w_at i W_Unlock3 s) }"

text \<open>The next step of worker \<open>i\<close>; \<open>None\<close> when it is blocked.\<close>

definition eachthread :: "nat \<Rightarrow> nat \<Rightarrow> sys \<Rightarrow> sys option" where
  "eachthread i c s = (case workers s ! i of
       W_Lock \<Rightarrow> do { s \<leftarrow> acquire (Worker i) s; Some (w_at i W_Check s) }
     | W_Check \<Rightarrow> w_check i s
     | W_Sleep \<Rightarrow> None
     | W_Woken \<Rightarrow> do { s \<leftarrow> acquire (Worker i) s; Some (w_at i W_Check s) }
     | W_Take \<Rightarrow> w_take i s
     | W_Run job1 \<Rightarrow> w_run i job1 s
     | W_Unlock job1 \<Rightarrow> do { s \<leftarrow> release (Worker i) s; Some (w_at i (W_Lock2 job1) s) }
     | W_Lock2 job1 \<Rightarrow> do { s \<leftarrow> acquire (Worker i) s; Some (w_at i (W_Finish job1) s) }
     | W_Finish job1 \<Rightarrow> w_finish i job1 c s
     | W_Unlock2 \<Rightarrow> do { s \<leftarrow> release (Worker i) s; Some (w_at i W_Lock s) }
     | W_Exit \<Rightarrow> w_exit i c s
     | W_Unlock3 \<Rightarrow> do { s \<leftarrow> release (Worker i) s; Some (w_at i W_Gone s) }
     | W_Gone \<Rightarrow> None)"

section \<open>The calls of the clients\<close>

text \<open>\<open>tpool_add\<close>: the job is allocated and filled before the mutex is taken.\<close>

definition add_begin :: "nat \<Rightarrow> nat \<Rightarrow> nat \<Rightarrow> sys \<Rightarrow> sys" where
  "add_begin i func arg s =
     c_at i (C_AddLock (length (s_heap s)))
       (s\<lparr>s_heap := s_heap s @ [Some \<lparr>j_next = None, j_myfunc = func, j_arg = arg\<rparr>]\<rparr>)"

definition add_link :: "nat \<Rightarrow> addr \<Rightarrow> sys \<Rightarrow> sys option" where
  "add_link i job1 s = do {
     p \<leftarrow> s_pool s;
     (h, p) \<leftarrow> append_job job1 (s_heap s, p);
     s \<leftarrow> Some (s\<lparr>s_heap := h, s_pool := Some p, added := added s @ [payload h job1]\<rparr>);
     Some (c_at i C_AddUnlock (broadcast_A s)) }"

definition tpool_add :: "nat \<Rightarrow> sys \<Rightarrow> sys option" where
  "tpool_add i s = (case clients s ! i of
       C_AddLock job1 \<Rightarrow> do { s \<leftarrow> acquire (Client i) s; Some (c_at i (C_Append job1) s) }
     | C_Append job1 \<Rightarrow> add_link i job1 s
     | C_AddUnlock \<Rightarrow> do { s \<leftarrow> release (Client i) s; Some (c_at i C_Idle s) }
     | _ \<Rightarrow> None)"

definition wait_check :: "nat \<Rightarrow> sys \<Rightarrow> sys option" where
  "wait_check i s = do {
     p \<leftarrow> s_pool s;
     (if pool_head p \<noteq> None \<or> jc p \<noteq> 0
      then do { s \<leftarrow> release (Client i) s; Some (c_at i C_WaitSleep s) }
      else Some (c_at i C_WaitUnlock s)) }"

definition tpool_wait :: "nat \<Rightarrow> sys \<Rightarrow> sys option" where
  "tpool_wait i s = (case clients s ! i of
       C_WaitLock \<Rightarrow> do { s \<leftarrow> acquire (Client i) s; Some (c_at i C_WaitCheck s) }
     | C_WaitCheck \<Rightarrow> wait_check i s
     | C_WaitWoken \<Rightarrow> do { s \<leftarrow> acquire (Client i) s; Some (c_at i C_WaitCheck s) }
     | C_WaitUnlock \<Rightarrow> do { s \<leftarrow> release (Client i) s; Some (c_at i C_Idle s) }
     | _ \<Rightarrow> None)"

definition dest_check :: "nat \<Rightarrow> sys \<Rightarrow> sys option" where
  "dest_check i s = do {
     p \<leftarrow> s_pool s;
     (if tc p \<noteq> 0
      then do { s \<leftarrow> release (Client i) s; Some (c_at i C_DestSleep s) }
      else Some (c_at i C_DestUnlock s)) }"

definition wait2 :: "nat \<Rightarrow> sys \<Rightarrow> sys option" where
  "wait2 i s = (case clients s ! i of
       C_DestLock \<Rightarrow> do { s \<leftarrow> acquire (Client i) s; Some (c_at i C_DestSet s) }
     | C_DestSet \<Rightarrow> do {
         p \<leftarrow> s_pool s;
         Some (c_at i C_DestCheck (broadcast_A (s\<lparr>s_pool := Some (p\<lparr>shutdown := 1\<rparr>)\<rparr>))) }
     | C_DestCheck \<Rightarrow> dest_check i s
     | C_DestWoken \<Rightarrow> do { s \<leftarrow> acquire (Client i) s; Some (c_at i C_DestCheck s) }
     | C_DestUnlock \<Rightarrow> do { s \<leftarrow> release (Client i) s; Some (c_at i C_Free s) }
     | _ \<Rightarrow> None)"

text \<open>To destroy a mutex that is held or a condition variable somebody sleeps on is undefined.\<close>

definition tpool_destroy :: "nat \<Rightarrow> sys \<Rightarrow> sys option" where
  "tpool_destroy i s = (case clients s ! i of
       C_Free \<Rightarrow> do {
         p \<leftarrow> s_pool s;
         (if mylock p = None \<and> W_Sleep \<notin> set (workers s) \<and>
            C_WaitSleep \<notin> set (clients s) \<and> C_DestSleep \<notin> set (clients s)
          then Some (c_at i C_Done (s\<lparr>s_pool := None\<rparr>)) else None) }
     | _ \<Rightarrow> wait2 i s)"

definition client_next :: "nat \<Rightarrow> sys \<Rightarrow> sys option" where
  "client_next i s = (case clients s ! i of
       C_Idle \<Rightarrow> None | C_Done \<Rightarrow> None
     | C_AddLock job1 \<Rightarrow> tpool_add i s | C_Append job1 \<Rightarrow> tpool_add i s | C_AddUnlock \<Rightarrow> tpool_add i s
     | C_WaitLock \<Rightarrow> tpool_wait i s | C_WaitCheck \<Rightarrow> tpool_wait i s | C_WaitSleep \<Rightarrow> tpool_wait i s
     | C_WaitWoken \<Rightarrow> tpool_wait i s | C_WaitUnlock \<Rightarrow> tpool_wait i s
     | _ \<Rightarrow> tpool_destroy i s)"

definition tpool_init :: "nat \<Rightarrow> nat \<Rightarrow> sys" where
  "tpool_init n_threads m = \<lparr>s_heap = [],
     s_pool = Some \<lparr>jc = 0, tc = int n_threads, shutdown = 0, mylock = None,
       pool_head = None, pool_tail = None\<rparr>,
     workers = replicate n_threads W_Lock, clients = replicate m C_Idle, ran = [], added = []\<rparr>"

section \<open>The system\<close>

definition closing :: "cpc \<Rightarrow> bool" where
  "closing pc \<longleftrightarrow> pc \<in> {C_DestLock, C_DestSet, C_DestCheck, C_DestSleep, C_DestWoken, C_DestUnlock, C_Free, C_Done}"

text \<open>
  The threads take their steps within calls (\<open>inner\<close>); a client that is in no call may begin one,
  where \<open>tpool_destroy\<close> is begun when no other client is in a call, and nothing after it; a
  sleeper may wake up without a signal.
\<close>

inductive inner :: "sys \<Rightarrow> sys \<Rightarrow> bool" where
  worker: "\<lbrakk>i < length (workers s); eachthread i c s = Some s'\<rbrakk> \<Longrightarrow> inner s s'"
| client: "\<lbrakk>i < length (clients s); client_next i s = Some s'\<rbrakk> \<Longrightarrow> inner s s'"

inductive pool_step :: "sys \<Rightarrow> sys \<Rightarrow> bool" where
  step: "inner s s' \<Longrightarrow> pool_step s s'"
| add: "\<lbrakk>i < length (clients s); clients s ! i = C_Idle; \<not> list_ex closing (clients s)\<rbrakk> \<Longrightarrow>
    pool_step s (add_begin i func arg s)"
| wait: "\<lbrakk>i < length (clients s); clients s ! i = C_Idle; \<not> list_ex closing (clients s)\<rbrakk> \<Longrightarrow>
    pool_step s (c_at i C_WaitLock s)"
| destroy: "\<lbrakk>i < length (clients s); \<forall>pc \<in> set (clients s). pc = C_Idle\<rbrakk> \<Longrightarrow>
    pool_step s (c_at i C_DestLock s)"
| wake_A: "\<lbrakk>i < length (workers s); workers s ! i = W_Sleep\<rbrakk> \<Longrightarrow> pool_step s (w_at i W_Woken s)"
| wake_B: "\<lbrakk>i < length (clients s); clients s ! i = C_WaitSleep\<rbrakk> \<Longrightarrow> pool_step s (c_at i C_WaitWoken s)"
| wake_C: "\<lbrakk>i < length (clients s); clients s ! i = C_DestSleep\<rbrakk> \<Longrightarrow> pool_step s (c_at i C_DestWoken s)"

inductive_cases innerE: "inner s s'"
inductive_cases pool_stepE: "pool_step s s'"

end
