(* ===== verification/Pool_Inv.thy ===== *)
theory Pool_Inv
  imports Pool_Sys "HOL-Library.Multiset" "HOL-Library.Sublist"
begin

text \<open>
  The invariant of the thread pool: who holds the mutex, which thread owns which block of the
  heap, what the counters \<open>jc\<close> and \<open>tc\<close> count, how the jobs run so far, the one running and the
  queued ones make up the jobs added, and what a sleeping thread may rely on.
\<close>

section \<open>Sums over the threads\<close>

lemma nth_upd_Some: "i < length xs \<Longrightarrow> k < length xs \<Longrightarrow> xs[i := v] ! k = (if k = i then v else xs ! k)"
  by simp

lemma sum_list_split:
  fixes f :: "'a \<Rightarrow> 'b :: comm_monoid_add"
  assumes "i < length xs"
  obtains R where "sum_list (map f xs) = f (xs ! i) + R" and "\<And>v. sum_list (map f (xs[i := v])) = f v + R"
proof -
  have "\<exists>R. sum_list (map f xs) = f (xs ! i) + R \<and> (\<forall>v. sum_list (map f (xs[i := v])) = f v + R)"
    using assms
  proof (induction xs arbitrary: i)
    case (Cons x xs)
    show ?case
    proof (cases i)
      case 0
      then show ?thesis by (intro exI [of _ "sum_list (map f xs)"]) simp
    next
      case (Suc k)
      with Cons obtain R where "sum_list (map f xs) = f (xs ! k) + R"
        "\<forall>v. sum_list (map f (xs[k := v])) = f v + R" by auto
      then show ?thesis using Suc by (intro exI [of _ "f x + R"]) (simp add: add.left_commute)
    qed
  qed simp
  with that show ?thesis by blast
qed

lemma list_ex_upd: "i < length xs \<Longrightarrow> P v = P (xs ! i) \<Longrightarrow> list_ex P (xs[i := v]) = list_ex P xs"
  unfolding list_ex_length by (metis length_list_update nth_list_update_eq nth_list_update_neq)

section \<open>What a control point says\<close>

fun w_held :: "wpc \<Rightarrow> addr multiset" where
  "w_held (W_Run (Some a)) = {#a#}"
| "w_held (W_Unlock (Some a)) = {#a#}"
| "w_held (W_Lock2 (Some a)) = {#a#}"
| "w_held (W_Finish (Some a)) = {#a#}"
| "w_held _ = {#}"

fun c_held :: "cpc \<Rightarrow> addr multiset" where
  "c_held (C_AddLock a) = {#a#}"
| "c_held (C_Append a) = {#a#}"
| "c_held _ = {#}"

fun w_crit :: "wpc \<Rightarrow> bool" where
  "w_crit W_Check = True" | "w_crit W_Take = True" | "w_crit (W_Run x) = True"
| "w_crit (W_Unlock x) = True" | "w_crit (W_Finish x) = True" | "w_crit W_Unlock2 = True"
| "w_crit W_Exit = True" | "w_crit W_Unlock3 = True" | "w_crit _ = False"

fun c_crit :: "cpc \<Rightarrow> bool" where
  "c_crit (C_Append a) = True" | "c_crit C_AddUnlock = True" | "c_crit C_WaitCheck = True"
| "c_crit C_WaitUnlock = True" | "c_crit C_DestSet = True" | "c_crit C_DestCheck = True"
| "c_crit C_DestUnlock = True" | "c_crit _ = False"

definition w_alive :: "wpc \<Rightarrow> int" where
  "w_alive pc = (if pc = W_Unlock3 \<or> pc = W_Gone then 0 else 1)"

definition w_leaving :: "wpc \<Rightarrow> bool" where
  "w_leaving pc \<longleftrightarrow> pc = W_Exit \<or> pc = W_Unlock3 \<or> pc = W_Gone"

definition c_shut :: "cpc \<Rightarrow> bool" where
  "c_shut pc \<longleftrightarrow> pc = C_DestCheck \<or> pc = C_DestSleep \<or> pc = C_DestWoken \<or> pc = C_DestUnlock \<or> pc = C_Free"

definition c_last :: "cpc \<Rightarrow> bool" where
  "c_last pc \<longleftrightarrow> pc = C_DestUnlock \<or> pc = C_Free"

definition w_ok :: "tpool \<Rightarrow> nat \<Rightarrow> wpc \<Rightarrow> bool" where
  "w_ok p i pc \<longleftrightarrow> (w_crit pc \<longleftrightarrow> mylock p = Some (Worker i)) \<and>
     (pc = W_Sleep \<longrightarrow> pool_head p = None \<and> shutdown p = 0) \<and>
     (pc = W_Take \<longrightarrow> pool_head p \<noteq> None \<and> shutdown p = 0) \<and>
     (w_leaving pc \<longrightarrow> shutdown p = 1) \<and>
     pc \<noteq> W_Run None \<and> pc \<noteq> W_Unlock None \<and> pc \<noteq> W_Lock2 None \<and> pc \<noteq> W_Finish None"

definition c_ok :: "tpool \<Rightarrow> nat \<Rightarrow> cpc \<Rightarrow> bool" where
  "c_ok p i pc \<longleftrightarrow> (c_crit pc \<longleftrightarrow> mylock p = Some (Client i)) \<and>
     (c_shut pc \<longrightarrow> shutdown p = 1) \<and>
     (pc = C_WaitUnlock \<longrightarrow> pool_head p = None \<and> jc p = 0) \<and>
     pc \<noteq> C_Done"

text \<open>The call that the holder of the mutex is about to make.\<close>

definition running :: "heap \<Rightarrow> tpool \<Rightarrow> wpc list \<Rightarrow> (nat \<times> nat) list" where
  "running h p ws = (case mylock p of
     Some (Worker i) \<Rightarrow> (case ws ! i of W_Run (Some a) \<Rightarrow> [payload h a] | _ \<Rightarrow> [])
   | _ \<Rightarrow> [])"

definition holder_in :: "tpool \<Rightarrow> wpc list \<Rightarrow> cpc list \<Rightarrow> bool" where
  "holder_in p ws cl \<longleftrightarrow> (case mylock p of None \<Rightarrow> True
     | Some (Worker i) \<Rightarrow> i < length ws | Some (Client i) \<Rightarrow> i < length cl)"

lemma holder_in_upd [simp]:
  "holder_in p (ws[i := v]) cl = holder_in p ws cl" "holder_in p ws (cl[i := u]) = holder_in p ws cl"
  "holder_in p (map f ws) cl = holder_in p ws cl"
  by (auto simp: holder_in_def split: option.split thr.split)

definition owners :: "heap \<Rightarrow> tpool \<Rightarrow> wpc list \<Rightarrow> cpc list \<Rightarrow> bool" where
  "owners h p ws cl \<longleftrightarrow>
     mset (jobs (h, p)) + sum_list (map w_held ws) + sum_list (map c_held cl) = mset_set (live h) \<and>
     (\<forall>a \<in># sum_list (map c_held cl). \<exists>j. heap_get h (Some a) = Some j \<and> j_next j = None)"

definition one_closing :: "cpc list \<Rightarrow> bool" where
  "one_closing cl \<longleftrightarrow>
     (\<forall>i < length cl. closing (cl ! i) \<longrightarrow> (\<forall>k < length cl. k \<noteq> i \<longrightarrow> cl ! k = C_Idle))"

definition last_ok :: "wpc list \<Rightarrow> cpc list \<Rightarrow> bool" where
  "last_ok ws cl \<longleftrightarrow> (list_ex c_last cl \<longrightarrow> (\<forall>i < length ws. ws ! i = W_Gone))"

definition core ::
  "heap \<Rightarrow> tpool \<Rightarrow> wpc list \<Rightarrow> cpc list \<Rightarrow> (nat \<times> nat) list \<Rightarrow> (nat \<times> nat) list \<Rightarrow> bool" where
  "core h p ws cl r ad \<longleftrightarrow>
     (\<forall>i < length ws. w_ok p i (ws ! i)) \<and> (\<forall>i < length cl. c_ok p i (cl ! i)) \<and>
     holder_in p ws cl \<and> jobs_ok (h, p) \<and> owners h p ws cl \<and>
     jc p = int (size (sum_list (map w_held ws))) \<and> tc p = sum_list (map w_alive ws) \<and>
     ad = r @ running h p ws @ map (payload h) (jobs (h, p)) \<and>
     (shutdown p = 0 \<or> shutdown p = 1 \<and> list_ex c_shut cl) \<and> one_closing cl \<and> last_ok ws cl"

definition pool_ended :: "sys \<Rightarrow> bool" where
  "pool_ended s \<longleftrightarrow> (\<forall>pc \<in> set (workers s). pc = W_Gone) \<and>
     (\<exists>i < length (clients s). clients s ! i = C_Done \<and>
        (\<forall>k < length (clients s). k \<noteq> i \<longrightarrow> clients s ! k = C_Idle)) \<and>
     card (live (s_heap s)) + length (ran s) = length (added s)"

definition pool_inv :: "sys \<Rightarrow> bool" where
  "pool_inv s \<longleftrightarrow> (case s_pool s of None \<Rightarrow> pool_ended s
     | Some p \<Rightarrow> core (s_heap s) p (workers s) (clients s) (ran s) (added s))"

lemma pool_invI: "s_pool s = Some p \<Longrightarrow> core (s_heap s) p (workers s) (clients s) (ran s) (added s) \<Longrightarrow> pool_inv s"
  by (simp add: pool_inv_def)

lemma sum_list_empties [simp]: "sum_list (replicate k {#}) = {#}"
  by (induction k) auto

lemma pool_init_inv: "pool_inv (tpool_init n m)"
  by (simp add: pool_inv_def tpool_init_def core_def w_ok_def c_ok_def w_leaving_def c_shut_def
      c_last_def last_ok_def list_ex_iff holder_in_def jobs_ok_def owners_def jobs_def live_def running_def one_closing_def
      closing_def w_alive_def sum_list_replicate)

section \<open>Moves that leave the list of jobs alone\<close>

text \<open>A worker takes or gives back the mutex, or moves on while it holds it.\<close>

lemma jobs_mylock [simp]:
  "jobs_ok (h, p\<lparr>mylock := x\<rparr>) = jobs_ok (h, p)" "jobs (h, p\<lparr>mylock := x\<rparr>) = jobs (h, p)"
  "jobs_ok (h, p\<lparr>jc := y\<rparr>) = jobs_ok (h, p)" "jobs (h, p\<lparr>jc := y\<rparr>) = jobs (h, p)"
  "jobs_ok (h, p\<lparr>tc := y\<rparr>) = jobs_ok (h, p)" "jobs (h, p\<lparr>tc := y\<rparr>) = jobs (h, p)"
  "jobs_ok (h, p\<lparr>shutdown := y\<rparr>) = jobs_ok (h, p)" "jobs (h, p\<lparr>shutdown := y\<rparr>) = jobs (h, p)"
  by (simp_all add: jobs_ok_def jobs_def)

lemma same_sum:
  fixes f :: "'a \<Rightarrow> 'b :: comm_monoid_add"
  assumes "i < length xs" and "f v = f (xs ! i)"
  shows "sum_list (map f (xs[i := v])) = sum_list (map f xs)"
  using assms by (metis list_update_id map_update)

lemma last_ok_upd: "last_ok ws cl \<Longrightarrow> i < length ws \<Longrightarrow> ws ! i \<noteq> W_Gone \<Longrightarrow> last_ok (ws[i := pc]) cl"
  by (auto simp: last_ok_def)

lemma core_worker_move:
  assumes c: "core h p ws cl r ad" and i: "i < length ws"
    and same: "w_held pc = w_held (ws ! i)" "w_alive pc = w_alive (ws ! i)"
    and holder: "mylock p = None \<or> mylock p = Some (Worker i)"
    and x: "x = (if w_crit pc then Some (Worker i) else None)"
    and ok: "w_ok (p\<lparr>mylock := x\<rparr>) i pc"
    and run: "\<And>y. pc \<noteq> W_Run y" "\<And>y. ws ! i \<noteq> W_Run y" "ws ! i \<noteq> W_Gone"
  shows "core h (p\<lparr>mylock := x\<rparr>) (ws[i := pc]) cl r ad"
proof -
  have "w_ok (p\<lparr>mylock := x\<rparr>) k (ws[i := pc] ! k)" if "k < length ws" for k
    using c that i ok holder x by (auto simp: core_def w_ok_def nth_list_update)
  moreover have "c_ok (p\<lparr>mylock := x\<rparr>) k (cl ! k)" if "k < length cl" for k
    using c that holder x by (auto simp: core_def c_ok_def)
  moreover have "running h p ws = []" "running h (p\<lparr>mylock := x\<rparr>) (ws[i := pc]) = []"
    using holder x i run by (auto simp: running_def split: wpc.splits)
  moreover have "last_ok (ws[i := pc]) cl"
    using c i run(3) by (intro last_ok_upd) (auto simp: core_def)
  moreover have "holder_in (p\<lparr>mylock := x\<rparr>) (ws[i := pc]) cl"
    using i x by (simp add: holder_in_def)
  ultimately show ?thesis
    using c same_sum [OF i same(1)] same_sum [OF i same(2)]
    by (simp add: core_def owners_def)
qed

lemma one_closing_upd:
  assumes one: "one_closing cl" and i: "i < length cl" and pc: "closing pc \<Longrightarrow> closing (cl ! i)"
    and busy: "cl ! i \<noteq> C_Idle"
  shows "one_closing (cl[i := pc])"
  unfolding one_closing_def
proof (intro allI impI)
  fix k l assume a: "k < length (cl[i := pc])" "closing (cl[i := pc] ! k)"
    "l < length (cl[i := pc])" "l \<noteq> k"
  show "cl[i := pc] ! l = C_Idle"
  proof (cases "k = i")
    case True
    with a(2) i have "closing pc" by simp
    then have "closing (cl ! i)" by (rule pc)
    moreover have "l < length cl" "l \<noteq> i" using a True by simp_all
    ultimately have "cl ! l = C_Idle" using one i unfolding one_closing_def by blast
    then show ?thesis using a True by simp
  next
    case False
    with a have "closing (cl ! k)" "k < length cl" by simp_all
    with one i False have "cl ! i = C_Idle" unfolding one_closing_def by metis
    with busy show ?thesis by contradiction
  qed
qed

lemma core_client_move:
  assumes c: "core h p ws cl r ad" and i: "i < length cl"
    and same: "c_held pc = c_held (cl ! i)" "c_shut pc = c_shut (cl ! i)"
      "closing pc = closing (cl ! i)" "cl ! i \<noteq> C_Idle" 
    and holder: "mylock p = None \<or> mylock p = Some (Client i)"
    and x: "x = (if c_crit pc then Some (Client i) else None)"
    and ok: "c_ok (p\<lparr>mylock := x\<rparr>) i pc"
    and last: "c_last pc \<Longrightarrow> (\<forall>i < length ws. ws ! i = W_Gone)"
  shows "core h (p\<lparr>mylock := x\<rparr>) ws (cl[i := pc]) r ad"
proof -
  have "c_ok (p\<lparr>mylock := x\<rparr>) k (cl[i := pc] ! k)" if "k < length cl" for k
    using c that i ok holder x by (auto simp: core_def c_ok_def nth_list_update)
  moreover have "w_ok (p\<lparr>mylock := x\<rparr>) k (ws ! k)" if "k < length ws" for k
    using c that holder x by (auto simp: core_def w_ok_def)
  moreover have "running h p ws = []" "running h (p\<lparr>mylock := x\<rparr>) ws = []"
    using holder x by (auto simp: running_def)
  moreover have "list_ex c_shut (cl[i := pc]) = list_ex c_shut cl"
    by (rule list_ex_upd [OF i same(2)])
  moreover have "last_ok ws (cl[i := pc])"
    using c i last unfolding core_def last_ok_def list_ex_length
    by (metis length_list_update nth_list_update_eq nth_list_update_neq)
  moreover have "one_closing (cl[i := pc])"
    using c i same(3,4) by (intro one_closing_upd) (auto simp: core_def)
  moreover have "sum_list (map c_held (cl[i := pc])) = sum_list (map c_held cl)"
    by (rule same_sum [OF i same(1)])
  moreover have "holder_in (p\<lparr>mylock := x\<rparr>) ws (cl[i := pc])"
    using i x by (simp add: holder_in_def)
  ultimately show ?thesis
    using c by (simp add: core_def owners_def)
qed

section \<open>The steps of a worker on the jobs\<close>

lemma core_w: "core h p ws cl r ad \<Longrightarrow> i < length ws \<Longrightarrow> w_ok p i (ws ! i)"
  and core_c: "core h p ws cl r ad \<Longrightarrow> i < length cl \<Longrightarrow> c_ok p i (cl ! i)"
  by (simp_all add: core_def)

lemma core_holder:
  assumes "core h p ws cl r ad"
  shows "i < length ws \<Longrightarrow> w_crit (ws ! i) \<longleftrightarrow> mylock p = Some (Worker i)"
    and "i < length cl \<Longrightarrow> c_crit (cl ! i) \<longleftrightarrow> mylock p = Some (Client i)"
  using core_w [OF assms] core_c [OF assms] by (simp_all add: w_ok_def c_ok_def)

lemma core_held_live:
  assumes c: "core h p ws cl r ad" and i: "i < length ws" and a: "a \<in># w_held (ws ! i)"
  shows "a \<in> live h"
proof -
  obtain R where "sum_list (map w_held ws) = w_held (ws ! i) + R"
    using sum_list_split [OF i, of w_held] by blast
  then have "a \<in># mset (jobs (h, p)) + sum_list (map w_held ws) + sum_list (map c_held cl)"
    using a by simp
  moreover have "mset (jobs (h, p)) + sum_list (map w_held ws) + sum_list (map c_held cl) = mset_set (live h)"
    using c by (simp add: core_def owners_def)
  ultimately have "a \<in># mset_set (live h)" by simp
  then show ?thesis by simp
qed

lemma core_take:
  assumes c: "core h p ws cl r ad" and i: "i < length ws" and pc: "ws ! i = W_Take"
  shows "\<exists>a p'. take_job (h, p) = Some (Some a, h, p') \<and> core h p' (ws[i := W_Run (Some a)]) cl r ad \<and>
     mylock p' = mylock p"
proof -
  have ok: "jobs_ok (h, p)" and head: "pool_head p \<noteq> None" and m: "mylock p = Some (Worker i)"
    using c core_w [OF c i] pc by (auto simp: core_def w_ok_def)
  obtain a as where js: "jobs (h, p) = a # as"
    using jobs_empty [OF ok] head by (cases "jobs (h, p)") auto
  obtain hd tl where t: "take_job (h, p) = Some (Some a, h, p\<lparr>pool_head := hd, pool_tail := tl, jc := jc p + 1\<rparr>)"
    and ok': "jobs_ok (h, p\<lparr>pool_head := hd, pool_tail := tl, jc := jc p + 1\<rparr>)"
    and js': "jobs (h, p\<lparr>pool_head := hd, pool_tail := tl, jc := jc p + 1\<rparr>) = as"
    using take_job_ok [OF ok js] by blast
  let ?p = "p\<lparr>pool_head := hd, pool_tail := tl, jc := jc p + 1\<rparr>"
  have w: "w_ok ?p k (ws[i := W_Run (Some a)] ! k)" if k: "k < length ws" for k
    using core_w [OF c k] core_w [OF c i] m head pc k i
    by (auto simp: w_ok_def nth_list_update w_leaving_def)
  have cl: "c_ok ?p k (cl ! k)" if k: "k < length cl" for k
    using core_c [OF c k] m by (auto simp: c_ok_def)
  obtain R where "sum_list (map w_held ws) = w_held (ws ! i) + R" "\<And>v. sum_list (map w_held (ws[i := v])) = w_held v + R"
    using sum_list_split [OF i, of w_held] by blast
  then have R: "sum_list (map w_held ws) = R" "sum_list (map w_held (ws[i := W_Run (Some a)])) = {#a#} + R"
    using pc by simp_all
  have last: "last_ok (ws[i := W_Run (Some a)]) cl"
    using c i pc by (intro last_ok_upd) (auto simp: core_def)
  have alive: "sum_list (map w_alive (ws[i := W_Run (Some a)])) = sum_list (map w_alive ws)"
    using i pc by (intro same_sum) (auto simp: w_alive_def)
  have run: "running h p ws = []" "running h ?p (ws[i := W_Run (Some a)]) = [payload h a]"
    using m pc i by (simp_all add: running_def)
  have "core h ?p (ws[i := W_Run (Some a)]) cl r ad"
    using c w cl alive run js ok' js' R last
    by (simp add: core_def owners_def holder_in_def m i)
  with t show ?thesis by (intro exI [of _ a] exI [of _ ?p]) simp
qed

lemma core_run:
  assumes c: "core h p ws cl r ad" and i: "i < length ws" and pc: "ws ! i = W_Run (Some a)"
  shows "\<exists>j. heap_get h (Some a) = Some j \<and>
     core h p (ws[i := W_Unlock (Some a)]) cl (r @ [(j_myfunc j, j_arg j)]) ad"
proof -
  have m: "mylock p = Some (Worker i)" using core_holder(1) [OF c i] pc by simp
  have held: "sum_list (map w_held (ws[i := W_Unlock (Some a)])) = sum_list (map w_held ws)"
    "sum_list (map w_alive (ws[i := W_Unlock (Some a)])) = sum_list (map w_alive ws)"
    using i pc by (auto intro!: same_sum simp: w_alive_def)
  have "a \<in> live h" using core_held_live [OF c i] pc by simp
  then obtain j where j: "heap_get h (Some a) = Some j" by (auto simp: live_get)
  have w: "w_ok p k (ws[i := W_Unlock (Some a)] ! k)" if k: "k < length ws" for k
    using core_w [OF c k] core_w [OF c i] m pc k i
    by (auto simp: w_ok_def nth_list_update w_leaving_def)
  have run: "running h p ws = [(j_myfunc j, j_arg j)]" "running h p (ws[i := W_Unlock (Some a)]) = []"
    using m pc i j by (simp_all add: running_def payload_def)
  have last: "last_ok (ws[i := W_Unlock (Some a)]) cl"
    using c i pc by (intro last_ok_upd) (auto simp: core_def)
  have "core h p (ws[i := W_Unlock (Some a)]) cl (r @ [(j_myfunc j, j_arg j)]) ad"
    using c w held run last by (simp add: core_def owners_def holder_in_def m i)
  with j show ?thesis by blast
qed

lemma core_exit:
  assumes c: "core h p ws cl r ad" and i: "i < length ws" and pc: "ws ! i = W_Exit"
  shows "core h (p\<lparr>tc := tc p - 1\<rparr>) (ws[i := W_Unlock3]) cl r ad"
proof -
  have m: "mylock p = Some (Worker i)" using core_holder(1) [OF c i] pc by simp
  have held: "sum_list (map w_held (ws[i := W_Unlock3])) = sum_list (map w_held ws)"
    using i pc by (auto intro!: same_sum)
  obtain R where "sum_list (map w_alive ws) = w_alive (ws ! i) + R" "\<And>v. sum_list (map w_alive (ws[i := v])) = w_alive v + R"
    using sum_list_split [OF i, of w_alive] by blast
  then have alive: "sum_list (map w_alive ws) = 1 + R" "sum_list (map w_alive (ws[i := W_Unlock3])) = R"
    using pc by (simp_all add: w_alive_def)
  have last: "last_ok (ws[i := W_Unlock3]) cl"
    using c i pc by (intro last_ok_upd) (auto simp: core_def)
  have w: "w_ok (p\<lparr>tc := tc p - 1\<rparr>) k (ws[i := W_Unlock3] ! k)" if k: "k < length ws" for k
    using core_w [OF c k] core_w [OF c i] m pc k i
    by (auto simp: w_ok_def nth_list_update w_leaving_def)
  have cl: "c_ok (p\<lparr>tc := tc p - 1\<rparr>) k (cl ! k)" if k: "k < length cl" for k
    using core_c [OF c k] by (simp add: c_ok_def)
  have run: "running h p ws = []" "running h (p\<lparr>tc := tc p - 1\<rparr>) (ws[i := W_Unlock3]) = []"
    using m pc i by (simp_all add: running_def)
  show ?thesis
    using c w cl held run alive last by (simp add: core_def owners_def holder_in_def m i)
qed

lemma mset_set_drop: "finite A \<Longrightarrow> M + {#a#} = mset_set A \<Longrightarrow> M = mset_set (A - {a}) \<and> a \<notin># M"
proof -
  assume A: "finite A" and M: "M + {#a#} = mset_set A"
  then have "a \<in> A" by (metis elem_mset_set union_iff multi_member_last)
  with A have "mset_set A = mset_set (A - {a}) + {#a#}" by (simp add: mset_set.remove)
  with M have "M = mset_set (A - {a})" by simp
  with A show ?thesis by simp
qed

lemma mset_set_disjoint:
  assumes "finite S" and "A + B = mset_set S" and "b \<in># A"
  shows "b \<notin># B"
proof
  assume "b \<in># B"
  with assms(3) have "2 \<le> count (A + B) b" by (simp add: Suc_leI flip: count_greater_zero_iff add_mono)
  moreover have "count (mset_set S) b \<le> 1" by (cases "b \<in> S"; cases "finite S") auto
  ultimately show False using assms(2) by simp
qed

lemma payload_get: "heap_get h' (Some a) = heap_get h (Some a) \<Longrightarrow> payload h' a = payload h a"
  by (simp add: payload_def)

lemma core_finish:
  assumes c: "core h p ws cl r ad" and i: "i < length ws" and pc: "ws ! i = W_Finish (Some a)"
  shows "heap_free h a = Some (h[a := None]) \<and>
     core (h[a := None]) (p\<lparr>jc := jc p - 1\<rparr>) (ws[i := W_Unlock2]) cl r ad"
proof -
  let ?h = "h[a := None]" let ?p = "p\<lparr>jc := jc p - 1\<rparr>" let ?ws = "ws[i := W_Unlock2]"
  have m: "mylock p = Some (Worker i)" using core_holder(1) [OF c i] pc by simp
  have "a \<in> live h" using core_held_live [OF c i] pc by simp
  then have free: "heap_free h a = Some ?h" by (auto simp: live_get heap_free_def)
  obtain R where "sum_list (map w_held ws) = w_held (ws ! i) + R" "\<And>v. sum_list (map w_held (ws[i := v])) = w_held v + R"
    using sum_list_split [OF i, of w_held] by blast
  then have R: "sum_list (map w_held ws) = {#a#} + R" "sum_list (map w_held ?ws) = R"
    using pc by simp_all
  let ?M = "mset (jobs (h, p)) + R + sum_list (map c_held cl)"
  have "?M + {#a#} = mset_set (live h)"
    using c R(1) by (simp add: core_def owners_def ac_simps)
  from mset_set_drop [OF finite_live this]
  have own: "?M = mset_set (live ?h)" and a: "a \<notin># ?M" unfolding live_free by blast+
  have jobs: "jobs_ok (?h, p)" "jobs (?h, p) = jobs (h, p)"
    using jobs_free [of h p a] a c by (auto simp: core_def)
  have get: "heap_get ?h (Some b) = heap_get h (Some b)" if "b \<noteq> a" for b
    using that by (auto simp: heap_get_def nth_upd)
  have pay: "map (payload ?h) (jobs (h, p)) = map (payload h) (jobs (h, p))"
    using a by (intro map_cong refl payload_get get) auto
  have "\<exists>j. heap_get ?h (Some b) = Some j \<and> j_next j = None" if b: "b \<in># sum_list (map c_held cl)" for b
  proof -
    have "b \<noteq> a" using a b by auto
    moreover have "\<exists>j. heap_get h (Some b) = Some j \<and> j_next j = None"
      using c b unfolding core_def owners_def by blast
    ultimately show ?thesis by (simp add: get)
  qed
  then have owners: "owners ?h ?p ?ws cl"
    using own jobs R(2) by (simp add: owners_def)
  have alive: "sum_list (map w_alive ?ws) = sum_list (map w_alive ws)"
    using i pc by (intro same_sum) (auto simp: w_alive_def)
  have w: "w_ok ?p k (?ws ! k)" if k: "k < length ws" for k
    using core_w [OF c k] core_w [OF c i] m pc k i
    by (auto simp: w_ok_def nth_list_update w_leaving_def)
  have cl: "c_ok ?p k (cl ! k)" if k: "k < length cl" for k
    using core_c [OF c k] m by (auto simp: c_ok_def)
  have run: "running h p ws = []" "running ?h ?p ?ws = []"
    using m pc i by (simp_all add: running_def)
  have last: "last_ok ?ws cl"
    using c i pc by (intro last_ok_upd) (auto simp: core_def)
  have "core ?h ?p ?ws cl r ad"
    using c w cl alive run last jobs pay owners R by (simp add: core_def holder_in_def m i)
  with free show ?thesis by blast
qed

section \<open>The steps of the clients on the jobs\<close>

lemma core_owned:
  assumes "core h p ws cl r ad"
  shows "mset (jobs (h, p)) + sum_list (map w_held ws) + sum_list (map c_held cl) = mset_set (live h)"
  using assms by (simp add: core_def owners_def)

text \<open>The heap grows or one of its blocks is relinked, which nobody else sees.\<close>

lemma running_payload:
  assumes c: "core h p ws cl r ad"
    and same: "\<And>a. a \<in> live h \<Longrightarrow> payload h' a = payload h a"
  shows "running h' p ws = running h p ws"
proof (cases "\<exists>i a. mylock p = Some (Worker i) \<and> ws ! i = W_Run (Some a)")
  case True
  then obtain i a where i: "mylock p = Some (Worker i)" "ws ! i = W_Run (Some a)" by blast
  then have "i < length ws" using c by (simp add: core_def holder_in_def)
  with i have "a \<in> live h" using core_held_live [OF c, of i a] by simp
  with i same show ?thesis by (simp add: running_def)
next
  case False
  then show ?thesis by (auto simp: running_def split: option.splits thr.splits wpc.splits)
qed

lemma core_add_begin:
  assumes c: "core h p ws cl r ad" and i: "i < length cl" and pc: "cl ! i = C_Idle"
    and j: "j_next j = None" and none: "\<not> list_ex closing cl"
  shows "core (h @ [Some j]) p ws (cl[i := C_AddLock (length h)]) r ad"
proof -
  let ?h = "h @ [Some j]" let ?cl = "cl[i := C_AddLock (length h)]"
  have m: "mylock p \<noteq> Some (Client i)" using core_holder(2) [OF c i] pc by auto
  have jobs: "jobs_ok (?h, p)" "jobs (?h, p) = jobs (h, p)"
    using jobs_malloc [of h p "Some j"] c by (auto simp: core_def)
  obtain R where "sum_list (map c_held cl) = c_held (cl ! i) + R" "\<And>v. sum_list (map c_held (cl[i := v])) = c_held v + R"
    using sum_list_split [OF i, of c_held] by blast
  then have R: "sum_list (map c_held cl) = R" "sum_list (map c_held ?cl) = {#length h#} + R"
    using pc by simp_all
  have notin: "length h \<notin> live h" by (simp add: live_def)
  have get: "heap_get ?h (Some b) = heap_get h (Some b)" if "b \<in> live h" for b
    using that by (auto simp: heap_get_def nth_append live_def)
  have own: "mset (jobs (h, p)) + sum_list (map w_held ws) + ({#length h#} + R) = mset_set (live ?h)"
    using core_owned [OF c] R(1) notin by (simp add: live_malloc)
  have "b \<in> live h" if "b \<in># R" for b
  proof -
    have "b \<in># mset_set (live h)" using that core_owned [OF c] R(1) by (metis union_iff)
    then show ?thesis by simp
  qed
  then have owners: "owners ?h p ws ?cl"
    using c own jobs get R j by (auto simp: core_def owners_def heap_get_def)
  have pay: "payload ?h b = payload h b" if "b \<in> live h" for b
    using get [OF that] by (rule payload_get)
  have "map (payload ?h) (jobs (h, p)) = map (payload h) (jobs (h, p))"
    using jobs_live [of h p] c pay by (intro map_cong refl) (auto simp: core_def)
  moreover have cl: "c_ok p k (?cl ! k)" if k: "k < length cl" for k
    using core_c [OF c k] m k i by (auto simp: c_ok_def nth_list_update c_shut_def)
  moreover have "list_ex c_shut ?cl = list_ex c_shut cl"
    using i pc by (intro list_ex_upd) (auto simp: c_shut_def)
  moreover have "last_ok ws ?cl"
    using c i by (auto simp: core_def last_ok_def list_ex_length nth_list_update c_last_def)
  moreover have "one_closing ?cl"
    using none i by (auto simp: one_closing_def list_ex_length nth_list_update closing_def)
  moreover have "holder_in p ws ?cl" using c by (simp add: core_def)
  moreover note running_payload [OF c pay]
  ultimately show ?thesis using c owners jobs by (simp add: core_def)
qed

text \<open>A broadcast wakes every worker that sleeps.\<close>

definition wake :: "wpc \<Rightarrow> wpc" where
  "wake pc = (if pc = W_Sleep then W_Woken else pc)"

lemma wake_same [simp]: "w_held (wake pc) = w_held pc" "w_alive (wake pc) = w_alive pc"
  "w_crit (wake pc) = w_crit pc" "w_leaving (wake pc) = w_leaving pc"
  by (auto simp: wake_def w_alive_def w_leaving_def)

lemma wake_neq [simp]: "wake pc \<noteq> W_Sleep" "wake pc = W_Take \<longleftrightarrow> pc = W_Take"
  "wake pc = W_Run x \<longleftrightarrow> pc = W_Run x" "wake pc = W_Unlock x \<longleftrightarrow> pc = W_Unlock x"
  "wake pc = W_Lock2 x \<longleftrightarrow> pc = W_Lock2 x" "wake pc = W_Finish x \<longleftrightarrow> pc = W_Finish x"
  "wake pc = W_Gone \<longleftrightarrow> pc = W_Gone"
  by (auto simp: wake_def)

lemma running_client [simp]: "mylock p = Some (Client i) \<Longrightarrow> running h p ws = []"
  by (simp add: running_def)

lemma core_add_link:
  assumes c: "core h p ws cl r ad" and i: "i < length cl" and pc: "cl ! i = C_Append a"
  shows "\<exists>h' p'. append_job a (h, p) = Some (h', p') \<and>
     core h' p' (map wake ws) (cl[i := C_AddUnlock]) r (ad @ [payload h' a])"
proof -
  let ?cl = "cl[i := C_AddUnlock]"
  have m: "mylock p = Some (Client i)" using core_holder(2) [OF c i] pc by simp
  have ok: "jobs_ok (h, p)" using c by (simp add: core_def)
  obtain R where "sum_list (map c_held cl) = c_held (cl ! i) + R" "\<And>v. sum_list (map c_held (cl[i := v])) = c_held v + R"
    using sum_list_split [OF i, of c_held] by blast
  then have R: "sum_list (map c_held cl) = {#a#} + R" "sum_list (map c_held ?cl) = R"
    using pc by simp_all
  let ?M = "mset (jobs (h, p)) + sum_list (map w_held ws) + R"
  have "?M + {#a#} = mset_set (live h)"
    using core_owned [OF c] R(1) by (simp add: ac_simps)
  note M = this and a = mset_set_drop [OF finite_live this, THEN conjunct2]
  have R_old: "b \<in># sum_list (map c_held cl)" if "b \<in># R" for b using that R(1) by simp
  have nxt: "\<exists>j. heap_get h (Some b) = Some j \<and> j_next j = None" if "b \<in># sum_list (map c_held cl)" for b
    using c that unfolding core_def owners_def by blast
  have "fresh_job a (h, p)" using a nxt [of a] R(1) by (auto simp: fresh_job_def)
  from append_job_ok [OF ok this] obtain h' hd tl where app:
    "append_job a (h, p) = Some (h', p\<lparr>pool_head := hd, pool_tail := tl\<rparr>)"
    "jobs_ok (h', p\<lparr>pool_head := hd, pool_tail := tl\<rparr>)"
    "jobs (h', p\<lparr>pool_head := hd, pool_tail := tl\<rparr>) = jobs (h, p) @ [a]"
    "payload h' = payload h" "live h' = live h" "hd \<noteq> None"
    "\<And>x. x \<notin> set (jobs (h, p)) \<Longrightarrow> heap_get h' (Some x) = heap_get h (Some x)" by blast
  let ?p = "p\<lparr>pool_head := hd, pool_tail := tl\<rparr>"
  have "\<exists>j. heap_get h' (Some b) = Some j \<and> j_next j = None" if b: "b \<in># R" for b
  proof -
    have "R + (mset (jobs (h, p)) + sum_list (map w_held ws) + {#a#}) = mset_set (live h)"
      using M by (simp add: ac_simps)
    from mset_set_disjoint [OF finite_live this b] have "b \<notin> set (jobs (h, p))" by auto
    then show ?thesis using nxt [OF R_old [OF b]] by (simp add: app(7))
  qed
  then have owners: "owners h' ?p (map wake ws) ?cl"
    using M R(2) app(3,5) by (simp add: owners_def ac_simps o_def)
  have w: "w_ok ?p k (map wake ws ! k)" if k: "k < length ws" for k
    using core_w [OF c k] k app(6) m by (auto simp: w_ok_def)
  have cl: "c_ok ?p k (?cl ! k)" if k: "k < length cl" for k
    using core_c [OF c k] core_c [OF c i] m pc k i
    by (auto simp: c_ok_def nth_list_update c_shut_def)
  have "list_ex c_shut ?cl = list_ex c_shut cl"
    using i pc by (intro list_ex_upd) (auto simp: c_shut_def)
  moreover have "list_ex c_last ?cl = list_ex c_last cl"
    using i pc by (intro list_ex_upd) (auto simp: c_last_def)
  moreover have "one_closing ?cl"
    using c i pc by (intro one_closing_upd) (auto simp: core_def closing_def)
  moreover have "holder_in ?p ws cl" using m i by (simp add: holder_in_def)
  ultimately have "core h' ?p (map wake ws) ?cl r (ad @ [payload h' a])"
    using c owners app w cl m by (simp add: core_def last_ok_def o_def)
  with app(1) show ?thesis by blast
qed

lemma core_dest_set:
  assumes c: "core h p ws cl r ad" and i: "i < length cl" and pc: "cl ! i = C_DestSet"
  shows "core h (p\<lparr>shutdown := 1\<rparr>) (map wake ws) (cl[i := C_DestCheck]) r ad"
proof -
  let ?cl = "cl[i := C_DestCheck]" let ?p = "p\<lparr>shutdown := 1\<rparr>"
  have m: "mylock p = Some (Client i)" using core_holder(2) [OF c i] pc by simp
  have no_take: "\<not> w_crit (ws ! k)" if "k < length ws" for k
    using core_holder(1) [OF c that] m by simp
  have w: "w_ok ?p k (map wake ws ! k)" if k: "k < length ws" for k
    using core_w [OF c k] no_take [OF k] k by (auto simp: w_ok_def)
  have cl: "c_ok ?p k (?cl ! k)" if k: "k < length cl" for k
    using core_c [OF c k] core_c [OF c i] m pc k i by (auto simp: c_ok_def nth_list_update)
  have "sum_list (map c_held ?cl) = sum_list (map c_held cl)"
    using i pc by (intro same_sum) auto
  moreover have "list_ex c_shut ?cl" using i by (auto simp: list_ex_length c_shut_def nth_list_update)
  moreover have "list_ex c_last ?cl = list_ex c_last cl"
    using i pc by (intro list_ex_upd) (auto simp: c_last_def)
  moreover have "one_closing ?cl"
    using c i pc by (intro one_closing_upd) (auto simp: core_def closing_def)
  moreover have "holder_in ?p ws cl" using m i by (simp add: holder_in_def)
  ultimately show ?thesis
    using c w cl m by (simp add: core_def owners_def last_ok_def o_def)
qed

section \<open>Beginning a call and waking up\<close>

lemma core_worker_wake:
  assumes c: "core h p ws cl r ad" and i: "i < length ws" and pc: "ws ! i = W_Sleep"
  shows "core h p (ws[i := W_Woken]) cl r ad"
proof -
  have m: "mylock p \<noteq> Some (Worker i)" using core_holder(1) [OF c i] pc by simp
  have w: "w_ok p k (ws[i := W_Woken] ! k)" if k: "k < length ws" for k
    using core_w [OF c k] m k i by (auto simp: w_ok_def nth_list_update w_leaving_def)
  have "running h p (ws[i := W_Woken]) = running h p ws"
    using m by (auto simp: running_def nth_upd split: option.splits thr.splits)
  moreover have "sum_list (map w_held (ws[i := W_Woken])) = sum_list (map w_held ws)"
    "sum_list (map w_alive (ws[i := W_Woken])) = sum_list (map w_alive ws)"
    using i pc by (auto intro!: same_sum simp: w_alive_def)
  moreover have "last_ok (ws[i := W_Woken]) cl"
    using c i pc by (intro last_ok_upd) (auto simp: core_def)
  ultimately show ?thesis using c w by (simp add: core_def owners_def)
qed

text \<open>A client moves between two points outside the critical sections.\<close>

lemma core_client_out:
  assumes c: "core h p ws cl r ad" and i: "i < length cl"
    and crit: "\<not> c_crit (cl ! i)" "\<not> c_crit pc"
    and same: "c_held pc = c_held (cl ! i)" "c_shut pc = c_shut (cl ! i)" "c_last pc = c_last (cl ! i)"
    and ok: "pc \<noteq> C_WaitUnlock" "pc \<noteq> C_Done" and one: "one_closing (cl[i := pc])"
  shows "core h p ws (cl[i := pc]) r ad"
proof -
  have cl: "c_ok p k (cl[i := pc] ! k)" if k: "k < length cl" for k
    using core_c [OF c k] core_c [OF c i] k i crit same ok by (auto simp: c_ok_def nth_list_update)
  have "sum_list (map c_held (cl[i := pc])) = sum_list (map c_held cl)"
    by (rule same_sum [OF i same(1)])
  moreover have "list_ex c_shut (cl[i := pc]) = list_ex c_shut cl"
    "list_ex c_last (cl[i := pc]) = list_ex c_last cl"
    by (rule list_ex_upd [OF i same(2)], rule list_ex_upd [OF i same(3)])
  ultimately show ?thesis using c cl one by (simp add: core_def owners_def last_ok_def)
qed

lemma core_begin_wait:
  assumes "core h p ws cl r ad" and "i < length cl" and "cl ! i = C_Idle" and "\<not> list_ex closing cl"
  shows "core h p ws (cl[i := C_WaitLock]) r ad"
  using assms
  by (intro core_client_out)
    (auto simp: c_shut_def c_last_def one_closing_def nth_list_update closing_def list_ex_length)

lemma core_begin_destroy:
  assumes "core h p ws cl r ad" and "i < length cl" and "\<forall>pc \<in> set cl. pc = C_Idle"
  shows "core h p ws (cl[i := C_DestLock]) r ad"
proof -
  have "cl ! k = C_Idle" if "k < length cl" for k using assms(3) that by simp
  with assms(1,2) show ?thesis
    by (intro core_client_out) (auto simp: c_shut_def c_last_def one_closing_def nth_list_update closing_def)
qed

lemma core_client_wake:
  assumes "core h p ws cl r ad" and "i < length cl"
    and "cl ! i = C_WaitSleep \<and> pc = C_WaitWoken \<or> cl ! i = C_DestSleep \<and> pc = C_DestWoken"
  shows "core h p ws (cl[i := pc]) r ad"
  using assms
  by (intro core_client_out one_closing_upd) (auto simp: c_shut_def c_last_def closing_def core_def)

end
