(* ===== verification/Pool_Step.thy ===== *)
theory Pool_Step
  imports Pool_Inv
begin

text \<open>
  Every step of the pool preserves the invariant, and the thread that holds the mutex can always
  take its next step: no access through \<open>NULL\<close>, to a freed block or to the freed pool.
\<close>

section \<open>Steps on the state\<close>

lemma pool_invD: "pool_inv s \<Longrightarrow> s_pool s = Some p \<Longrightarrow> core (s_heap s) p (workers s) (clients s) (ran s) (added s)"
  by (simp add: pool_inv_def)

lemma pool_gone:
  assumes "pool_inv s" and "s_pool s = None"
  shows "i < length (workers s) \<Longrightarrow> workers s ! i = W_Gone"
    and "i < length (clients s) \<Longrightarrow> clients s ! i = C_Idle \<or> clients s ! i = C_Done"
    and "list_ex closing (clients s)"
  using assms by (auto simp: pool_inv_def pool_ended_def closing_def list_ex_length)

lemma acquire_Some:
  "acquire t s = Some s' \<longleftrightarrow> (\<exists>p. s_pool s = Some p \<and> mylock p = None \<and>
     s' = s\<lparr>s_pool := Some (p\<lparr>mylock := Some t\<rparr>)\<rparr>)"
  by (auto simp: acquire_def bind_eq_Some_conv split: if_splits)

lemma release_Some:
  "release t s = Some s' \<longleftrightarrow> (\<exists>p. s_pool s = Some p \<and> mylock p = Some t \<and>
     s' = s\<lparr>s_pool := Some (p\<lparr>mylock := None\<rparr>)\<rparr>)"
  by (auto simp: release_def bind_eq_Some_conv split: if_splits)

lemma signal_w_at:
  "signal_cond a b c (w_at i pc s) = map_option (w_at i pc) (signal_cond a b c s)"
  by (simp add: signal_cond_def w_at_def c_at_def)

lemma signal_pool: "signal_cond a b c s = Some s' \<Longrightarrow> s_pool s' = s_pool s"
  by (auto simp: signal_cond_def c_at_def split: if_splits)

lemma signal_inv:
  assumes "pool_inv s" and "signal_cond a b c s = Some s'"
    and "(a, b) = (C_WaitSleep, C_WaitWoken) \<or> (a, b) = (C_DestSleep, C_DestWoken)"
  shows "pool_inv s'"
proof (cases "s' = s")
  case False
  with assms(2) have c: "c < length (clients s)" "clients s ! c = a" "s' = c_at c b s"
    by (auto simp: signal_cond_def split: if_splits)
  show ?thesis
  proof (cases "s_pool s")
    case None
    with pool_gone(2) [OF assms(1) None c(1)] c(2) assms(3) show ?thesis by auto
  next
    case (Some p)
    from core_client_wake [OF pool_invD [OF assms(1) Some] c(1), of b] c assms(3) Some
    show ?thesis by (auto simp: pool_inv_def c_at_def)
  qed
qed (use assms(1) in simp)

lemma signal_possible: "\<exists>c s'. signal_cond a b c s = Some s'"
proof (cases "a \<in> set (clients s)")
  case True
  then obtain c where "c < length (clients s)" "clients s ! c = a" by (auto simp: in_set_conv_nth)
  then show ?thesis by (auto simp: signal_cond_def)
qed (simp add: signal_cond_def)

section \<open>The workers\<close>

lemma worker_move:
  assumes inv: "pool_inv s" and p: "s_pool s = Some p" and i: "i < length (workers s)"
    and "w_held pc = w_held (workers s ! i)" "w_alive pc = w_alive (workers s ! i)"
    and "mylock p = None \<or> mylock p = Some (Worker i)"
    and "x = (if w_crit pc then Some (Worker i) else None)"
    and "w_ok (p\<lparr>mylock := x\<rparr>) i pc"
    and "\<And>y. pc \<noteq> W_Run y" "\<And>y. workers s ! i \<noteq> W_Run y" "workers s ! i \<noteq> W_Gone"
  shows "pool_inv (w_at i pc (s\<lparr>s_pool := Some (p\<lparr>mylock := x\<rparr>)\<rparr>))"
  using core_worker_move [OF pool_invD [OF inv p] i assms(4-11)]
  by (simp add: pool_inv_def w_at_def)

lemma keep_lock: "mylock p = x \<Longrightarrow> p\<lparr>mylock := x\<rparr> = p"
  by (cases p) simp

lemma w_check_inv:
  assumes inv: "pool_inv s" and p: "s_pool s = Some p" and i: "i < length (workers s)"
    and pc: "workers s ! i = W_Check"
  shows "\<exists>s'. w_check i s = Some s' \<and> pool_inv s'"
proof -
  note c = pool_invD [OF inv p]
  have m: "mylock p = Some (Worker i)" using core_holder(1) [OF c i] pc by simp
  have shut: "shutdown p = 0 \<or> shutdown p = 1" using c by (auto simp: core_def)
  have s: "s\<lparr>s_pool := Some p\<rparr> = s" using p by (cases s) simp
  consider "shutdown p = 0" "pool_head p = None" | "shutdown p = 1" | "shutdown p = 0" "pool_head p \<noteq> None"
    using shut by blast
  then show ?thesis
  proof cases
    case 1
    have "pool_inv (w_at i W_Sleep (s\<lparr>s_pool := Some (p\<lparr>mylock := None\<rparr>)\<rparr>))"
      using 1 pc m by (intro worker_move [OF inv p i]) (auto simp: w_alive_def w_ok_def w_leaving_def)
    with 1 p m show ?thesis by (simp add: w_check_def release_def)
  next
    case 2
    have "pool_inv (w_at i W_Exit (s\<lparr>s_pool := Some (p\<lparr>mylock := Some (Worker i)\<rparr>)\<rparr>))"
      using 2 pc m by (intro worker_move [OF inv p i]) (auto simp: w_alive_def w_ok_def w_leaving_def)
    with 2 p show ?thesis by (simp add: w_check_def keep_lock m s)
  next
    case 3
    have "pool_inv (w_at i W_Take (s\<lparr>s_pool := Some (p\<lparr>mylock := Some (Worker i)\<rparr>)\<rparr>))"
      using 3 pc m by (intro worker_move [OF inv p i]) (auto simp: w_alive_def w_ok_def w_leaving_def)
    with 3 p show ?thesis by (auto simp: w_check_def keep_lock m s)
  qed
qed

lemma w_take_inv:
  assumes inv: "pool_inv s" and p: "s_pool s = Some p" and i: "i < length (workers s)"
    and pc: "workers s ! i = W_Take"
  shows "\<exists>s'. w_take i s = Some s' \<and> pool_inv s'"
  using core_take [OF pool_invD [OF inv p] i pc] p
  by (auto simp: w_take_def w_at_def pool_inv_def)

lemma w_run_inv:
  assumes inv: "pool_inv s" and p: "s_pool s = Some p" and i: "i < length (workers s)"
    and pc: "workers s ! i = W_Run job1"
  shows "\<exists>s'. w_run i job1 s = Some s' \<and> pool_inv s'"
proof -
  note c = pool_invD [OF inv p]
  obtain a where a: "job1 = Some a" using core_w [OF c i] pc by (cases job1) (auto simp: w_ok_def)
  then show ?thesis
    using core_run [OF c i] pc p by (auto simp: w_run_def w_at_def pool_inv_def)
qed

lemma w_finish_core:
  assumes inv: "pool_inv s" and p: "s_pool s = Some p" and i: "i < length (workers s)"
    and pc: "workers s ! i = W_Finish job1"
  shows "\<exists>h p'. pool_inv (w_at i W_Unlock2 (s\<lparr>s_heap := h, s_pool := Some p'\<rparr>)) \<and>
     p' = p\<lparr>jc := jc p - 1\<rparr> \<and> job1 \<noteq> None \<and>
     (\<forall>c. w_finish i job1 c s =
        (if jc p' = 0 \<and> pool_head p' = None
         then signal_cond C_WaitSleep C_WaitWoken c (w_at i W_Unlock2 (s\<lparr>s_heap := h, s_pool := Some p'\<rparr>))
         else Some (w_at i W_Unlock2 (s\<lparr>s_heap := h, s_pool := Some p'\<rparr>))))"
proof -
  note c = pool_invD [OF inv p]
  obtain a where a: "job1 = Some a" using core_w [OF c i] pc by (cases job1) (auto simp: w_ok_def)
  let ?h = "(s_heap s)[a := None]"
  from core_finish [OF c i pc [unfolded a]] have f: "heap_free (s_heap s) a = Some ?h"
    "pool_inv (w_at i W_Unlock2 (s\<lparr>s_heap := ?h, s_pool := Some (p\<lparr>jc := jc p - 1\<rparr>)\<rparr>))"
    by (simp_all add: pool_inv_def w_at_def)
  have "w_finish i job1 c s = (if jc p = 1 \<and> pool_head p = None
         then signal_cond C_WaitSleep C_WaitWoken c (w_at i W_Unlock2 (s\<lparr>s_heap := ?h, s_pool := Some (p\<lparr>jc := jc p - 1\<rparr>)\<rparr>))
         else Some (w_at i W_Unlock2 (s\<lparr>s_heap := ?h, s_pool := Some (p\<lparr>jc := jc p - 1\<rparr>)\<rparr>)))" for c
    using p a f(1) by (simp add: w_finish_def signal_w_at map_option_case split: option.split)
  with f(2) a show ?thesis by (intro exI [of _ ?h] exI [of _ "p\<lparr>jc := jc p - 1\<rparr>"]) simp
qed

lemma w_exit_core:
  assumes inv: "pool_inv s" and p: "s_pool s = Some p" and i: "i < length (workers s)"
    and pc: "workers s ! i = W_Exit"
  shows "pool_inv (w_at i W_Unlock3 (s\<lparr>s_pool := Some (p\<lparr>tc := tc p - 1\<rparr>)\<rparr>))"
    and "w_exit i c s = signal_cond C_DestSleep C_DestWoken c (w_at i W_Unlock3 (s\<lparr>s_pool := Some (p\<lparr>tc := tc p - 1\<rparr>)\<rparr>))"
proof -
  show "pool_inv (w_at i W_Unlock3 (s\<lparr>s_pool := Some (p\<lparr>tc := tc p - 1\<rparr>)\<rparr>))"
    using core_exit [OF pool_invD [OF inv p] i pc] by (simp add: pool_inv_def w_at_def)
  show "w_exit i c s = signal_cond C_DestSleep C_DestWoken c (w_at i W_Unlock3 (s\<lparr>s_pool := Some (p\<lparr>tc := tc p - 1\<rparr>)\<rparr>))"
    using p by (simp add: w_exit_def signal_w_at map_option_case split: option.split)
qed

lemma eachthread_inv:
  assumes inv: "pool_inv s" and i: "i < length (workers s)" and step: "eachthread i c s = Some s'"
  shows "pool_inv s'"
proof (cases "s_pool s")
  case None
  with pool_gone(1) [OF inv None i] step show ?thesis by (simp add: eachthread_def)
next
  case (Some p)
  note move = worker_move [OF inv Some i] and ok = core_w [OF pool_invD [OF inv Some] i]
  show ?thesis
  proof (cases "workers s ! i")
    case W_Lock
    with step Some show ?thesis
      by (auto simp: eachthread_def acquire_Some bind_eq_Some_conv w_alive_def w_ok_def w_leaving_def
          intro!: move)
  next
    case W_Check
    with w_check_inv [OF inv Some i W_Check] step show ?thesis by (auto simp: eachthread_def)
  next
    case W_Woken
    with step Some show ?thesis
      by (auto simp: eachthread_def acquire_Some bind_eq_Some_conv w_alive_def w_ok_def w_leaving_def
          intro!: move)
  next
    case W_Take
    with w_take_inv [OF inv Some i W_Take] step show ?thesis by (auto simp: eachthread_def)
  next
    case (W_Run x)
    with w_run_inv [OF inv Some i W_Run] step show ?thesis by (auto simp: eachthread_def)
  next
    case (W_Unlock x)
    with step Some ok show ?thesis
      by (cases x) (auto simp: eachthread_def release_Some bind_eq_Some_conv w_alive_def w_ok_def
          w_leaving_def intro!: move)
  next
    case (W_Lock2 x)
    with step Some ok show ?thesis
      by (cases x) (auto simp: eachthread_def acquire_Some bind_eq_Some_conv w_alive_def w_ok_def
          w_leaving_def intro!: move)
  next
    case (W_Finish x)
    obtain t b where "pool_inv t" and
      "\<And>c. w_finish i x c s = (if b then signal_cond C_WaitSleep C_WaitWoken c t else Some t)"
      using w_finish_core [OF inv Some i W_Finish] by blast
    with W_Finish step show ?thesis
      by (cases b) (auto simp: eachthread_def dest: signal_inv)
  next
    case W_Unlock2
    with step Some show ?thesis
      by (auto simp: eachthread_def release_Some bind_eq_Some_conv w_alive_def w_ok_def w_leaving_def
          intro!: move)
  next
    case W_Exit
    with w_exit_core [OF inv Some i W_Exit] step show ?thesis
      by (auto simp: eachthread_def dest: signal_inv)
  next
    case W_Unlock3
    with step Some ok show ?thesis
      by (auto simp: eachthread_def release_Some bind_eq_Some_conv w_alive_def w_ok_def w_leaving_def
          intro!: move)
  qed (use step in \<open>simp_all add: eachthread_def\<close>)
qed

section \<open>The clients\<close>

lemma client_move:
  assumes inv: "pool_inv s" and p: "s_pool s = Some p" and i: "i < length (clients s)"
    and "c_held pc = c_held (clients s ! i)" "c_shut pc = c_shut (clients s ! i)"
      "closing pc = closing (clients s ! i)" "clients s ! i \<noteq> C_Idle"
    and "mylock p = None \<or> mylock p = Some (Client i)"
    and "x = (if c_crit pc then Some (Client i) else None)"
    and "c_ok (p\<lparr>mylock := x\<rparr>) i pc"
    and "c_last pc \<Longrightarrow> (\<forall>i < length (workers s). workers s ! i = W_Gone)"
  shows "pool_inv (c_at i pc (s\<lparr>s_pool := Some (p\<lparr>mylock := x\<rparr>)\<rparr>))"
  using core_client_move [OF pool_invD [OF inv p] i assms(4-11)]
  by (simp add: pool_inv_def c_at_def)

lemma broadcast_wake: "broadcast_A s = s\<lparr>workers := map wake (workers s)\<rparr>"
  by (simp add: broadcast_A_def wake_def cong: map_cong)

lemma add_link_inv:
  assumes inv: "pool_inv s" and p: "s_pool s = Some p" and i: "i < length (clients s)"
    and pc: "clients s ! i = C_Append a"
  shows "\<exists>s'. add_link i a s = Some s' \<and> pool_inv s'"
  using core_add_link [OF pool_invD [OF inv p] i pc] p
  by (auto simp: add_link_def c_at_def broadcast_wake pool_inv_def)

lemma wait_check_inv:
  assumes inv: "pool_inv s" and p: "s_pool s = Some p" and i: "i < length (clients s)"
    and pc: "clients s ! i = C_WaitCheck"
  shows "\<exists>s'. wait_check i s = Some s' \<and> pool_inv s'"
proof -
  note c = pool_invD [OF inv p] and move = client_move [OF inv p i]
  have m: "mylock p = Some (Client i)" using core_holder(2) [OF c i] pc by simp
  have s: "s\<lparr>s_pool := Some p\<rparr> = s" using p by (cases s) simp
  show ?thesis
  proof (cases "pool_head p = None \<and> jc p = 0")
    case True
    have "pool_inv (c_at i C_WaitUnlock (s\<lparr>s_pool := Some (p\<lparr>mylock := Some (Client i)\<rparr>)\<rparr>))"
      using True pc m by (intro move) (auto simp: c_ok_def c_shut_def c_last_def closing_def)
    with True p show ?thesis by (simp add: wait_check_def keep_lock m s)
  next
    case False
    have "pool_inv (c_at i C_WaitSleep (s\<lparr>s_pool := Some (p\<lparr>mylock := None\<rparr>)\<rparr>))"
      using pc m by (intro move) (auto simp: c_ok_def c_shut_def c_last_def closing_def)
    with False p m show ?thesis by (auto simp: wait_check_def release_def)
  qed
qed

lemma alive_nonneg: "0 \<le> sum_list (map w_alive ws)"
  by (intro sum_list_nonneg) (auto simp: w_alive_def)

lemma none_alive:
  assumes c: "core h p ws cl r ad" and tc: "tc p = 0" and m: "mylock p = Some (Client k)"
    and i: "i < length ws"
  shows "ws ! i = W_Gone"
proof -
  obtain R where R: "sum_list (map w_alive ws) = w_alive (ws ! i) + R"
    "\<And>v. sum_list (map w_alive (ws[i := v])) = w_alive v + R"
    using sum_list_split [OF i, of w_alive] by blast
  have "0 \<le> R" using R(2) [of W_Gone] alive_nonneg [of "ws[i := W_Gone]"] by (simp add: w_alive_def)
  with R(1) c tc have "w_alive (ws ! i) = 0" by (simp add: core_def w_alive_def split: if_splits)
  then have "ws ! i = W_Unlock3 \<or> ws ! i = W_Gone" by (simp add: w_alive_def split: if_splits)
  with core_holder(1) [OF c i] m show ?thesis by auto
qed

lemma dest_check_inv:
  assumes inv: "pool_inv s" and p: "s_pool s = Some p" and i: "i < length (clients s)"
    and pc: "clients s ! i = C_DestCheck"
  shows "\<exists>s'. dest_check i s = Some s' \<and> pool_inv s'"
proof -
  note c = pool_invD [OF inv p] and move = client_move [OF inv p i]
  have m: "mylock p = Some (Client i)" and shut: "shutdown p = 1"
    using core_c [OF c i] pc by (auto simp: c_ok_def c_shut_def)
  have s: "s\<lparr>s_pool := Some p\<rparr> = s" using p by (cases s) simp
  show ?thesis
  proof (cases "tc p = 0")
    case True
    have "pool_inv (c_at i C_DestUnlock (s\<lparr>s_pool := Some (p\<lparr>mylock := Some (Client i)\<rparr>)\<rparr>))"
      using pc m shut none_alive [OF c True m]
      by (intro move) (auto simp: c_ok_def c_shut_def c_last_def closing_def)
    with True p show ?thesis by (simp add: dest_check_def keep_lock m s)
  next
    case False
    have "pool_inv (c_at i C_DestSleep (s\<lparr>s_pool := Some (p\<lparr>mylock := None\<rparr>)\<rparr>))"
      using pc m shut by (intro move) (auto simp: c_ok_def c_shut_def c_last_def closing_def)
    with False p m show ?thesis by (simp add: dest_check_def release_def)
  qed
qed

lemma free_inv:
  assumes inv: "pool_inv s" and p: "s_pool s = Some p" and i: "i < length (clients s)"
    and pc: "clients s ! i = C_Free"
  shows "\<exists>s'. tpool_destroy i s = Some s' \<and> pool_inv s'"
proof -
  note c = pool_invD [OF inv p]
  have "list_ex c_last (clients s)" using i pc by (auto simp: list_ex_length c_last_def)
  then have gone: "\<forall>k < length (workers s). workers s ! k = W_Gone"
    using c by (simp add: core_def last_ok_def)
  have idle: "clients s ! k = C_Idle" if "k < length (clients s)" "k \<noteq> i" for k
  proof -
    have "one_closing (clients s)" "closing (clients s ! i)" using c pc by (simp_all add: core_def closing_def)
    with that i show ?thesis unfolding one_closing_def by blast
  qed
  have free: "mylock p = None"
  proof (cases "mylock p")
    case (Some t)
    show ?thesis
    proof (cases t)
      case (Worker k)
      with Some c have "k < length (workers s)" by (simp add: core_def holder_in_def)
      with core_holder(1) [OF c this] gone Some Worker show ?thesis by simp
    next
      case (Client k)
      with Some c have "k < length (clients s)" by (simp add: core_def holder_in_def)
      with core_holder(2) [OF c this] idle [of k] pc Some Client show ?thesis by (cases "k = i") auto
    qed
  qed
  have no: "W_Sleep \<notin> set (workers s)" "C_WaitSleep \<notin> set (clients s)" "C_DestSleep \<notin> set (clients s)"
    using gone idle pc by (fastforce simp: in_set_conv_nth)+
  have none_held: "sum_list (map f xs) = {#}" if "\<And>k. k < length xs \<Longrightarrow> f (xs ! k) = {#}"
    for f :: "'b \<Rightarrow> addr multiset" and xs
  proof -
    have "map f xs = replicate (length xs) {#}" using that by (intro nth_equalityI) simp_all
    then show ?thesis by simp
  qed
  have "sum_list (map w_held (workers s)) = {#}" using gone by (intro none_held) simp
  moreover have "c_held (clients s ! k) = {#}" if "k < length (clients s)" for k
    using idle [OF that] pc by (cases "k = i") simp_all
  then have "sum_list (map c_held (clients s)) = {#}" by (intro none_held) simp
  ultimately have "mset (jobs (s_heap s, p)) = mset_set (live (s_heap s))"
    using core_owned [OF c] by simp
  then have "length (jobs (s_heap s, p)) = card (live (s_heap s))" by (metis size_mset size_mset_set)
  moreover have "added s = ran s @ map (payload (s_heap s)) (jobs (s_heap s, p))"
    using c free by (simp add: core_def running_def)
  ultimately have "card (live (s_heap s)) + length (ran s) = length (added s)" by simp
  then have "pool_inv (c_at i C_Done (s\<lparr>s_pool := None\<rparr>))"
    using gone idle i by (auto simp: pool_inv_def pool_ended_def c_at_def in_set_conv_nth)
  with p pc free no show ?thesis by (simp add: tpool_destroy_def)
qed

lemma client_next_inv:
  assumes inv: "pool_inv s" and i: "i < length (clients s)" and step: "client_next i s = Some s'"
  shows "pool_inv s'"
proof (cases "s_pool s")
  case None
  with pool_gone(2) [OF inv None i] step show ?thesis by (auto simp: client_next_def)
next
  case (Some p)
  note move = client_move [OF inv Some i] and ok = core_c [OF pool_invD [OF inv Some] i]
  note defs = client_next_def tpool_add_def tpool_wait_def tpool_destroy_def wait2_def
    acquire_Some release_Some bind_eq_Some_conv c_ok_def c_shut_def c_last_def closing_def
  show ?thesis
  proof (cases "clients s ! i")
    case (C_AddLock a)
    with step Some ok show ?thesis by (auto simp: defs intro!: move)
  next
    case (C_Append a)
    with add_link_inv [OF inv Some i] step show ?thesis by (auto simp: client_next_def tpool_add_def)
  next
    case C_AddUnlock
    with step Some ok show ?thesis by (auto simp: defs intro!: move)
  next
    case C_WaitLock
    with step Some ok show ?thesis by (auto simp: defs intro!: move)
  next
    case C_WaitCheck
    with wait_check_inv [OF inv Some i] step show ?thesis by (auto simp: client_next_def tpool_wait_def)
  next
    case C_WaitWoken
    with step Some ok show ?thesis by (auto simp: defs intro!: move)
  next
    case C_WaitUnlock
    with step Some ok show ?thesis by (auto simp: defs intro!: move)
  next
    case C_DestLock
    with step Some ok show ?thesis by (auto simp: defs intro!: move)
  next
    case C_DestSet
    with core_dest_set [OF pool_invD [OF inv Some] i] step Some show ?thesis
      by (auto simp: client_next_def tpool_destroy_def wait2_def broadcast_wake c_at_def pool_inv_def)
  next
    case C_DestCheck
    with dest_check_inv [OF inv Some i] step show ?thesis
      by (auto simp: client_next_def tpool_destroy_def wait2_def)
  next
    case C_DestWoken
    with step Some ok show ?thesis by (auto simp: defs intro!: move)
  next
    case C_DestUnlock
    have "list_ex c_last (clients s)" using i C_DestUnlock by (auto simp: list_ex_length c_last_def)
    then have "\<forall>i < length (workers s). workers s ! i = W_Gone"
      using pool_invD [OF inv Some] by (simp add: core_def last_ok_def)
    with C_DestUnlock step Some ok show ?thesis by (auto simp: defs intro!: move)
  next
    case C_Free
    with free_inv [OF inv Some i] step show ?thesis by (auto simp: client_next_def)
  qed (use step in \<open>simp_all add: client_next_def tpool_wait_def tpool_destroy_def wait2_def\<close>)
qed

section \<open>All steps\<close>

lemma inner_inv: "pool_inv s \<Longrightarrow> inner s s' \<Longrightarrow> pool_inv s'"
  by (erule innerE) (auto intro: eachthread_inv client_next_inv)

lemma pool_step_inv:
  assumes inv: "pool_inv s" and step: "pool_step s s'"
  shows "pool_inv s'"
  using step
proof (cases rule: pool_step.cases)
  case step
  with inv show ?thesis by (rule inner_inv)
next
  case (add i func arg)
  with pool_gone(3) [OF inv] obtain p where p: "s_pool s = Some p" by (cases "s_pool s") auto
  with add core_add_begin [OF pool_invD [OF inv p]] show ?thesis
    by (simp add: add_begin_def c_at_def pool_inv_def)
next
  case (wait i)
  with pool_gone(3) [OF inv] obtain p where p: "s_pool s = Some p" by (cases "s_pool s") auto
  with wait core_begin_wait [OF pool_invD [OF inv p]] show ?thesis by (simp add: c_at_def pool_inv_def)
next
  case (destroy i)
  have "\<not> list_ex closing (clients s)" using destroy(3) by (auto simp: list_ex_iff closing_def)
  with pool_gone(3) [OF inv] obtain p where p: "s_pool s = Some p" by (cases "s_pool s") auto
  with destroy core_begin_destroy [OF pool_invD [OF inv p]] show ?thesis by (simp add: c_at_def pool_inv_def)
next
  case (wake_A i)
  with pool_gone(1) [OF inv] obtain p where p: "s_pool s = Some p" by (cases "s_pool s") auto
  with wake_A core_worker_wake [OF pool_invD [OF inv p]] show ?thesis by (simp add: w_at_def pool_inv_def)
next
  case (wake_B i)
  with pool_gone(2) [OF inv] obtain p where p: "s_pool s = Some p" by (cases "s_pool s") fastforce+
  with wake_B core_client_wake [OF pool_invD [OF inv p]] show ?thesis by (simp add: c_at_def pool_inv_def)
next
  case (wake_C i)
  with pool_gone(2) [OF inv] obtain p where p: "s_pool s = Some p" by (cases "s_pool s") fastforce+
  with wake_C core_client_wake [OF pool_invD [OF inv p]] show ?thesis by (simp add: c_at_def pool_inv_def)
qed

interpretation pool: transition_invariant pool_step "\<lambda>s. \<exists>n m. s = tpool_init n m" pool_inv
  by standard (auto intro: pool_init_inv pool_step_inv)

end
