(* ===== verification/Pool_Live.thy ===== *)
theory Pool_Live
  imports Pool_Step
begin

text \<open>
  Progress of the thread pool: nobody sleeps through the event he waits for, the thread that
  holds the mutex can always go on, every step within the calls uses up some of a finite amount
  of work, and when nothing can move any more the calls have returned.
\<close>

section \<open>No lost wake-up\<close>

text \<open>With a single client nobody else can take the one signal \<open>Bcond\<close> gets.\<close>

definition sleep_at :: "tpool \<Rightarrow> cpc list \<Rightarrow> bool" where
  "sleep_at p cl \<longleftrightarrow> (cl = [C_WaitSleep] \<longrightarrow> jc p \<noteq> 0 \<or> pool_head p \<noteq> None) \<and>
     (C_DestSleep \<in> set cl \<longrightarrow> tc p \<noteq> 0)"

definition sleep_ok :: "sys \<Rightarrow> bool" where
  "sleep_ok s \<longleftrightarrow> (case s_pool s of None \<Rightarrow> True | Some p \<Rightarrow> sleep_at p (clients s))"

lemma sleep_at_lock [simp]: "sleep_at (p\<lparr>mylock := x\<rparr>) cl = sleep_at p cl"
  by (simp add: sleep_at_def)

lemma sleep_at_move:
  assumes ok: "sleep_at p cl" and i: "i < length cl" and pc: "pc \<noteq> C_WaitSleep" "pc \<noteq> C_DestSleep"
    and tc: "tc p' = tc p"
  shows "sleep_at p' (cl[i := pc])"
proof -
  have "cl[i := pc] \<noteq> [C_WaitSleep]"
    using i pc(1) by (metis in_set_conv_nth length_list_update list.set(1) list.set(2) nth_list_update_eq singletonD)
  moreover have "C_DestSleep \<in> set (cl[i := pc]) \<Longrightarrow> C_DestSleep \<in> set cl"
    using pc(2) set_update_subset_insert [of cl i pc] by auto
  ultimately show ?thesis using ok tc unfolding sleep_at_def by simp
qed

lemma sleep_at_wait:
  assumes "sleep_at p cl" and "jc p \<noteq> 0 \<or> pool_head p \<noteq> None"
  shows "sleep_at p (cl[i := C_WaitSleep])"
proof -
  have "C_DestSleep \<in> set (cl[i := C_WaitSleep]) \<Longrightarrow> C_DestSleep \<in> set cl"
    using set_update_subset_insert [of cl i C_WaitSleep] by auto
  with assms show ?thesis unfolding sleep_at_def by blast
qed

lemma sleep_at_dest:
  assumes "tc p \<noteq> 0" and "i < length cl"
  shows "sleep_at p (cl[i := C_DestSleep])"
proof -
  have "C_DestSleep \<in> set (cl[i := C_DestSleep])" using assms(2) by (rule set_update_memI)
  then have "cl[i := C_DestSleep] \<noteq> [C_WaitSleep]" by auto
  with assms(1) show ?thesis by (simp add: sleep_at_def)
qed

lemma jc_nonneg: "core h p ws cl r ad \<Longrightarrow> 0 \<le> jc p"
  by (simp add: core_def)

lemma take_job_facts:
  "take_job (h, p) = Some (x, h', p') \<Longrightarrow> jc p' = (if x = None then jc p else jc p + 1) \<and> tc p' = tc p \<and>
     (x = None \<longrightarrow> pool_head p' = pool_head p)"
  by (auto simp: take_job_def bind_eq_Some_conv split: option.splits)

lemma append_job_facts:
  "append_job a (h, p) = Some (h', p') \<Longrightarrow> tc p' = tc p \<and> pool_head p' \<noteq> None"
  by (auto simp: append_job_def bind_eq_Some_conv split: if_splits)

lemma dest_sleeper:
  assumes one: "one_closing cl" and c: "c < length cl" "cl ! c = C_DestSleep"
  shows "C_DestSleep \<notin> set (cl[c := C_DestWoken])"
proof -
  have "closing (cl ! c)" using c by (simp add: closing_def)
  then have "\<forall>k < length cl. k \<noteq> c \<longrightarrow> cl ! k = C_Idle" using one c(1) unfolding one_closing_def by blast
  then have "\<forall>k < length cl. cl[c := C_DestWoken] ! k \<noteq> C_DestSleep"
    using c(1) by (auto simp: nth_upd)
  then show ?thesis by (metis in_set_conv_nth length_list_update)
qed

lemma eachthread_sleep:
  assumes inv: "pool_inv s" and ok: "sleep_ok s" and i: "i < length (workers s)"
    and step: "eachthread i c s = Some s'"
  shows "sleep_ok s'"
proof (cases "s_pool s")
  case None
  with pool_gone(1) [OF inv None i] step show ?thesis by (simp add: eachthread_def)
next
  case (Some p)
  note core = pool_invD [OF inv Some]
  have at: "sleep_at p (clients s)" using ok Some by (simp add: sleep_ok_def)
  show ?thesis
  proof (cases "workers s ! i")
    case W_Take
    with step obtain x h p' where t: "take_job (s_heap s, p) = Some (x, h, p')"
      "s' = w_at i (W_Run x) (s\<lparr>s_heap := h, s_pool := Some p'\<rparr>)"
      using Some by (auto simp: eachthread_def w_take_def bind_eq_Some_conv)
    have "sleep_at p' (clients s)"
      using take_job_facts [OF t(1)] at jc_nonneg [OF core] unfolding sleep_at_def
      by (cases "x = None") auto
    with t(2) show ?thesis by (simp add: sleep_ok_def w_at_def)
  next
    case (W_Finish x)
    let ?p = "p\<lparr>jc := jc p - 1\<rparr>"
    obtain h where F: "w_finish i x c s =
        (if jc ?p = 0 \<and> pool_head ?p = None
         then signal_cond C_WaitSleep C_WaitWoken c (w_at i W_Unlock2 (s\<lparr>s_heap := h, s_pool := Some ?p\<rparr>))
         else Some (w_at i W_Unlock2 (s\<lparr>s_heap := h, s_pool := Some ?p\<rparr>)))"
      using w_finish_core [OF inv Some i W_Finish] by blast
    from step W_Finish have fin: "w_finish i x c s = Some s'" by (simp add: eachthread_def)
    show ?thesis
    proof (cases "jc ?p = 0 \<and> pool_head ?p = None \<and> C_WaitSleep \<in> set (clients s)")
      case True
      with F fin have c: "c < length (clients s)" "clients s' = (clients s)[c := C_WaitWoken]" "s_pool s' = Some ?p"
        by (auto simp: signal_cond_def w_at_def c_at_def split: if_splits)
      then show ?thesis using sleep_at_move [OF at, of c C_WaitWoken ?p] by (simp add: sleep_ok_def)
    next
      case False
      then have "s_pool s' = Some ?p" "clients s' = clients s"
        using F fin by (auto simp: signal_cond_def w_at_def c_at_def split: if_splits)
      moreover have "sleep_at ?p (clients s)"
        using at False unfolding sleep_at_def by auto
      ultimately show ?thesis by (simp add: sleep_ok_def)
    qed
  next
    case W_Exit
    let ?p = "p\<lparr>tc := tc p - 1\<rparr>"
    let ?t = "w_at i W_Unlock3 (s\<lparr>s_pool := Some ?p\<rparr>)"
    have sig: "signal_cond C_DestSleep C_DestWoken c ?t = Some s'"
      using w_exit_core(2) [OF inv Some i W_Exit] step W_Exit by (simp add: eachthread_def)
    show ?thesis
    proof (cases "C_DestSleep \<in> set (clients s)")
      case True
      with sig have c: "c < length (clients s)" "clients s ! c = C_DestSleep" "s' = c_at c C_DestWoken ?t"
        by (auto simp: signal_cond_def w_at_def split: if_splits)
      have "C_DestSleep \<notin> set ((clients s)[c := C_DestWoken])"
        using core by (intro dest_sleeper c) (simp add: core_def)
      moreover have "(clients s)[c := C_DestWoken] \<noteq> [C_WaitSleep]"
        using set_update_memI [OF c(1), of C_DestWoken] by auto
      ultimately show ?thesis using c(3) by (simp add: sleep_ok_def sleep_at_def c_at_def w_at_def)
    next
      case False
      with sig have "s' = ?t" by (simp add: signal_cond_def w_at_def)
      with False at show ?thesis by (simp add: sleep_ok_def sleep_at_def w_at_def)
    qed
  qed (use step Some at in \<open>auto simp: eachthread_def acquire_Some release_Some bind_eq_Some_conv w_check_def w_run_def w_at_def
      sleep_ok_def split: if_splits\<close>)
qed

lemma client_sleep:
  assumes inv: "pool_inv s" and ok: "sleep_ok s" and i: "i < length (clients s)"
    and step: "client_next i s = Some s'"
  shows "sleep_ok s'"
proof (cases "s_pool s")
  case None
  with pool_gone(2) [OF inv None i] step show ?thesis by (auto simp: client_next_def)
next
  case (Some p)
  have at: "sleep_at p (clients s)" using ok Some by (simp add: sleep_ok_def)
  note move = sleep_at_move [OF at i] and wait = sleep_at_wait [OF at] and dest = sleep_at_dest [OF _ i]
  show ?thesis
    using step Some
    by (cases "clients s ! i")
      (auto simp: client_next_def tpool_add_def add_link_def tpool_wait_def wait_check_def
        tpool_destroy_def wait2_def dest_check_def acquire_Some release_Some bind_eq_Some_conv
        c_at_def broadcast_A_def sleep_ok_def split: if_splits dest!: append_job_facts
        intro!: move wait dest)
qed

lemma sleep_step:
  assumes inv: "pool_inv s" and ok: "sleep_ok s" and step: "pool_step s s'"
  shows "sleep_ok s'"
proof -
  have upd: "sleep_ok (c_at i pc s)" if "i < length (clients s)" "pc \<noteq> C_WaitSleep" "pc \<noteq> C_DestSleep" for i pc
    using ok sleep_at_move [OF _ that] by (auto simp: sleep_ok_def c_at_def split: option.splits)
  show ?thesis using step
  proof (cases rule: pool_step.cases)
    case step
    then show ?thesis
      by (rule innerE) (auto intro: eachthread_sleep [OF inv ok] client_sleep [OF inv ok])
  next
    case (add i func arg)
    with upd [of i "C_AddLock (length (s_heap s))"] show ?thesis
      by (simp add: add_begin_def sleep_ok_def c_at_def split: option.splits)
  next
    case (wake_A i)
    with ok show ?thesis by (simp add: sleep_ok_def w_at_def split: option.splits)
  qed (use upd in simp_all)
qed

definition live_inv :: "sys \<Rightarrow> bool" where
  "live_inv s \<longleftrightarrow> pool_inv s \<and> sleep_ok s"

lemma sleep_init: "sleep_ok (tpool_init n m)"
  by (cases m) (auto simp: sleep_ok_def sleep_at_def tpool_init_def)

interpretation pool_live: transition_invariant pool_step "\<lambda>s. \<exists>n m. s = tpool_init n m" live_inv
  by standard (auto simp: live_inv_def intro: pool_init_inv sleep_init pool_step_inv sleep_step)

section \<open>A finite amount of work\<close>

text \<open>
  The steps a thread can still take on its own; a worker that finishes a job also pays for the
  waiter it wakes, a call of \<open>tpool_add\<close> for the job and the workers it wakes.
\<close>

fun w_weight :: "wpc \<Rightarrow> nat" where
  "w_weight W_Lock = 8" | "w_weight W_Check = 7" | "w_weight W_Sleep = 0" | "w_weight W_Woken = 8"
| "w_weight W_Take = 6" | "w_weight (W_Run x) = 16" | "w_weight (W_Unlock x) = 15"
| "w_weight (W_Lock2 x) = 14" | "w_weight (W_Finish x) = 13" | "w_weight W_Unlock2 = 9"
| "w_weight W_Exit = 6" | "w_weight W_Unlock3 = 1" | "w_weight W_Gone = 0"

fun c_weight :: "nat \<Rightarrow> cpc \<Rightarrow> nat" where
  "c_weight n C_Idle = 0" | "c_weight n (C_AddLock a) = 14 + 8 * n" | "c_weight n (C_Append a) = 13 + 8 * n"
| "c_weight n C_AddUnlock = 1" | "c_weight n C_WaitLock = 3" | "c_weight n C_WaitCheck = 2"
| "c_weight n C_WaitSleep = 0" | "c_weight n C_WaitWoken = 3" | "c_weight n C_WaitUnlock = 1"
| "c_weight n C_DestLock = 5 + 8 * n" | "c_weight n C_DestSet = 4 + 8 * n" | "c_weight n C_DestCheck = 3"
| "c_weight n C_DestSleep = 0" | "c_weight n C_DestWoken = 4" | "c_weight n C_DestUnlock = 2"
| "c_weight n C_Free = 1" | "c_weight n C_Done = 0"

definition queued :: "sys \<Rightarrow> nat" where
  "queued s = (case s_pool s of None \<Rightarrow> 0 | Some p \<Rightarrow> length (jobs (s_heap s, p)))"

definition work :: "sys \<Rightarrow> nat" where
  "work s = sum_list (map w_weight (workers s)) + 11 * queued s +
     sum_list (map (c_weight (length (workers s))) (clients s))"

lemma queued_same [simp]:
  "queued (s\<lparr>workers := ws\<rparr>) = queued s" "queued (s\<lparr>clients := cl\<rparr>) = queued s"
  "queued (s\<lparr>ran := r\<rparr>) = queued s" "queued (s\<lparr>added := r\<rparr>) = queued s"
  by (simp_all add: queued_def split: option.split)

lemma work_w_at:
  assumes "i < length (workers s)" and "w_weight pc + k < w_weight (workers s ! i)"
  shows "work (w_at i pc s) + k < work s"
proof -
  obtain R where "sum_list (map w_weight (workers s)) = w_weight (workers s ! i) + R"
    "\<And>v. sum_list (map w_weight ((workers s)[i := v])) = w_weight v + R"
    using sum_list_split [OF assms(1), of w_weight] by blast
  with assms(2) show ?thesis by (simp add: work_def w_at_def)
qed

lemma work_c_at:
  assumes "i < length (clients s)"
  shows "work (c_at i pc s) + c_weight (length (workers s)) (clients s ! i) =
    work s + c_weight (length (workers s)) pc"
proof -
  let ?f = "c_weight (length (workers s))"
  obtain R where "sum_list (map ?f (clients s)) = ?f (clients s ! i) + R"
    "\<And>v. sum_list (map ?f ((clients s)[i := v])) = ?f v + R"
    using sum_list_split [OF assms(1), of ?f] by blast
  then show ?thesis by (simp add: work_def c_at_def)
qed

lemma work_signal:
  assumes "signal_cond a b c s = Some s'"
  shows "work s' \<le> work s + c_weight (length (workers s)) b"
  using assms work_c_at [of c s b] by (auto simp: signal_cond_def split: if_splits)

lemma work_pool:
  assumes "s_pool s = Some p" and "pool_head p' = pool_head p"
  shows "work (s\<lparr>s_pool := Some p'\<rparr>) = work s"
  using assms by (simp add: work_def queued_def jobs_def)

lemma wake_work: "sum_list (map w_weight (map wake ws)) \<le> sum_list (map w_weight ws) + 8 * length ws"
  by (induction ws) (auto simp: wake_def)

lemma work_broadcast:
  "work (broadcast_A s) \<le> work s + 8 * length (workers s)"
  using wake_work [of "workers s"] by (simp add: work_def broadcast_wake)

lemma eachthread_work:
  assumes inv: "pool_inv s" and i: "i < length (workers s)" and step: "eachthread i c s = Some s'"
  shows "work s' < work s"
proof (cases "s_pool s")
  case None
  with pool_gone(1) [OF inv None i] step show ?thesis by (simp add: eachthread_def)
next
  case (Some p)
  note core = pool_invD [OF inv Some]
  have move: "work (w_at i pc (s\<lparr>s_pool := Some p'\<rparr>)) < work s"
    if "w_weight pc < w_weight (workers s ! i)" "pool_head p' = pool_head p" for pc p'
    using work_w_at [of i "s\<lparr>s_pool := Some p'\<rparr>" pc 0] that i work_pool [OF Some, of p'] by simp
  have here: "work (w_at i pc s) < work s" if "w_weight pc < w_weight (workers s ! i)" for pc
    using work_w_at [of i s pc 0] that i by simp
  show ?thesis
  proof (cases "workers s ! i")
    case W_Check
    with step Some show ?thesis
      by (auto simp: eachthread_def w_check_def release_Some bind_eq_Some_conv intro!: move here split: if_splits)
  next
    case W_Take
    obtain a p' where t: "take_job (s_heap s, p) = Some (Some a, s_heap s, p')"
      using core_take [OF core i W_Take] by blast
    have ok: "jobs_ok (s_heap s, p)" using core by (simp add: core_def)
    have "pool_head p \<noteq> None" using core_w [OF core i] W_Take by (simp add: w_ok_def)
    then obtain b as where js: "jobs (s_heap s, p) = b # as"
      using jobs_empty [OF ok] by (cases "jobs (s_heap s, p)") auto
    have "jobs (s_heap s, p') = as" using take_job_ok [OF ok js] t by auto
    moreover have s': "s' = w_at i (W_Run (Some a)) (s\<lparr>s_pool := Some p'\<rparr>)"
      using step t Some W_Take by (simp add: eachthread_def w_take_def)
    moreover obtain R where "sum_list (map w_weight (workers s)) = w_weight (workers s ! i) + R"
      "\<And>v. sum_list (map w_weight ((workers s)[i := v])) = w_weight v + R"
      using sum_list_split [OF i, of w_weight] by blast
    ultimately show ?thesis using js Some W_Take by (simp add: work_def w_at_def queued_def)
  next
    case (W_Run x)
    have "work (s\<lparr>ran := r\<rparr>) = work s" for r by (simp add: work_def)
    with W_Run step i work_w_at [of i "s\<lparr>ran := r\<rparr>" "W_Unlock x" 0 for r] show ?thesis
      by (auto simp: eachthread_def w_run_def bind_eq_Some_conv intro!: here split: if_splits)
  next
    case (W_Finish x)
    let ?p = "p\<lparr>jc := jc p - 1\<rparr>"
    obtain h where F: "w_finish i x c s =
        (if jc ?p = 0 \<and> pool_head ?p = None
         then signal_cond C_WaitSleep C_WaitWoken c (w_at i W_Unlock2 (s\<lparr>s_heap := h, s_pool := Some ?p\<rparr>))
         else Some (w_at i W_Unlock2 (s\<lparr>s_heap := h, s_pool := Some ?p\<rparr>)))"
      and inv': "pool_inv (w_at i W_Unlock2 (s\<lparr>s_heap := h, s_pool := Some ?p\<rparr>))"
      using w_finish_core [OF inv Some i W_Finish] by blast
    let ?t = "w_at i W_Unlock2 (s\<lparr>s_heap := h, s_pool := Some ?p\<rparr>)"
    have "mylock p = Some (Worker i)" using core_holder(1) [OF core i] W_Finish by simp
    then have "running (s_heap s) p (workers s) = []" "running h ?p ((workers s)[i := W_Unlock2]) = []"
      using W_Finish i by (simp_all add: running_def)
    then have "map (payload h) (jobs (h, p)) = map (payload (s_heap s)) (jobs (s_heap s, p))"
      using core pool_invD [OF inv', of ?p] by (simp add: core_def w_at_def)
    then have "length (jobs (h, p)) = length (jobs (s_heap s, p))" by (rule map_eq_imp_length_eq)
    then have "work (s\<lparr>s_heap := h, s_pool := Some ?p\<rparr>) = work s"
      using Some by (simp add: work_def queued_def)
    then have t: "work ?t + 3 < work s"
      using work_w_at [of i "s\<lparr>s_heap := h, s_pool := Some ?p\<rparr>" W_Unlock2 3] i W_Finish by simp
    from step W_Finish have "w_finish i x c s = Some s'" by (simp add: eachthread_def)
    with F t work_signal [of C_WaitSleep C_WaitWoken c ?t s'] show ?thesis
      by (auto split: if_splits)
  next
    case W_Exit
    let ?t = "w_at i W_Unlock3 (s\<lparr>s_pool := Some (p\<lparr>tc := tc p - 1\<rparr>)\<rparr>)"
    have "work ?t + 4 < work s"
      using work_w_at [of i "s\<lparr>s_pool := Some (p\<lparr>tc := tc p - 1\<rparr>)\<rparr>" W_Unlock3 4] i W_Exit
        work_pool [OF Some, of "p\<lparr>tc := tc p - 1\<rparr>"] by simp
    moreover have "signal_cond C_DestSleep C_DestWoken c ?t = Some s'"
      using w_exit_core(2) [OF inv Some i W_Exit] step W_Exit by (simp add: eachthread_def)
    ultimately show ?thesis using work_signal [of C_DestSleep C_DestWoken c ?t s'] by simp
  qed (use step Some in \<open>auto simp: eachthread_def acquire_Some release_Some bind_eq_Some_conv
      intro!: move\<close>)
qed

lemma append_job_length:
  assumes c: "core h p ws cl r ad" and i: "i < length cl" and pc: "cl ! i = C_Append a"
    and app: "append_job a (h, p) = Some (h', p')"
  shows "length (jobs (h', p')) = length (jobs (h, p)) + 1"
proof -
  have m: "mylock p = Some (Client i)" using core_holder(2) [OF c i] pc by simp
  obtain w where c': "core h' p' (map wake ws) w r (ad @ [payload h' a])"
    using core_add_link [OF c i pc] app by auto
  have "mylock p' = mylock p" using app by (auto simp: append_job_def bind_eq_Some_conv split: if_splits)
  with m have "running h p ws = []" "running h' p' (map wake ws) = []" by simp_all
  with c c' have "map (payload h) (jobs (h, p)) @ [payload h' a] = map (payload h') (jobs (h', p'))"
    by (simp add: core_def)
  then have "length (map (payload h) (jobs (h, p)) @ [payload h' a]) = length (jobs (h', p'))"
    by (metis length_map)
  then show ?thesis by simp
qed

lemma client_work:
  assumes inv: "pool_inv s" and i: "i < length (clients s)" and step: "client_next i s = Some s'"
  shows "work s' < work s"
proof (cases "s_pool s")
  case None
  with pool_gone(2) [OF inv None i] step show ?thesis by (auto simp: client_next_def)
next
  case (Some p)
  note core = pool_invD [OF inv Some]
  let ?n = "length (workers s)"
  have here: "work (c_at i pc s) < work s" if "c_weight ?n pc < c_weight ?n (clients s ! i)" for pc
    using work_c_at [OF i, of pc] that by simp
  have move: "work (c_at i pc (s\<lparr>s_pool := Some p'\<rparr>)) < work s"
    if "c_weight ?n pc < c_weight ?n (clients s ! i)" "pool_head p' = pool_head p" for pc p'
    using work_c_at [of i "s\<lparr>s_pool := Some p'\<rparr>" pc] that i work_pool [OF Some, of p'] by simp
  note defs = client_next_def tpool_add_def tpool_wait_def wait_check_def tpool_destroy_def
    wait2_def dest_check_def acquire_Some release_Some bind_eq_Some_conv
  show ?thesis
  proof (cases "clients s ! i")
    case (C_Append a)
    then obtain h' p' where app: "append_job a (s_heap s, p) = Some (h', p')" and
      s': "s' = c_at i C_AddUnlock (broadcast_A (s\<lparr>s_heap := h', s_pool := Some p', added := added s @ [payload h' a]\<rparr>))"
      using step Some by (auto simp: client_next_def tpool_add_def add_link_def bind_eq_Some_conv)
    let ?t = "s\<lparr>s_heap := h', s_pool := Some p', added := added s @ [payload h' a]\<rparr>"
    have "work ?t = work s + 11"
      using append_job_length [OF core i C_Append app] Some by (simp add: work_def queued_def)
    moreover have "work (broadcast_A ?t) \<le> work ?t + 8 * ?n"
      using work_broadcast [of ?t] by simp
    moreover have "work s' + c_weight ?n (clients s ! i) = work (broadcast_A ?t) + c_weight ?n C_AddUnlock"
      using work_c_at [of i "broadcast_A ?t" C_AddUnlock] i unfolding s' by (simp add: broadcast_wake)
    ultimately show ?thesis using C_Append by simp
  next
    case C_DestSet
    let ?t = "s\<lparr>s_pool := Some (p\<lparr>shutdown := 1\<rparr>)\<rparr>"
    have s': "s' = c_at i C_DestCheck (broadcast_A ?t)"
      using step Some C_DestSet by (simp add: client_next_def tpool_destroy_def wait2_def)
    have "work (broadcast_A ?t) \<le> work s + 8 * ?n"
      using work_broadcast [of ?t] work_pool [OF Some, of "p\<lparr>shutdown := 1\<rparr>"] by simp
    moreover have "work s' + c_weight ?n (clients s ! i) = work (broadcast_A ?t) + c_weight ?n C_DestCheck"
      using work_c_at [of i "broadcast_A ?t" C_DestCheck] i unfolding s' by (simp add: broadcast_wake)
    ultimately show ?thesis using C_DestSet by simp
  next
    case C_Free
    then have s': "s' = c_at i C_Done (s\<lparr>s_pool := None\<rparr>)"
      using step Some by (auto simp: client_next_def tpool_destroy_def split: if_splits)
    have "work (s\<lparr>s_pool := None\<rparr>) \<le> work s" by (simp add: work_def queued_def)
    then show ?thesis
      using work_c_at [of i "s\<lparr>s_pool := None\<rparr>" C_Done] i C_Free unfolding s' by simp
  qed (use step Some in \<open>auto simp: defs intro!: move here split: if_splits\<close>)
qed

lemma inner_work: "pool_inv s \<Longrightarrow> inner s s' \<Longrightarrow> work s' < work s"
  by (erule innerE) (auto intro: eachthread_work client_work)

lemma inner_steps: "(inner ^^ k) s s' \<Longrightarrow> pool_inv s \<Longrightarrow> k + work s' \<le> work s \<and> pool_inv s'"
proof (induction k arbitrary: s')
  case (Suc k)
  then obtain t where "(inner ^^ k) s t" "inner t s'" by auto
  with Suc show ?case using inner_work [of t s'] inner_inv [of t s'] by fastforce
qed simp

section \<open>The holder of the mutex goes on\<close>

definition can_step :: "sys \<Rightarrow> thr \<Rightarrow> bool" where
  "can_step s t = (case t of
     Worker i \<Rightarrow> i < length (workers s) \<and> (\<exists>c s'. eachthread i c s = Some s')
   | Client i \<Rightarrow> i < length (clients s) \<and> (\<exists>s'. client_next i s = Some s'))"

lemma can_step_inner: "can_step s t \<Longrightarrow> \<exists>s'. inner s s'"
  by (cases t) (auto simp: can_step_def intro: inner.intros)

lemma holder_can_step:
  assumes inv: "pool_inv s" and p: "s_pool s = Some p" and m: "mylock p = Some t"
  shows "can_step s t"
proof (cases t)
  case (Worker i)
  note core = pool_invD [OF inv p]
  have i: "i < length (workers s)" using core m Worker by (simp add: core_def holder_in_def)
  have crit: "w_crit (workers s ! i)" using core_holder(1) [OF core i] m Worker by simp
  have "\<exists>c s'. eachthread i c s = Some s'"
  proof (cases "workers s ! i")
    case W_Check
    with w_check_inv [OF inv p i] show ?thesis by (auto simp: eachthread_def)
  next
    case W_Take
    with w_take_inv [OF inv p i] show ?thesis by (auto simp: eachthread_def)
  next
    case (W_Run x)
    with w_run_inv [OF inv p i] show ?thesis by (auto simp: eachthread_def)
  next
    case (W_Finish x)
    then obtain t b where
      "\<And>c. w_finish i x c s = (if b then signal_cond C_WaitSleep C_WaitWoken c t else Some t)"
      using w_finish_core [OF inv p i] by blast
    with W_Finish signal_possible [of C_WaitSleep C_WaitWoken t] show ?thesis
      by (cases b) (auto simp: eachthread_def)
  next
    case W_Exit
    with w_exit_core(2) [OF inv p i] signal_possible [of C_DestSleep C_DestWoken
        "w_at i W_Unlock3 (s\<lparr>s_pool := Some (p\<lparr>tc := tc p - 1\<rparr>)\<rparr>)"] show ?thesis
      by (simp add: eachthread_def)
  qed (use crit p m Worker in \<open>simp_all add: eachthread_def release_def\<close>)
  with i Worker show ?thesis by (simp add: can_step_def)
next
  case (Client i)
  note core = pool_invD [OF inv p]
  have i: "i < length (clients s)" using core m Client by (simp add: core_def holder_in_def)
  have crit: "c_crit (clients s ! i)" using core_holder(2) [OF core i] m Client by simp
  have "\<exists>s'. client_next i s = Some s'"
  proof (cases "clients s ! i")
    case (C_Append a)
    with add_link_inv [OF inv p i] show ?thesis by (auto simp: client_next_def tpool_add_def)
  next
    case C_WaitCheck
    with wait_check_inv [OF inv p i] show ?thesis by (auto simp: client_next_def tpool_wait_def)
  next
    case C_DestCheck
    with dest_check_inv [OF inv p i] show ?thesis
      by (auto simp: client_next_def tpool_destroy_def wait2_def)
  qed (use crit p m Client in \<open>simp_all add: client_next_def tpool_add_def tpool_wait_def
      tpool_destroy_def wait2_def release_def\<close>)
  with i Client show ?thesis by (simp add: can_step_def)
qed

section \<open>When nothing moves\<close>

lemma stuck_points:
  assumes inv: "pool_inv s" and p: "s_pool s = Some p" and stuck: "\<nexists>s'. inner s s'"
  shows "mylock p = None"
    and "i < length (workers s) \<Longrightarrow> workers s ! i = W_Sleep \<or> workers s ! i = W_Gone"
    and "k < length (clients s) \<Longrightarrow> clients s ! k = C_Idle \<or> clients s ! k = C_WaitSleep \<or> clients s ! k = C_DestSleep"
proof -
  note core = pool_invD [OF inv p]
  have no: "\<not> can_step s t" for t using stuck can_step_inner by blast
  show m: "mylock p = None" using holder_can_step [OF inv p] no by (cases "mylock p") auto
  show "workers s ! i = W_Sleep \<or> workers s ! i = W_Gone" if i: "i < length (workers s)"
  proof -
    have "eachthread i c s = None" for c using no [of "Worker i"] i by (simp add: can_step_def)
    with core_holder(1) [OF core i] m p show ?thesis
      by (cases "workers s ! i") (auto simp: eachthread_def acquire_def)
  qed
  show "clients s ! k = C_Idle \<or> clients s ! k = C_WaitSleep \<or> clients s ! k = C_DestSleep"
    if k: "k < length (clients s)"
  proof -
    have none: "client_next k s = None" using no [of "Client k"] k by (simp add: can_step_def)
    moreover have "clients s ! k \<noteq> C_Free"
    proof
      assume free: "clients s ! k = C_Free"
      with free_inv [OF inv p k] none show False by (simp add: client_next_def)
    qed
    moreover have "clients s ! k \<noteq> C_Done" using core_c [OF core k] by (simp add: c_ok_def)
    ultimately show ?thesis using core_holder(2) [OF core k] m p
      by (cases "clients s ! k") (auto simp: client_next_def tpool_add_def tpool_wait_def
          tpool_destroy_def wait2_def acquire_def)
  qed
qed

lemma stuck_single:
  assumes inv: "live_inv s" and p: "s_pool s = Some p" and stuck: "\<nexists>s'. inner s s'"
    and n: "0 < length (workers s)" and m: "length (clients s) = 1"
  shows "clients s = [C_Idle] \<and> ran s = added s"
proof -
  have pinv: "pool_inv s" and sl: "sleep_at p (clients s)"
    using inv p by (simp_all add: live_inv_def sleep_ok_def)
  note core = pool_invD [OF pinv p] and sp = stuck_points [OF pinv p stuck]
  obtain c where cl: "clients s = [c]" using m by (cases "clients s") auto
  have c: "c = C_Idle \<or> c = C_WaitSleep \<or> c = C_DestSleep" using sp(3) [of 0] cl by simp
  have ok: "jobs_ok (s_heap s, p)" using core by (simp add: core_def)
  have "map w_held (workers s) = replicate (length (workers s)) {#}"
  proof (rule nth_equalityI)
    show "map w_held (workers s) ! i = replicate (length (workers s)) {#} ! i"
      if "i < length (map w_held (workers s))" for i
      using sp(2) [of i] that by auto
  qed simp
  then have held: "sum_list (map w_held (workers s)) = {#}" by simp
  then have jc: "jc p = 0" using core by (simp add: core_def)
  have w0: "w_ok p 0 (workers s ! 0)" using core_w [OF core n] .
  have "c \<noteq> C_DestSleep"
  proof
    assume "c = C_DestSleep"
    then have shut: "shutdown p = 1" and "tc p \<noteq> 0"
      using core_c [OF core, of 0] cl sl by (simp_all add: c_ok_def c_shut_def sleep_at_def)
    have "workers s ! i = W_Gone" if "i < length (workers s)" for i
      using sp(2) [OF that] core_w [OF core that] shut by (auto simp: w_ok_def)
    then have "map w_alive (workers s) = replicate (length (workers s)) 0"
      by (intro nth_equalityI) (simp_all add: w_alive_def)
    then have "sum_list (map w_alive (workers s)) = 0" by (simp add: sum_list_replicate)
    with core \<open>tc p \<noteq> 0\<close> show False by (simp add: core_def)
  qed
  then have "\<not> list_ex c_shut (clients s)" using c cl by (auto simp: c_shut_def)
  then have shut: "shutdown p = 0" using core by (simp add: core_def)
  then have "workers s ! 0 = W_Sleep" using sp(2) [OF n] w0 by (auto simp: w_ok_def w_leaving_def)
  then have head: "pool_head p = None" using w0 by (simp add: w_ok_def)
  with sl cl jc have "c \<noteq> C_WaitSleep" by (simp add: sleep_at_def)
  moreover have "running (s_heap s) p (workers s) = []" using sp(1) by (simp add: running_def)
  moreover have "jobs (s_heap s, p) = []" using jobs_empty [OF ok] head by simp
  ultimately show ?thesis using core c cl \<open>c \<noteq> C_DestSleep\<close> by (simp add: core_def)
qed

section \<open>What only grows\<close>

definition grows :: "sys \<Rightarrow> sys \<Rightarrow> bool" where
  "grows s s' \<longleftrightarrow> length (workers s') = length (workers s) \<and> length (clients s') = length (clients s) \<and>
     prefix (ran s) (ran s') \<and> prefix (added s) (added s')"

lemma grows_refl: "grows s s"
  by (simp add: grows_def)

lemma grows_trans: "grows a b \<Longrightarrow> grows b c \<Longrightarrow> grows a c"
  by (auto simp: grows_def intro: prefix_order.trans)

lemma signal_grows: "signal_cond a b c s = Some s' \<Longrightarrow> length (workers s') = length (workers s) \<and>
    length (clients s') = length (clients s) \<and> ran s' = ran s \<and> added s' = added s"
  by (auto simp: signal_cond_def c_at_def split: if_splits)

lemma eachthread_grows: "eachthread i c s = Some s' \<Longrightarrow> grows s s'"
  by (cases "workers s ! i")
    (auto simp: eachthread_def acquire_Some release_Some bind_eq_Some_conv w_check_def w_take_def
      w_run_def w_finish_def w_exit_def w_at_def grows_def split: if_splits option.splits
      dest!: signal_grows)

lemma client_grows: "client_next i s = Some s' \<Longrightarrow> grows s s'"
  by (cases "clients s ! i")
    (auto simp: client_next_def tpool_add_def add_link_def tpool_wait_def wait_check_def
      tpool_destroy_def wait2_def dest_check_def acquire_Some release_Some bind_eq_Some_conv
      c_at_def broadcast_A_def grows_def split: if_splits)

lemma pool_step_grows: "pool_step s s' \<Longrightarrow> grows s s'"
  by (induction rule: pool_step.induct)
    (auto elim!: innerE intro: eachthread_grows client_grows, auto simp: add_begin_def c_at_def w_at_def grows_def)

lemma reach_grows: "reach pool_step s s' \<Longrightarrow> grows s s'"
  by (induction rule: reach.induct) (auto intro: grows_refl grows_trans pool_step_grows)

section \<open>Executable runs\<close>

datatype action = Work nat nat | Call nat | Begin_add nat nat nat | Begin_wait nat | Begin_destroy nat

fun act :: "action \<Rightarrow> sys \<Rightarrow> sys option" where
  "act (Work i c) s = (if i < length (workers s) then eachthread i c s else None)"
| "act (Call i) s = (if i < length (clients s) then client_next i s else None)"
| "act (Begin_add i f a) s = (if i < length (clients s) \<and> clients s ! i = C_Idle \<and>
     \<not> list_ex closing (clients s) then Some (add_begin i f a s) else None)"
| "act (Begin_wait i) s = (if i < length (clients s) \<and> clients s ! i = C_Idle \<and>
     \<not> list_ex closing (clients s) then Some (c_at i C_WaitLock s) else None)"
| "act (Begin_destroy i) s = (if i < length (clients s) \<and> list_all (\<lambda>pc. pc = C_Idle) (clients s)
     then Some (c_at i C_DestLock s) else None)"

fun acts :: "action list \<Rightarrow> sys \<Rightarrow> sys option" where
  "acts [] s = Some s"
| "acts (a # as) s = (case act a s of None \<Rightarrow> None | Some t \<Rightarrow> acts as t)"

lemma act_step: "act a s = Some t \<Longrightarrow> pool_step s t"
  by (cases a) (auto split: if_splits simp: list_all_iff intro: pool_step.intros inner.intros)

lemma acts_reach: "acts as s = Some t \<Longrightarrow> reach pool_step s t"
proof (induction as arbitrary: s)
  case (Cons a as)
  then obtain u where "act a s = Some u" "acts as u = Some t" by (auto split: option.splits)
  then show ?case using Cons.IH [of u] act_step [of a s u]
    by (meson reach_init reach_step reach_trans)
qed simp

end
