(* ===== verification/Pool_Clients.thy ===== *)
theory Pool_Clients
  imports Pool_Live CNumbers
begin

text \<open>
  Programs that use the pool: the main thread makes a sequence of calls, one after the other, while
  the workers run. The two programs under \<open>MultiThread/testcases/\<close> add jobs, wait and destroy.
\<close>

section \<open>A main thread that makes calls\<close>

datatype call = Add nat nat | Wait | Destroy

fun begin_call :: "call \<Rightarrow> sys \<Rightarrow> sys" where
  "begin_call (Add func arg) s = add_begin 0 func arg s"
| "begin_call Wait s = c_at 0 C_WaitLock s"
| "begin_call Destroy s = c_at 0 C_DestLock s"

text \<open>
  The number of calls begun and the state of the threads. \<open>main_step\<close> is what the threads do on their own,
  \<open>prog_step\<close> allows a sleeper to wake up without a signal as well.
\<close>

inductive main_step :: "call list \<Rightarrow> nat \<times> sys \<Rightarrow> nat \<times> sys \<Rightarrow> bool" for cs where
  within: "inner s s' \<Longrightarrow> main_step cs (k, s) (k, s')"
| begin_next: "\<lbrakk>k < length cs; clients s = [C_Idle]\<rbrakk> \<Longrightarrow> main_step cs (k, s) (Suc k, begin_call (cs ! k) s)"

inductive prog_step :: "call list \<Rightarrow> nat \<times> sys \<Rightarrow> nat \<times> sys \<Rightarrow> bool" for cs where
  main: "main_step cs x y \<Longrightarrow> prog_step cs x y"
| wake_worker: "\<lbrakk>i < length (workers s); workers s ! i = W_Sleep\<rbrakk> \<Longrightarrow> prog_step cs (k, s) (k, w_at i W_Woken s)"
| wake_wait: "clients s = [C_WaitSleep] \<Longrightarrow> prog_step cs (k, s) (k, c_at 0 C_WaitWoken s)"
| wake_dest: "clients s = [C_DestSleep] \<Longrightarrow> prog_step cs (k, s) (k, c_at 0 C_DestWoken s)"

section \<open>\<open>testcases/sample/main.c\<close>\<close>

text \<open>The functions are numbered, and an argument is the index of an element of \<open>arg\<close>.\<close>

definition func0 :: "int \<Rightarrow> string" where "func0 x = ''func 0: '' @ intTostr x"
definition func1 :: "int \<Rightarrow> string" where "func1 x = ''func 1: '' @ intTostr x"

definition sample_funcs :: "nat list" where "sample_funcs = [0, 1, 0]"
definition sample_arg :: "int list" where "sample_arg = map int [0..<3]"

definition sample_main :: "call list" where
  "sample_main = map (\<lambda>i. Add (sample_funcs ! i) i) [0..<3] @ [Wait, Destroy]"

text \<open>The line a job prints.\<close>

definition sample_job :: "nat \<times> nat \<Rightarrow> string" where
  "sample_job = (\<lambda>(f, i). if f = 0 then func0 (sample_arg ! i) else func1 (sample_arg ! i))"

section \<open>\<open>testcases/bench/main.c\<close>\<close>

text \<open>Signed arithmetic of 64 bits; to leave its range is undefined.\<close>

definition LL :: "int \<Rightarrow> int option" where
  "LL x = (if - (2 ^ 63) \<le> x \<and> x < 2 ^ 63 then Some x else None)"

partial_function (option) collatz_loop :: "int \<Rightarrow> int \<Rightarrow> int option" where
  "collatz_loop x cnt = (if x = 1 then Some cnt else do {
     x \<leftarrow> (if odd x then do { y \<leftarrow> LL (x * 3); LL (y + 1) } else Some (x div 2));
     cnt \<leftarrow> LL (cnt + 1);
     collatz_loop x cnt })"

definition Collatz :: "int \<Rightarrow> int option" where
  "Collatz x = collatz_loop x 0"

definition bench_arg :: "nat \<Rightarrow> int" where "bench_arg i = 0x10000000 + int i"

definition bench_M :: nat where "bench_M = 0x800000"

definition bench_main :: "call list" where
  "bench_main = map (Add 0) [0..<bench_M] @ [Wait, Destroy]"

text \<open>When \<open>Collatz\<close> returns, its argument is positive and the count is right.\<close>

definition collatz_next :: "int \<Rightarrow> int" where
  "collatz_next x = (if odd x then 3 * x + 1 else x div 2)"

lemma collatz_loop_induct [consumes 1]:
  assumes "collatz_loop x cnt = Some r"
    and "\<And>rec x cnt r. (\<And>x cnt r. rec x cnt = Some r \<Longrightarrow> P x cnt r) \<Longrightarrow>
      (if x = 1 then Some cnt else do {
         x \<leftarrow> (if odd x then do { y \<leftarrow> LL (x * 3); LL (y + 1) } else Some (x div 2));
         cnt \<leftarrow> LL (cnt + 1);
         rec x cnt }) = Some r \<Longrightarrow> P x cnt r"
  shows "P x cnt r"
  by (rule collatz_loop.raw_induct [of P "(x, cnt)" r, unfolded prod.case]) (fact assms(2), fact assms(1))

lemma collatz_loop_result:
  "collatz_loop x cnt = Some r \<Longrightarrow> 0 < x \<and> cnt \<le> r \<and> (collatz_next ^^ nat (r - cnt)) x = 1"
proof (induction rule: collatz_loop_induct)
  case (1 rec x cnt r)
  show ?case
  proof (cases "x = 1")
    case True
    with 1(2) show ?thesis by simp
  next
    case False
    with 1(2) have IH: "rec (collatz_next x) (cnt + 1) = Some r"
      by (auto simp: bind_eq_Some_conv LL_def collatz_next_def mult.commute split: if_splits)
    note IH = 1(1) [OF IH]
    then have "0 < x" by (cases "odd x") (auto simp: collatz_next_def elim!: oddE evenE)
    moreover have "nat (r - cnt) = Suc (nat (r - (cnt + 1)))"
      using IH by (simp add: Suc_nat_eq_nat_zadd1)
    ultimately show ?thesis using IH by (simp add: funpow_swap1)
  qed
qed


section \<open>What a step leaves of the calls\<close>

text \<open>The calls of a program that adds jobs, waits for them and destroys the pool.\<close>

definition calls_of :: "(nat \<times> nat) list \<Rightarrow> call list" where
  "calls_of js = map (\<lambda>(f, a). Add f a) js @ [Wait, Destroy]"

fun pending :: "cpc \<Rightarrow> addr option" where
  "pending (C_AddLock a) = Some a" | "pending (C_Append a) = Some a" | "pending _ = None"

text \<open>How many of \<open>m\<close> additions and two more calls are begun when the main thread stands at a place.\<close>

fun stage :: "nat \<Rightarrow> nat \<Rightarrow> cpc \<Rightarrow> bool" where
  "stage m k C_Idle \<longleftrightarrow> k \<le> Suc m"
| "stage m k (C_AddLock a) \<longleftrightarrow> 0 < k \<and> k \<le> m" | "stage m k (C_Append a) \<longleftrightarrow> 0 < k \<and> k \<le> m"
| "stage m k C_AddUnlock \<longleftrightarrow> 0 < k \<and> k \<le> m"
| "stage m k C_WaitLock \<longleftrightarrow> k = Suc m" | "stage m k C_WaitCheck \<longleftrightarrow> k = Suc m" | "stage m k C_WaitSleep \<longleftrightarrow> k = Suc m"
| "stage m k C_WaitWoken \<longleftrightarrow> k = Suc m" | "stage m k C_WaitUnlock \<longleftrightarrow> k = Suc m"
| "stage m k _ \<longleftrightarrow> k = Suc (Suc m)"

definition waited :: "nat \<Rightarrow> nat \<Rightarrow> cpc \<Rightarrow> bool" where
  "waited m k pc \<longleftrightarrow> k = Suc m \<and> (pc = C_Idle \<or> pc = C_WaitUnlock) \<or> k = Suc (Suc m)"

definition prog_inv :: "(nat \<times> nat) list \<Rightarrow> nat \<times> sys \<Rightarrow> bool" where
  "prog_inv js = (\<lambda>(k, s). pool_inv s \<and> (\<exists>pc. clients s = [pc] \<and> stage (length js) k pc \<and>
     added s = take (if pending pc = None then k else k - 1) js \<and>
     (\<forall>a. pending pc = Some a \<longrightarrow> payload (s_heap s) a = js ! (k - 1)) \<and>
     (waited (length js) k pc \<longrightarrow> ran s = added s)))"

lemma append_job_payload: "append_job a (h, p) = Some (h', p') \<Longrightarrow> payload h' = payload h"
  by (auto simp: append_job_def bind_eq_Some_conv heap_set_def payload_def heap_get_def nth_upd fun_eq_iff
      split: if_splits option.splits)

text \<open>A worker changes the place of the main thread only by waking it, and frees only blocks.\<close>

definition woken :: "cpc \<Rightarrow> cpc \<Rightarrow> bool" where
  "woken pc pc' \<longleftrightarrow> pc' = pc \<or> pc = C_WaitSleep \<and> pc' = C_WaitWoken \<or> pc = C_DestSleep \<and> pc' = C_DestWoken"

lemma signal_woken:
  "signal_cond a b c s = Some s' \<Longrightarrow> clients s = [pc] \<Longrightarrow> (a, b) \<in> {(C_WaitSleep, C_WaitWoken), (C_DestSleep, C_DestWoken)} \<Longrightarrow>
    (\<exists>pc'. clients s' = [pc'] \<and> woken pc pc') \<and> s_heap s' = s_heap s \<and> added s' = added s"
  by (auto simp: signal_cond_def c_at_def woken_def split: if_splits)

lemma worker_effect:
  assumes "eachthread i c s = Some s'" and "clients s = [pc]"
  shows "(\<exists>pc'. clients s' = [pc'] \<and> woken pc pc') \<and> added s' = added s \<and>
    (\<forall>a. heap_get (s_heap s') (Some a) = heap_get (s_heap s) (Some a) \<or> heap_get (s_heap s') (Some a) = None)"
  using assms
  by (cases "workers s ! i")
    (auto simp: eachthread_def acquire_Some release_Some bind_eq_Some_conv w_check_def w_take_def take_job_def
      w_run_def w_finish_def w_exit_def w_at_def woken_def heap_free_def heap_get_def nth_upd
      split: if_splits option.splits dest!: signal_woken)


text \<open>When \<open>tpool_wait\<close> is about to return, all jobs have been run.\<close>

lemma returning_wait:
  assumes inv: "pool_inv s" and i: "i < length (clients s)" and pc: "clients s ! i = C_WaitUnlock"
  shows "ran s = added s"
proof (cases "s_pool s")
  case None
  with pool_gone(2) [OF inv None i] pc show ?thesis by simp
next
  case (Some p)
  note core = pool_invD [OF inv Some]
  have "mylock p = Some (Client i)" using core_holder(2) [OF core i] pc by simp
  moreover have "pool_head p = None" using core_c [OF core i] pc by (simp add: c_ok_def)
  ultimately show ?thesis using core jobs_empty [of "s_heap s" p] by (simp add: core_def)
qed

lemma pool_prefix:
  assumes "pool_inv s" and "s_pool s \<noteq> None"
  shows "prefix (ran s) (added s)"
  using assms pool_invD [of s] by (auto simp: core_def)

lemma held_payload:
  assumes inv: "pool_inv s" and pc: "clients s = [pc]" and a: "pending pc = Some a"
  shows "heap_get (s_heap s) (Some a) \<noteq> None"
proof -
  have held: "a \<in># c_held pc" using a by (cases pc) auto
  obtain p where "s_pool s = Some p"
    using pool_gone(2) [OF inv, of 0] pc a by (cases "s_pool s") auto
  from pool_invD [OF inv this] held pc show ?thesis by (force simp: core_def owners_def)
qed

lemma prog_worker:
  assumes inv: "prog_inv js (k, s)" and i: "i < length (workers s)" and step: "eachthread i c s = Some s'"
  shows "prog_inv js (k, s')"
proof -
  from inv obtain pc where p: "pool_inv s" "clients s = [pc]" "stage (length js) k pc"
    "added s = take (if pending pc = None then k else k - 1) js"
    "\<And>a. pending pc = Some a \<Longrightarrow> payload (s_heap s) a = js ! (k - 1)"
    "waited (length js) k pc \<Longrightarrow> ran s = added s" by (auto simp: prog_inv_def)
  have inv': "pool_inv s'" using eachthread_inv [OF p(1) i step] .
  from worker_effect [OF step p(2)] obtain pc' where e: "clients s' = [pc']" "woken pc pc'" "added s' = added s"
    "\<And>a. heap_get (s_heap s') (Some a) = heap_get (s_heap s) (Some a) \<or> heap_get (s_heap s') (Some a) = None"
    by blast
  have pc': "stage (length js) k pc'" "pending pc' = pending pc" "waited (length js) k pc' = waited (length js) k pc"
    using e(2) p(3) by (auto simp: woken_def waited_def)
  have "payload (s_heap s') a = payload (s_heap s) a" if "pending pc = Some a" for a
    using held_payload [OF inv' e(1), of a] e(4) [of a] pc'(2) that by (auto simp: payload_def)
  moreover have "ran s' = added s'" if "waited (length js) k pc'"
  proof -
    have "ran s = added s" using p(6) pc'(3) that by simp
    moreover have "prefix (ran s) (ran s')" using eachthread_grows [OF step] by (simp add: grows_def)
    moreover have "prefix (ran s') (added s')"
    proof (rule pool_prefix [OF inv'])
      show "s_pool s' \<noteq> None"
      proof
        assume "s_pool s' = None"
        moreover have "s_pool s \<noteq> None"
          using pool_gone(1) [OF p(1) _ i] step by (cases "s_pool s") (auto simp: eachthread_def)
        ultimately show False using step
          by (cases "workers s ! i")
            (auto simp: eachthread_def acquire_Some release_Some bind_eq_Some_conv w_check_def w_take_def w_run_def
              w_finish_def w_exit_def w_at_def signal_cond_def c_at_def split: if_splits option.splits)
      qed
    qed
    ultimately show ?thesis using e(3) by (metis prefix_order.antisym)
  qed
  ultimately show ?thesis using inv' e p(4,5) pc' by (simp add: prog_inv_def)
qed

lemma prog_client:
  assumes inv: "prog_inv js (k, s)" and i: "i < length (clients s)" and step: "client_next i s = Some s'"
  shows "prog_inv js (k, s')"
proof -
  from inv obtain pc where p: "pool_inv s" "clients s = [pc]" "stage (length js) k pc"
    "added s = take (if pending pc = None then k else k - 1) js"
    "\<And>a. pending pc = Some a \<Longrightarrow> payload (s_heap s) a = js ! (k - 1)"
    "waited (length js) k pc \<Longrightarrow> ran s = added s" by (auto simp: prog_inv_def)
  have i0: "i = 0" using i p(2) by simp
  have inv': "pool_inv s'" using client_next_inv [OF p(1) i step] .
  have one: "\<exists>k'. k = Suc k'" if "pending pc \<noteq> None"
    using that p(3) by (cases pc; cases k) auto
  have "ran s' = added s'" if "clients s' = [C_WaitUnlock]"
    using returning_wait [OF inv', of 0] that by simp
  then show ?thesis
    using step inv' p one unfolding i0
    by (cases pc)
      (auto simp: prog_inv_def client_next_def tpool_add_def add_link_def tpool_wait_def wait_check_def
        tpool_destroy_def wait2_def dest_check_def acquire_Some release_Some bind_eq_Some_conv c_at_def broadcast_A_def waited_def
        take_Suc_conv_app_nth append_job_payload split: if_splits)
qed


lemma prog_begin:
  assumes inv: "prog_inv js (k, s)" and k: "k < length (calls_of js)" and idle: "clients s = [C_Idle]"
  shows "prog_inv js (Suc k, begin_call (calls_of js ! k) s) \<and> pool_step s (begin_call (calls_of js ! k) s)"
proof -
  from inv idle have p: "pool_inv s" "k \<le> Suc (length js)" "added s = take k js"
    "k = Suc (length js) \<Longrightarrow> ran s = added s" by (auto simp: prog_inv_def waited_def)
  have enabled: "0 < length (clients s)" "clients s ! 0 = C_Idle" "\<not> list_ex closing (clients s)"
    "\<forall>pc \<in> set (clients s). pc = C_Idle" using idle by (simp_all add: closing_def)
  have step: "pool_step s (begin_call (calls_of js ! k) s)"
    using enabled pool_step.add [of 0 s] pool_step.wait [of 0 s] pool_step.destroy [of 0 s]
    by (cases "calls_of js ! k") auto
  consider "k < length js" | "k = length js" | "k = Suc (length js)" using k by (fastforce simp: calls_of_def)
  then show ?thesis
    using step pool_step_inv [OF p(1) step] idle p
    by cases (auto simp: prog_inv_def calls_of_def nth_append case_prod_unfold add_begin_def c_at_def waited_def
        payload_def heap_get_def)
qed

lemma prog_step_inv:
  assumes inv: "prog_inv js x" and step: "prog_step (calls_of js) x y"
  shows "prog_inv js y"
  using step
proof cases
  case main
  then show ?thesis
  proof cases
    case (within s s' k)
    with inv show ?thesis by (auto elim!: innerE intro: prog_worker prog_client)
  next
    case (begin_next k s)
    with inv prog_begin show ?thesis by simp
  qed
next
  case (wake_worker i s k)
  moreover have "pool_inv s \<Longrightarrow> pool_inv (w_at i W_Woken s)"
    using pool_step_inv pool_step.wake_A wake_worker(3,4) by blast
  ultimately show ?thesis using inv by (auto simp: prog_inv_def w_at_def)
next
  case (wake_wait s k)
  moreover have "pool_inv s \<Longrightarrow> pool_inv (c_at 0 C_WaitWoken s)"
    using pool_step_inv pool_step.wake_B [of 0 s] wake_wait(3) by auto
  ultimately show ?thesis using inv by (auto simp: prog_inv_def c_at_def waited_def)
next
  case (wake_dest s k)
  moreover have "pool_inv s \<Longrightarrow> pool_inv (c_at 0 C_DestWoken s)"
    using pool_step_inv pool_step.wake_C [of 0 s] wake_dest(3) by auto
  ultimately show ?thesis using inv by (auto simp: prog_inv_def c_at_def waited_def)
qed

lemma prog_start: "prog_inv js (0, tpool_init n 1)"
proof -
  have "clients (tpool_init n 1) = [C_Idle]" "added (tpool_init n 1) = []" "ran (tpool_init n 1) = []"
    by (simp_all add: tpool_init_def)
  then show ?thesis using pool_init_inv [of n 1] unfolding prog_inv_def prod.case by (intro conjI exI [of _ C_Idle]) simp_all
qed

interpretation program: transition_invariant "prog_step (calls_of js)" "\<lambda>x. \<exists>n. x = (0, tpool_init n 1)" "prog_inv js"
  for js
  by unfold_locales (use prog_start in blast, rule prog_step_inv)


section \<open>The program comes to its end\<close>

text \<open>The program reaches only states of the pool, so all that is proved of these holds for it.\<close>

lemma prog_pool_steps:
  assumes inv: "prog_inv js (k, s)" and step: "prog_step (calls_of js) (k, s) (k', s')"
  shows "pool_step s s'"
  using step
proof cases
  case main
  then show ?thesis
  proof cases
    case within
    then show ?thesis by (auto intro: pool_step.step)
  next
    case begin_next
    with prog_begin [OF inv] show ?thesis by simp
  qed
next
  case (wake_worker i)
  then show ?thesis by (auto intro: pool_step.wake_A)
next
  case wake_wait
  with pool_step.wake_B [of 0 s] show ?thesis by simp
next
  case wake_dest
  with pool_step.wake_C [of 0 s] show ?thesis by simp
qed

lemma prog_reach:
  "reach (prog_step (calls_of js)) (0, tpool_init n 1) (k, s) \<Longrightarrow> reach pool_step (tpool_init n 1) s \<and> prog_inv js (k, s)"
proof (induction "(k, s)" arbitrary: k s rule: reach.induct)
  case (reach_step x)
  obtain k0 s0 where x: "x = (k0, s0)" by (cases x)
  with reach_step have "reach pool_step (tpool_init n 1) s0" "prog_inv js (k0, s0)" by auto
  with reach_step(3) x prog_pool_steps prog_step_inv show ?case
    by (metis reach.reach_step)
qed (use prog_start [of js n] in simp)

definition main_work :: "nat \<Rightarrow> nat \<times> sys \<Rightarrow> nat" where
  "main_work m = (\<lambda>(k, s). work s + (m - k) * (15 + 8 * length (workers s)))"

lemma main_step_work:
  assumes inv: "prog_inv js x" and step: "main_step (calls_of js) x y"
  shows "main_work (length (calls_of js)) y < main_work (length (calls_of js)) x"
  using step
proof cases
  case (within s s' k)
  then have "length (workers s') = length (workers s)"
    by (auto elim!: innerE dest!: eachthread_grows client_grows simp: grows_def)
  moreover have "work s' < work s" using inner_work inv within by (auto simp: prog_inv_def)
  ultimately show ?thesis using within by (simp add: main_work_def)
next
  case (begin_next k s)
  let ?n = "length (workers s)" and ?c = "calls_of js ! k"
  have i: "0 < length (clients s)" "clients s ! 0 = C_Idle" using begin_next by simp_all
  have "queued (add_begin 0 f a s) = queued s" for f a
  proof (cases "s_pool s")
    case (Some p)
    have "jobs_ok (s_heap s, p)" using inv begin_next Some pool_invD [of s p] by (auto simp: prog_inv_def core_def)
    with jobs_malloc [OF this] Some show ?thesis by (simp add: queued_def add_begin_def c_at_def)
  qed (simp add: queued_def add_begin_def c_at_def)
  then have "work (begin_call ?c s) < work s + (15 + 8 * ?n)"
    using begin_next(4) by (cases ?c) (simp_all add: work_def add_begin_def c_at_def)
  moreover have "length (workers (begin_call ?c s)) = ?n"
    by (cases ?c) (simp_all add: add_begin_def c_at_def)
  moreover have "length (calls_of js) - k = Suc (length (calls_of js) - Suc k)" using begin_next(3) by simp
  ultimately show ?thesis using begin_next(1,2) by (simp add: main_work_def)
qed

lemma main_steps_work:
  "(main_step (calls_of js) ^^ t) x y \<Longrightarrow> prog_inv js x \<Longrightarrow>
    t + main_work (length (calls_of js)) y \<le> main_work (length (calls_of js)) x \<and> prog_inv js y"
proof (induction t arbitrary: y)
  case (Suc t)
  then obtain z where z: "(main_step (calls_of js) ^^ t) x z" "main_step (calls_of js) z y" by auto
  with Suc have "t + main_work (length (calls_of js)) z \<le> main_work (length (calls_of js)) x" "prog_inv js z" by auto
  with main_step_work [OF this(2) z(2)] prog_step_inv [OF this(2) prog_step.main [OF z(2)]] show ?case by simp
qed simp

text \<open>At the end the pool is gone, the workers have left and every block is freed.\<close>

lemma program_end:
  assumes inv: "prog_inv js (k, s)" and fin: "clients s = [C_Done]"
  shows "ran s = js \<and> s_pool s = None \<and> (\<forall>pc \<in> set (workers s). pc = W_Gone) \<and> (\<forall>b \<in> set (s_heap s). b = None)"
proof -
  from inv fin have p: "pool_inv s" "ran s = js" "added s = js" by (auto simp: prog_inv_def waited_def)
  have gone: "s_pool s = None"
  proof (cases "s_pool s")
    case (Some q)
    from core_c [OF pool_invD [OF p(1) Some], of 0] fin show ?thesis by (simp add: c_ok_def)
  qed
  have "pool_ended s" using p(1) gone by (simp add: pool_inv_def)
  then have "\<forall>pc \<in> set (workers s). pc = W_Gone" "card (live (s_heap s)) = 0"
    using p(2,3) by (auto simp: pool_ended_def)
  moreover have "finite (live (s_heap s))" by (rule finite_live)
  ultimately show ?thesis using gone p(2) by (auto simp: live_def in_set_conv_nth)
qed

lemma program_stuck:
  assumes r: "reach (prog_step (calls_of js)) (0, tpool_init (Suc n) 1) (k, s)"
    and stuck: "\<nexists>y. main_step (calls_of js) (k, s) y"
  shows "clients s = [C_Done]"
proof -
  from prog_reach [OF r] have rp: "reach pool_step (tpool_init (Suc n) 1) s" and inv: "prog_inv js (k, s)" by auto
  from inv obtain pc where pc: "clients s = [pc]" "stage (length js) k pc" "pool_inv s" by (auto simp: prog_inv_def)
  have no: "\<nexists>s'. inner s s'" using stuck by (auto intro: main_step.intros)
  have "pc \<noteq> C_Idle"
  proof
    assume idle: "pc = C_Idle"
    with pc have "k < length (calls_of js)" by (simp add: calls_of_def)
    with idle pc(1) stuck show False by (auto intro: main_step.intros)
  qed
  show ?thesis
  proof (cases "s_pool s")
    case None
    with pool_gone(2) [OF pc(3) None, of 0] pc(1) \<open>pc \<noteq> C_Idle\<close> show ?thesis by simp
  next
    case (Some p)
    have "length (workers s) = Suc n" using reach_grows [OF rp] by (simp add: grows_def tpool_init_def)
    with stuck_single [OF _ Some no] pool_live.reach_inv [OF _ rp] pc(1) \<open>pc \<noteq> C_Idle\<close> show ?thesis by auto
  qed
qed


lemma program_finishes:
  "reach (prog_step (calls_of js)) (0, tpool_init (Suc n) 1) x \<Longrightarrow>
    \<exists>y. reach (prog_step (calls_of js)) (0, tpool_init (Suc n) 1) y \<and> clients (snd y) = [C_Done]"
proof (induction "main_work (length (calls_of js)) x" arbitrary: x rule: less_induct)
  case less
  have inv: "prog_inv js x" using prog_reach less.prems by (cases x) blast
  show ?case
  proof (cases "\<exists>y. main_step (calls_of js) x y")
    case True
    then obtain y where y: "main_step (calls_of js) x y" by blast
    from less.hyps [OF main_step_work [OF inv y] reach_step [OF less.prems prog_step.main [OF y]]] show ?thesis .
  next
    case False
    then have "clients (snd x) = [C_Done]" using program_stuck less.prems by (cases x) auto
    with less.prems show ?thesis by blast
  qed
qed

lemma ran_prefix:
  assumes inv: "prog_inv js (k, s)"
  shows "prefix (ran s) js"
proof (cases "s_pool s")
  case None
  from inv obtain pc where pc: "clients s = [pc]" "pool_inv s" by (auto simp: prog_inv_def)
  then have "pc = C_Done" using pool_gone(2,3) [OF pc(2) None] by (force simp: closing_def)
  with program_end [OF inv] pc show ?thesis by simp
next
  case (Some p)
  then have "prefix (ran s) (added s)" using pool_prefix inv by (auto simp: prog_inv_def)
  moreover have "prefix (added s) js" using inv by (auto simp: prog_inv_def intro: take_is_prefix)
  ultimately show ?thesis by (rule prefix_order.trans)
qed

lemma sample_calls: "sample_main = calls_of [(0, 0), (1, 1), (0, 2)]"
  by (simp add: sample_main_def calls_of_def sample_funcs_def upt_rec)

lemma bench_calls: "bench_main = calls_of (map (Pair 0) [0..<bench_M])"
  by (simp add: bench_main_def calls_of_def o_def)

text \<open>The jobs of \<open>bench\<close> are all run, in order, before \<open>arg\<close> is freed.\<close>

lemma bench_runs_all:
  assumes "reach (prog_step bench_main) (0, tpool_init 10 1) (k, s)" and "clients s = [C_Done]"
  shows "ran s = map (Pair 0) [0..<bench_M]"
  using assms program_end prog_reach unfolding bench_calls by blast

end
