(* ===== verification/Pool_Props.thy ===== *)
theory Pool_Props
  imports Pool_Clients
begin

text \<open>
  The properties of the thread pool, with runs of one worker as witnesses.
\<close>

section \<open>Runs for the witnesses\<close>

text \<open>Client 0 adds a job; the only worker, asleep, is woken and runs it; the client waits.\<close>

definition add_trace :: "action list" where
  "add_trace = [Work 0 0, Work 0 0, Begin_add 0 7 8, Call 0, Call 0, Call 0]"

definition job_trace :: "action list" where
  "job_trace = add_trace @ [Work 0 0, Work 0 0, Work 0 0]"

definition wait_trace :: "action list" where
  "wait_trace = job_trace @ replicate 5 (Work 0 0) @ [Begin_wait 0, Call 0, Call 0]"

definition destroy_trace :: "action list" where
  "destroy_trace = [Begin_add 0 7 8, Call 0, Call 0, Call 0, Begin_destroy 0, Call 0, Call 0, Call 0,
     Work 0 0, Work 0 0, Work 0 0, Work 0 0, Call 0, Call 0, Call 0, Call 0]"

definition two_waiters_trace :: "action list" where
  "two_waiters_trace = [Begin_add 0 7 8, Call 0, Call 0, Call 0, Begin_wait 0, Call 0, Call 0,
     Begin_wait 1, Call 1, Call 1] @ replicate 10 (Work 0 0) @ replicate 3 (Call 0)"

definition end_of :: "action list \<Rightarrow> nat \<Rightarrow> nat \<Rightarrow> sys" where
  "end_of as n m = the (acts as (tpool_init n m))"

lemma end_of_reach: "acts as (tpool_init n m) \<noteq> None \<Longrightarrow> reach pool_step (tpool_init n m) (end_of as n m)"
  by (rule acts_reach) (simp add: end_of_def)

lemma traces_defined:
  "acts add_trace (tpool_init 1 1) \<noteq> None" "acts job_trace (tpool_init 1 1) \<noteq> None"
  "acts wait_trace (tpool_init 1 1) \<noteq> None" "acts destroy_trace (tpool_init 1 1) \<noteq> None"
  "acts two_waiters_trace (tpool_init 1 2) \<noteq> None"
  by code_simp+

text \<open>The states these runs end in.\<close>

definition s_add :: sys where "s_add = end_of add_trace 1 1"
definition s_job :: sys where "s_job = end_of job_trace 1 1"
definition s_wait :: sys where "s_wait = end_of wait_trace 1 1"
definition s_destroy :: sys where "s_destroy = end_of destroy_trace 1 1"
definition s_two :: sys where "s_two = end_of two_waiters_trace 1 2"

lemmas trace_reach = traces_defined [THEN end_of_reach, folded s_add_def s_job_def s_wait_def s_destroy_def s_two_def]

lemma job_state: "workers s_job = [W_Run (Some 0)]" "clients s_job = [C_Idle]"
  "s_pool s_job = Some \<lparr>jc = 1, tc = 1, shutdown = 0, mylock = Some (Worker 0),
     pool_head = None, pool_tail = None\<rparr>"
  "s_heap s_job = [Some \<lparr>j_next = None, j_myfunc = 7, j_arg = 8\<rparr>]" "ran s_job = []" "added s_job = [(7, 8)]"
  by code_simp+

lemma wait_state: "clients s_wait = [C_WaitUnlock]"
  by code_simp

lemma add_work: "work s_add = 19"
  by code_simp

lemma destroy_state: "clients s_destroy = [C_Done]" "s_pool s_destroy = None" "workers s_destroy = [W_Gone]"
  "ran s_destroy = []" "added s_destroy = [(7, 8)]"
  "s_heap s_destroy = [Some \<lparr>j_next = None, j_myfunc = 7, j_arg = 8\<rparr>]"
  by code_simp+

lemma two_waiters_state: "workers s_two = [W_Sleep]" "clients s_two = [C_Idle, C_WaitSleep]"
  "ran s_two = [(7, 8)]" "added s_two = [(7, 8)]"
  by code_simp+

section \<open>What every reachable state satisfies\<close>

lemma reach_pool_inv: "reach pool_step (tpool_init n m) s \<Longrightarrow> pool_inv s"
  using pool.reach_inv by blast

lemma reach_live_inv: "reach pool_step (tpool_init n m) s \<Longrightarrow> live_inv s"
  using pool_live.reach_inv by blast

lemma reach_lengths:
  "reach pool_step (tpool_init n m) s \<Longrightarrow> length (workers s) = n \<and> length (clients s) = m"
  by (drule reach_grows) (simp add: grows_def tpool_init_def)

definition in_crit :: "sys \<Rightarrow> thr \<Rightarrow> bool" where
  "in_crit s t = (case t of
     Worker i \<Rightarrow> i < length (workers s) \<and> w_crit (workers s ! i)
   | Client i \<Rightarrow> i < length (clients s) \<and> c_crit (clients s ! i))"

lemma in_crit_holder:
  assumes inv: "pool_inv s" and t: "in_crit s t"
  shows "\<exists>p. s_pool s = Some p \<and> mylock p = Some t"
proof (cases "s_pool s")
  case None
  with pool_gone [OF inv None] t show ?thesis by (cases t) (fastforce simp: in_crit_def)+
next
  case (Some p)
  with core_holder [OF pool_invD [OF inv Some]] t show ?thesis
    by (cases t) (auto simp: in_crit_def)
qed

text \<open>How many workers are busy with a job, and how many have not left.\<close>

definition busy :: "wpc \<Rightarrow> bool" where
  "busy pc \<longleftrightarrow> (\<exists>x. pc \<in> {W_Run x, W_Unlock x, W_Lock2 x, W_Finish x})"

lemma held_busy:
  assumes "\<And>i. i < length ws \<Longrightarrow> w_ok p i (ws ! i)"
  shows "size (sum_list (map w_held ws)) = length (filter busy ws)"
proof -
  have "size (w_held pc) = (if busy pc then 1 else 0)" if "pc \<in> set ws" for pc
    using that assms unfolding in_set_conv_nth w_ok_def busy_def
    by (cases pc rule: w_held.cases) auto
  then show ?thesis by (induction ws) auto
qed

lemma alive_count: "sum_list (map w_alive ws) = int (length (filter (\<lambda>pc. pc \<noteq> W_Unlock3 \<and> pc \<noteq> W_Gone) ws))"
  by (induction ws) (auto simp: w_alive_def)

lemma code_sum_mset: "mset_set (live h) = mset (filter (\<lambda>a. h ! a \<noteq> None) [0..<length h])"
proof -
  have "live h = set (filter (\<lambda>a. h ! a \<noteq> None) [0..<length h])" by (auto simp: live_def)
  then show ?thesis by (simp only: mset_set_set distinct_filter distinct_upt)
qed

section \<open>The properties\<close>

text \<open>C19: At most one thread is inside a critical section of the pool - and so at most one job runs at
  any time, since a worker calls \<open>myfunc\<close> with the mutex held.\<close>

theorem pool_mutual_exclusion:
  assumes "reach pool_step (tpool_init n m) s" and "in_crit s t" and "in_crit s u"
  shows "t = u"
  using in_crit_holder [OF reach_pool_inv [OF assms(1)] assms(2)]
    in_crit_holder [OF reach_pool_inv [OF assms(1)] assms(3)] by auto

theorem pool_mutual_exclusion_witness:
  "in_crit s_job (Worker 0) \<and> \<not> in_crit s_job (Client 0)"
proof -
  have "in_crit s_job (Worker 0)" by (simp add: in_crit_def job_state)
  with pool_mutual_exclusion [OF trace_reach(2) this] show ?thesis by blast
qed

text \<open>C2: Jobs are run in the order in which they were added, each exactly once and none is lost: the jobs
  added so far are the ones run, then the one being called, then the ones in the list.\<close>

theorem jobs_run_in_order:
  assumes "reach pool_step (tpool_init n m) s" and "s_pool s = Some p"
  shows "added s = ran s @ running (s_heap s) p (workers s) @ map (payload (s_heap s)) (jobs (s_heap s, p))"
  using pool_invD [OF reach_pool_inv [OF assms(1)] assms(2)] by (simp add: core_def)

theorem jobs_run_in_order_witness:
  "\<exists>p. s_pool s_job = Some p \<and> running (s_heap s_job) p (workers s_job) = [(7, 8)] \<and>
     added s_job = ran s_job @ [(7, 8)] @ map (payload (s_heap s_job)) (jobs (s_heap s_job, p))"
proof -
  obtain p where p: "s_pool s_job = Some p" "mylock p = Some (Worker 0)" using job_state by simp
  then have "running (s_heap s_job) p (workers s_job) = [(7, 8)]"
    by (simp add: running_def job_state payload_def heap_get_def)
  with jobs_run_in_order [OF trace_reach(2) p(1)] p(1) show ?thesis by simp
qed

text \<open>C23: The thread that holds the mutex can always take its next step: nothing it does is undefined -
  no access through \<open>NULL\<close>, to a freed job or to the freed pool, no unlock of a mutex it does not hold.\<close>

theorem holder_never_stuck:
  assumes "reach pool_step (tpool_init n m) s" and "s_pool s = Some p" and "mylock p = Some t"
  shows "can_step s t"
  by (rule holder_can_step [OF reach_pool_inv [OF assms(1)] assms(2,3)])

theorem holder_never_stuck_witness: "can_step s_job (Worker 0)"
  using holder_never_stuck [OF trace_reach(2) job_state(3)] by simp

text \<open>C10: When \<open>tpool_wait\<close> is about to return, every job added before - in particular before the call -
  has been run and no worker holds one.\<close>

theorem wait_means_done:
  assumes "reach pool_step (tpool_init n m) s0" and "reach pool_step s0 s"
    and "i < m" and "clients s ! i = C_WaitUnlock"
  shows "ran s = added s \<and> prefix (added s0) (ran s) \<and> \<not> list_ex busy (workers s)"
proof -
  have r: "reach pool_step (tpool_init n m) s" by (rule reach_trans [OF assms(2,1)])
  have i: "i < length (clients s)" using reach_lengths [OF r] assms(3) by simp
  from in_crit_holder [OF reach_pool_inv [OF r], of "Client i"] obtain p where
    p: "s_pool s = Some p" "mylock p = Some (Client i)"
    using assms(4) i by (auto simp: in_crit_def)
  note core = pool_invD [OF reach_pool_inv [OF r] p(1)]
  have "jc p = 0" using core_c [OF core i] assms(4) by (simp add: c_ok_def)
  then have "length (filter busy (workers s)) = 0"
    using core held_busy [of "workers s" p] by (simp add: core_def)
  then have "ran s = added s" "\<not> list_ex busy (workers s)"
    using returning_wait [OF reach_pool_inv [OF r] i assms(4)] by (auto simp: list_ex_iff filter_empty_conv)
  moreover have "prefix (added s0) (added s)" using reach_grows [OF assms(2)] by (simp add: grows_def)
  ultimately show ?thesis by simp
qed

theorem wait_means_done_witness:
  "ran s_wait = added s_wait"
  using wait_means_done [OF trace_reach(3) reach_init, of 0] by (simp add: wait_state)

text \<open>C6: With one client and at least one worker every call returns, whatever the schedule: the steps of
  the threads within the calls use up a finite amount of work, and when none is possible there are two
  cases. Either the client is in no call, and then every job added so far has been run; or
  \<open>tpool_destroy\<close> has returned, with all workers gone and the pool freed. A \<open>tpool_destroy\<close> without a
  \<open>tpool_wait\<close> before it may leave jobs that never run: the run of the witness ends so.\<close>

theorem pool_calls_return:
  assumes "reach pool_step (tpool_init (Suc n) 1) s"
  shows "(\<forall>k s'. (inner ^^ k) s s' \<longrightarrow> k \<le> work s) \<and>
    ((\<nexists>s'. inner s s') \<longrightarrow> clients s = [C_Idle] \<and> s_pool s \<noteq> None \<and> ran s = added s \<or>
      clients s = [C_Done] \<and> s_pool s = None \<and> (\<forall>pc \<in> set (workers s). pc = W_Gone))"
proof -
  note inv = reach_pool_inv [OF assms] and len = reach_lengths [OF assms]
  have "k \<le> work s" if "(inner ^^ k) s s'" for k s' using inner_steps [OF that inv] by simp
  moreover have "clients s = [C_Idle] \<and> s_pool s \<noteq> None \<and> ran s = added s \<or>
      clients s = [C_Done] \<and> s_pool s = None \<and> (\<forall>pc \<in> set (workers s). pc = W_Gone)" if "\<nexists>s'. inner s s'"
  proof (cases "s_pool s")
    case None
    obtain c where "clients s = [c]" using len by (cases "clients s") auto
    with pool_gone [OF inv None] None show ?thesis
      by (auto simp: closing_def in_set_conv_nth)
  next
    case (Some p)
    with stuck_single [OF reach_live_inv [OF assms] Some that] len show ?thesis by simp
  qed
  ultimately show ?thesis by blast
qed

theorem pool_calls_return_witness:
  "(\<forall>s'. \<not> (inner ^^ 20) s_add s') \<and> (\<nexists>s'. inner s_destroy s') \<and> s_pool s_destroy = None \<and>
     ran s_destroy = [] \<and> added s_destroy = [(7, 8)]"
proof -
  have r: "reach pool_step (tpool_init (Suc 0) 1) s_destroy"
    "reach pool_step (tpool_init (Suc 0) 1) s_add" using trace_reach(4,1) by simp_all
  have stuck: "\<nexists>s'. inner s_destroy s'"
    by (auto elim!: innerE simp: destroy_state eachthread_def client_next_def)
  have "\<not> (inner ^^ 20) s_add s'" for s'
    using pool_calls_return [OF r(2), THEN conjunct1, rule_format, of 20 s'] add_work by auto
  with pool_calls_return [OF r(1)] stuck show ?thesis by (auto simp: destroy_state)
qed

text \<open>\<open>tpool_destroy\<close> frees the pool only when every worker has left \<open>eachthread\<close> and every other
  client is outside the pool.\<close>

theorem destroy_after_workers:
  assumes "reach pool_step (tpool_init n m) s" and "i < m" and "clients s ! i = C_Free \<or> clients s ! i = C_Done"
  shows "(\<forall>pc \<in> set (workers s). pc = W_Gone) \<and> (\<forall>k < m. k \<noteq> i \<longrightarrow> clients s ! k = C_Idle)"
proof (cases "s_pool s")
  case None
  note inv = reach_pool_inv [OF assms(1)] and len = reach_lengths [OF assms(1)]
  have "clients s ! i = C_Done" using pool_gone(2) [OF inv None, of i] assms(2,3) len by auto
  with inv None len assms(2) show ?thesis
    by (auto simp: pool_inv_def pool_ended_def) (metis cpc.distinct(31))
next
  case (Some p)
  note core = pool_invD [OF reach_pool_inv [OF assms(1)] Some] and len = reach_lengths [OF assms(1)]
  have i: "i < length (clients s)" using assms(2) len by simp
  have pc: "clients s ! i = C_Free" using core_c [OF core i] assms(3) by (simp add: c_ok_def)
  have "list_ex c_last (clients s)" using i pc by (auto simp: list_ex_length c_last_def)
  then have "\<forall>k < length (workers s). workers s ! k = W_Gone" using core by (simp add: core_def last_ok_def)
  moreover have "one_closing (clients s)" "closing (clients s ! i)" using core pc by (simp_all add: core_def closing_def)
  moreover from this have "\<forall>k < length (clients s). k \<noteq> i \<longrightarrow> clients s ! k = C_Idle"
    using i unfolding one_closing_def by blast
  ultimately show ?thesis using len by (auto simp: in_set_conv_nth)
qed

theorem destroy_after_workers_witness: "set (workers s_destroy) \<subseteq> {W_Gone}"
  using destroy_after_workers [OF trace_reach(4), of 0] by (auto simp: destroy_state)

text \<open>No job is leaked, freed twice or shared while the pool exists: every allocated job is in the
  list, held by exactly one worker or about to be linked by exactly one client.\<close>

theorem jobs_owned_once:
  assumes "reach pool_step (tpool_init n m) s" and "s_pool s = Some p"
  shows "mset (filter (\<lambda>a. s_heap s ! a \<noteq> None) [0..<length (s_heap s)]) =
    mset (jobs (s_heap s, p)) + sum_list (map w_held (workers s)) + sum_list (map c_held (clients s))"
  using core_owned [OF pool_invD [OF reach_pool_inv [OF assms(1)] assms(2)]]
  by (simp only: code_sum_mset)

theorem jobs_owned_once_witness:
  "mset (filter (\<lambda>a. s_heap s_job ! a \<noteq> None) [0..<length (s_heap s_job)]) = {#0#}"
  using jobs_owned_once [OF trace_reach(2) job_state(3)]
  by (simp only: job_state) (simp add: jobs_def)

text \<open>\<open>jc\<close> counts the workers that have taken a job and not yet finished with it, \<open>tc\<close> the workers
  that have not left.\<close>

theorem pool_counters:
  assumes "reach pool_step (tpool_init n m) s" and "s_pool s = Some p"
  shows "jc p = int (length (filter busy (workers s))) \<and>
     tc p = int (length (filter (\<lambda>pc. pc \<noteq> W_Unlock3 \<and> pc \<noteq> W_Gone) (workers s)))"
proof -
  note core = pool_invD [OF reach_pool_inv [OF assms(1)] assms(2)]
  then show ?thesis using held_busy [of "workers s" p] by (simp add: core_def alive_count)
qed

theorem pool_counters_witness:
  "length (filter busy (workers s_job)) = 1"
  using pool_counters [OF trace_reach(2) job_state(3)] by simp

text \<open>The job list is a queue: a job linked at its end is taken after exactly the jobs before it.\<close>

theorem job_list_fifo:
  assumes "jobs_ok q" and "fresh_job a q"
  shows "\<exists>q1 q2. append_job a q = Some q1 \<and>
     jq.deq_n (Suc (length (jobs q))) q1 = Some (jobs q @ [a], q2) \<and> jobs q2 = []"
  by (rule jq.fifo_order [OF assms])

definition one_job :: "heap \<times> tpool" where
  "one_job = ([Some \<lparr>j_next = None, j_myfunc = 1, j_arg = 2\<rparr>, Some \<lparr>j_next = None, j_myfunc = 3, j_arg = 4\<rparr>],
     \<lparr>jc = 0, tc = 1, shutdown = 0, mylock = None, pool_head = Some 0, pool_tail = Some 0\<rparr>)"

theorem job_list_fifo_witness:
  "\<exists>q1 q2. append_job 1 one_job = Some q1 \<and> jq.deq_n 2 q1 = Some ([0, 1], q2) \<and> jobs q2 = []"
proof -
  have j: "jobs_ok one_job \<and> jobs one_job = [0]"
    unfolding one_job_def by (rule jobsI) (auto simp: heap_get_def)
  moreover have "fresh_job 1 one_job" using j by (auto simp: fresh_job_def one_job_def heap_get_def)
  ultimately show ?thesis using job_list_fifo [of one_job 1] by (simp add: numeral_2_eq_2)
qed

text \<open>C31: One signal on \<open>Bcond\<close> is not enough for two clients in \<open>tpool_wait\<close>: there is a run in which
  all jobs are done, one waiter has returned and the other sleeps while no thread can move.\<close>

theorem second_waiter_sleeps_on:
  "\<exists>s. reach pool_step (tpool_init 1 2) s \<and> (\<nexists>s'. inner s s') \<and> ran s = added s \<and>
     clients s = [C_Idle, C_WaitSleep]"
proof -
  have "\<nexists>s'. inner s_two s'"
    by (auto elim!: innerE simp: two_waiters_state eachthread_def client_next_def tpool_wait_def
        less_Suc_eq numeral_2_eq_2)
  with trace_reach(5) two_waiters_state show ?thesis by (intro exI [of _ s_two]) simp
qed

text \<open>After \<open>tpool_destroy\<close> the memory of a job is still allocated exactly if the job was never
  run: nothing is leaked when all jobs were waited for, and the jobs still queued are dropped and leaked.\<close>

theorem destroy_leaks_unrun:
  assumes "reach pool_step (tpool_init n m) s" and "s_pool s = None"
  shows "length (filter (\<lambda>b. b \<noteq> None) (s_heap s)) + length (ran s) = length (added s)"
proof -
  have "live h = {i. i < length h \<and> h ! i \<noteq> None}" for h by (simp add: live_def)
  then have "length (filter (\<lambda>b. b \<noteq> None) h) = card (live h)" for h
    by (simp add: length_filter_conv_card)
  with reach_pool_inv [OF assms(1)] assms(2) show ?thesis by (simp add: pool_inv_def pool_ended_def)
qed

theorem destroy_leaks_unrun_witness:
  "clients s_destroy = [C_Done] \<and> ran s_destroy = [] \<and> length (filter (\<lambda>b. b \<noteq> None) (s_heap s_destroy)) = 1"
  using destroy_leaks_unrun [OF trace_reach(4) destroy_state(2)] by (simp only: destroy_state) simp


section \<open>Programs that use the pool\<close>

text \<open>C38: A program that adds any jobs, waits for them and destroys the pool comes to its end under every
  schedule: its threads take a bounded number of steps, can go on until the pool is destroyed, and then all
  jobs have been run in order, all workers have left and every block of memory is freed.\<close>

theorem client_program_completes:
  assumes "reach (prog_step (calls_of js)) (0, tpool_init (Suc n) 1) (k, s)"
  shows "(\<forall>t y. (main_step (calls_of js) ^^ t) (k, s) y \<longrightarrow> t \<le> work s + (length js + 2 - k) * (15 + 8 * Suc n)) \<and>
    (clients s = [C_Done] \<or> (\<exists>y. main_step (calls_of js) (k, s) y)) \<and>
    (clients s = [C_Done] \<longrightarrow> ran s = js \<and> s_pool s = None \<and> (\<forall>pc \<in> set (workers s). pc = W_Gone) \<and>
      (\<forall>b \<in> set (s_heap s). b = None))"
proof -
  from prog_reach [OF assms] have r: "reach pool_step (tpool_init (Suc n) 1) s" and inv: "prog_inv js (k, s)" by auto
  have "main_work (length (calls_of js)) (k, s) = work s + (length js + 2 - k) * (15 + 8 * Suc n)"
    using reach_lengths [OF r] by (simp add: main_work_def calls_of_def)
  then have "t \<le> work s + (length js + 2 - k) * (15 + 8 * Suc n)" if "(main_step (calls_of js) ^^ t) (k, s) y" for t y
    using main_steps_work [OF that inv] by simp
  with program_end [OF inv] program_stuck [OF assms] show ?thesis by blast
qed

theorem client_program_completes_witness:
  "\<exists>k s. reach (prog_step (calls_of [(7, 8)])) (0, tpool_init 1 1) (k, s) \<and> ran s = [(7, 8)] \<and> s_pool s = None"
proof -
  obtain y where y: "reach (prog_step (calls_of [(7, 8)])) (0, tpool_init (Suc 0) 1) y" "clients (snd y) = [C_Done]"
    using program_finishes [OF reach_init] by blast
  from client_program_completes [of "[(7, 8)]" 0 "fst y" "snd y"] y show ?thesis
    by (intro exI [of _ "fst y"] exI [of _ "snd y"]) simp
qed

text \<open>C24: The program \<open>sample\<close> prints its three lines in the order of the additions, whatever the schedule
  of its two workers: what it has printed is always a beginning of them, and all of them at its end.\<close>

theorem sample_output:
  assumes "reach (prog_step sample_main) (0, tpool_init 2 1) (k, s)"
  shows "prefix (map sample_job (ran s)) [''func 0: 0'', ''func 1: 1'', ''func 0: 2''] \<and>
    (clients s = [C_Done] \<longrightarrow>
      map sample_job (ran s) = [''func 0: 0'', ''func 1: 1'', ''func 0: 2''])"
proof -
  let ?js = "[(0, 0), (1, 1), (0, 2)] :: (nat \<times> nat) list"
  have lines: "map sample_job ?js = [''func 0: 0'', ''func 1: 1'', ''func 0: 2'']"
    by (simp add: sample_job_def func0_def func1_def sample_arg_def upt_rec intTostr_def nat_str.simps digit_def char_of_def bit_0)
  have r: "reach (prog_step (calls_of ?js)) (0, tpool_init (Suc 1) 1) (k, s)"
    using assms unfolding sample_calls by (simp add: numeral_2_eq_2)
  have inv: "prog_inv ?js (k, s)" using prog_reach [OF r] by simp
  have "map sample_job (ran s) = map sample_job ?js" if "clients s = [C_Done]"
    using program_end [OF inv that] by simp
  then show ?thesis using map_mono_prefix [OF ran_prefix [OF inv], of sample_job] unfolding lines by blast
qed

theorem sample_output_witness:
  "\<exists>k s. reach (prog_step sample_main) (0, tpool_init 2 1) (k, s) \<and> length (ran s) = 3 \<and>
     map sample_job (ran s) = [''func 0: 0'', ''func 1: 1'', ''func 0: 2'']"
proof -
  obtain y where y: "reach (prog_step sample_main) (0, tpool_init 2 1) y" "clients (snd y) = [C_Done]"
    using program_finishes [of "[(0, 0), (1, 1), (0, 2)]" 1, OF reach_init] unfolding sample_calls Suc_1 [symmetric] One_nat_def by blast
  from y(1) have "reach (prog_step sample_main) (0, tpool_init 2 1) (fst y, snd y)" by simp
  from sample_output [OF this] y(2) have out: "map sample_job (ran (snd y)) = [''func 0: 0'', ''func 1: 1'', ''func 0: 2'']"
    by blast
  then have "length (ran (snd y)) = 3" by (metis length_map length_Cons list.size(3) numeral_3_eq_3)
  with out y(1) show ?thesis by (intro exI [of _ "fst y"] exI [of _ "snd y"]) simp
qed

end
