(* ===== verification/Board_Locks.thy ===== *)
theory Board_Locks
  imports Prelude
begin

text \<open>
  The record locks the servers of the bulletin board take with \<open>fcntl\<close>: what the code relies on,
  as an interface, and the table of owners that provides it. A process that sets a write lock
  gets it unless another process holds one on the record; it may set a lock it holds again.
\<close>

locale lock_table =
  fixes owner :: "'l \<Rightarrow> nat \<Rightarrow> nat option"
    and set_lock :: "nat \<Rightarrow> nat \<Rightarrow> 'l \<Rightarrow> bool \<times> 'l"
    and unlock :: "nat \<Rightarrow> nat \<Rightarrow> 'l \<Rightarrow> 'l"
    and valid :: "'l \<Rightarrow> nat \<Rightarrow> bool"
  assumes set_lock_result: "valid l k \<Longrightarrow> fst (set_lock p k l) \<longleftrightarrow> owner l k = None \<or> owner l k = Some p"
    and set_lock_owner: "valid l k \<Longrightarrow> owner (snd (set_lock p k l)) j =
      (if j = k \<and> fst (set_lock p k l) then Some p else owner l j)"
    and unlock_owner: "valid l k \<Longrightarrow> owner (unlock p k l) j =
      (if j = k \<and> owner l k = Some p then None else owner l j)"
    and valid_set_lock: "valid l k \<Longrightarrow> valid (snd (set_lock p k l)) = valid l"
    and valid_unlock: "valid l k \<Longrightarrow> valid (unlock p k l) = valid l"
begin

lemma excludes_others:
  "\<lbrakk>valid l k; fst (set_lock p k l); q \<noteq> p\<rbrakk> \<Longrightarrow> \<not> fst (set_lock q k (snd (set_lock p k l)))"
  by (simp add: set_lock_result set_lock_owner valid_set_lock)

lemma lock_again: "\<lbrakk>valid l k; fst (set_lock p k l)\<rbrakk> \<Longrightarrow> fst (set_lock p k (snd (set_lock p k l)))"
  by (simp add: set_lock_result set_lock_owner valid_set_lock)

lemma free_after_unlock: "\<lbrakk>valid l k; owner l k = Some p\<rbrakk> \<Longrightarrow> fst (set_lock q k (unlock p k l))"
  by (simp add: set_lock_result unlock_owner valid_unlock)

text \<open>Setting locks on a sequence of records: what a process ends up holding.\<close>

definition lock_all :: "nat \<Rightarrow> nat list \<Rightarrow> 'l \<Rightarrow> 'l" where
  "lock_all p ks l = fold (\<lambda>k l. snd (set_lock p k l)) ks l"

lemma lock_all_owner:
  "(\<And>k. k \<in> set ks \<Longrightarrow> valid l k) \<Longrightarrow> owner (lock_all p ks l) j =
     (if j \<in> set ks \<and> owner l j = None then Some p else owner l j) \<and> valid (lock_all p ks l) = valid l"
proof (induction ks arbitrary: l)
  case (Cons k ks)
  let ?l = "snd (set_lock p k l)"
  have v: "valid l k" "valid ?l = valid l" using Cons.prems valid_set_lock by auto
  have "owner (lock_all p ks ?l) j = (if j \<in> set ks \<and> owner ?l j = None then Some p else owner ?l j) \<and>
      valid (lock_all p ks ?l) = valid ?l"
    using Cons.prems v by (intro Cons.IH) simp
  with v set_lock_owner [OF v(1), of p j] set_lock_result [OF v(1), of p] show ?case
    by (auto simp: lock_all_def)
qed (simp add: lock_all_def)

end

section \<open>A table of owners\<close>

type_synonym locks = "nat option list"

definition F_SETLK_WR :: "nat \<Rightarrow> nat \<Rightarrow> locks \<Rightarrow> bool \<times> locks" where
  "F_SETLK_WR p k l = (if l ! k = None \<or> l ! k = Some p then (True, l[k := Some p]) else (False, l))"

definition F_SETLK_UN :: "nat \<Rightarrow> nat \<Rightarrow> locks \<Rightarrow> locks" where
  "F_SETLK_UN p k l = (if l ! k = Some p then l[k := None] else l)"

lemma length_locks [simp]: "length (snd (F_SETLK_WR p k l)) = length l" "length (F_SETLK_UN p k l) = length l"
  by (simp_all add: F_SETLK_WR_def F_SETLK_UN_def)

interpretation flock: lock_table "\<lambda>l k. l ! k" F_SETLK_WR F_SETLK_UN "\<lambda>l k. k < length l"
  by standard (auto simp: F_SETLK_WR_def F_SETLK_UN_def nth_list_update)

end
