(* ===== verification/Board_Server.thy ===== *)
theory Board_Server
  imports Board_Locks CStrings
begin

text \<open>
  The server of the bulletin board (\<open>csieBulletinBoard/server.c\<close>, \<open>hw1.h\<close>): the record file and
  its locks, which all server processes share, the variables of one server, and the handler of
  each message. The file holds ten records; a record that was never written reads as two empty
  strings. A message is received as it was sent. \<open>None\<close> is undefined behaviour: a string too
  long for its field, or the use of a variable that was never set.
\<close>

section \<open>Data\<close>

definition RECORD_NUM :: nat where "RECORD_NUM = 10"
definition FROM_LEN :: nat where "FROM_LEN = 5"
definition CONTENT_LEN :: nat where "CONTENT_LEN = 20"
definition MAX_MESSAGE_LEN :: nat where "MAX_MESSAGE_LEN = 2000"

record post =
  From :: string
  Content :: string

record board =
  posts :: "post list"
  locks :: locks

datatype board_log = L_warning int | L_receive string

text \<open>
  The variables of \<open>main\<close>: \<open>requestP\<close> holds the field \<open>conn_fd\<close> of every request, \<open>master\<close> the
  descriptors \<open>select\<close> watches; \<open>str1\<close>, \<open>str2\<close> and \<open>LAST\<close> are not initialised.
\<close>

record server =
  pid :: nat
  listen_fd :: nat
  requestP :: "int list"
  master :: "nat set"
  mylock :: "int list"
  last_post :: int
  LAST :: "nat option list"
  str1 :: "string option"
  str2 :: "string option"
  log :: "board_log list"

definition server_init :: "nat \<Rightarrow> nat \<Rightarrow> nat \<Rightarrow> server" where
  "server_init p lfd maxfd = \<lparr>pid = p, listen_fd = lfd,
     requestP = (replicate maxfd (-1))[lfd := int lfd], master = {lfd},
     mylock = replicate RECORD_NUM 0, last_post = -1, LAST = replicate 1024 None,
     str1 = None, str2 = None, log = []\<rparr>"

section \<open>Messages\<close>

definition newline :: string where "newline = [CHR 0x0A]"
definition rule_line :: string where "rule_line = replicate 30 CHR ''='' @ newline"

definition sendM :: "string \<Rightarrow> string" where
  "sendM msg = take (MAX_MESSAGE_LEN - 1) msg"

text \<open>A message that fills the buffer leaves no room for the zero, and its end is not found.\<close>

definition receiveM :: "string \<Rightarrow> string option" where
  "receiveM bytes = (if length bytes < MAX_MESSAGE_LEN then Some bytes else None)"

lemma receiveM_Some: "receiveM m = Some c \<longleftrightarrow> length m < MAX_MESSAGE_LEN \<and> c = m"
  by (auto simp: receiveM_def)

lemma receiveM_short [simp]: "length m < 2000 \<Longrightarrow> receiveM m = Some m"
  by (simp add: receiveM_def MAX_MESSAGE_LEN_def)

text \<open>
  \<open>removeSubstr\<close> cuts out an occurrence and searches on behind the character that follows it.
  When nothing follows, the search goes on in the bytes behind the zero, which are the rest of
  the occurrence itself and contain no other.
\<close>

function remove_from :: "string \<Rightarrow> string \<Rightarrow> string \<Rightarrow> string" where
  "remove_from sub pre rest = (case strstr rest sub of
     None \<Rightarrow> pre @ rest
   | Some k \<Rightarrow> (case drop (k + length sub) rest of
       [] \<Rightarrow> pre @ take k rest
     | c # r \<Rightarrow> remove_from sub (pre @ take k rest @ [c]) r))"
  by pat_completeness auto
termination
  by (relation "measure (\<lambda>(sub, pre, rest). length rest)")
    (auto, metis Suc_le_lessD diff_le_self length_Cons length_drop)

declare remove_from.simps [simp del]

definition removeSubstr :: "string \<Rightarrow> string \<Rightarrow> string" where
  "removeSubstr str sub = remove_from sub [] str"

text \<open>
  The copy is a \<open>strcat\<close> from a place further on in the same string. C leaves that undefined when the
  bytes read and those written overlap, that is when what follows is as long as the occurrence.
  \<open>removeSubstr\<close> takes it for the copy from the front that the program counts on; in \<open>removeSubstr_std\<close> it
  is undefined.
\<close>

function remove_std :: "string \<Rightarrow> string \<Rightarrow> string \<Rightarrow> string option" where
  "remove_std sub pre rest = (case strstr rest sub of
     None \<Rightarrow> Some (pre @ rest)
   | Some k \<Rightarrow> (if length sub \<le> length (drop (k + length sub) rest) then None
       else (case drop (k + length sub) rest of
         [] \<Rightarrow> Some (pre @ take k rest)
       | c # r \<Rightarrow> remove_std sub (pre @ take k rest @ [c]) r)))"
  by pat_completeness auto
termination
  by (relation "measure (\<lambda>(sub, pre, rest). length rest)")
    (auto, metis Suc_le_lessD diff_le_self length_Cons length_drop)

declare remove_std.simps [simp del]

definition removeSubstr_std :: "string \<Rightarrow> string \<Rightarrow> string option" where
  "removeSubstr_std str sub = remove_std sub [] str"

lemma remove_std_agrees: "remove_std sub pre rest = Some s \<Longrightarrow> remove_from sub pre rest = s"
proof (induction sub pre rest rule: remove_std.induct)
  case (1 sub pre rest)
  then show ?case
    by (auto simp: remove_std.simps [of sub pre rest] remove_from.simps [of sub pre rest]
        simp del: length_drop split: option.splits if_splits list.splits)
qed

section \<open>Showing the board\<close>

definition display :: "post \<Rightarrow> string" where
  "display re = (if length (Content re) \<noteq> 0
     then ''From: '' @ From re @ newline @ ''Content:'' @ newline @ Content re @ newline else [])"

text \<open>The loop over the records in \<open>pull\<close> and for a new connection: \<open>temp\<close> and \<open>lockcount\<close>.\<close>

fun show_posts :: "server \<Rightarrow> nat list \<Rightarrow> board \<Rightarrow> string \<Rightarrow> int \<Rightarrow> board \<times> string \<times> int" where
  "show_posts sv [] b temp lockcount = (b, temp, lockcount)"
| "show_posts sv (k # ks) b temp lockcount =
     (let (see, l) = F_SETLK_WR (pid sv) k (locks b) in
      if \<not> see then show_posts sv ks (b\<lparr>locks := l\<rparr>) temp (lockcount + 1)
      else if mylock sv ! k = 0
      then show_posts sv ks (b\<lparr>locks := F_SETLK_UN (pid sv) k l\<rparr>) (temp @ display (posts b ! k)) lockcount
      else show_posts sv ks (b\<lparr>locks := l\<rparr>) temp (lockcount + 1))"

definition warn :: "int \<Rightarrow> server \<Rightarrow> server" where
  "warn lockcount sv = (if lockcount > 0 then sv\<lparr>log := log sv @ [L_warning lockcount]\<rparr> else sv)"

text \<open>A descriptor outside the table of requests or, from 1024 on, outside a set of descriptors is undefined.\<close>

definition FD_SET :: "nat \<Rightarrow> nat set \<Rightarrow> nat set option" where
  "FD_SET fd s = (if fd < 1024 then Some (insert fd s) else None)"

definition new_connection :: "nat \<Rightarrow> server \<Rightarrow> board \<Rightarrow> (server \<times> board \<times> string) option" where
  "new_connection fd sv b = do {
     rq \<leftarrow> arr_set (requestP sv) (int fd) (int fd);
     ms \<leftarrow> FD_SET fd (master sv);
     sv \<leftarrow> Some (sv\<lparr>requestP := rq, master := ms\<rparr>);
     temp \<leftarrow> Some (rule_line @ ''Welcome to CSIE Bulletin board'' @ newline @ rule_line);
     (b, temp, lockcount) \<leftarrow> Some (show_posts sv [0..<RECORD_NUM] b temp 0);
     Some (warn lockcount sv, b, sendM (temp @ rule_line)) }"

definition do_pull :: "server \<Rightarrow> board \<Rightarrow> server \<times> board \<times> string" where
  "do_pull sv b =
     (let (b, temp, lockcount) = show_posts sv [0..<RECORD_NUM] b rule_line 0
      in (warn lockcount sv, b, sendM (temp @ rule_line)))"

section \<open>\<open>post\<close>\<close>

text \<open>The body of the two loops over the records, with \<open>unlkc\<close> and \<open>interlk\<close>.\<close>

definition take_slot :: "nat \<Rightarrow> nat \<Rightarrow> server \<Rightarrow> server option" where
  "take_slot fd m sv = do {
     la \<leftarrow> arr_set (LAST sv) (int fd) (Some m);
     ml \<leftarrow> arr_set (mylock sv) (int m) 1;
     Some (sv\<lparr>last_post := int m, LAST := la, mylock := ml\<rparr>) }"

fun scan_posts :: "nat \<Rightarrow> nat list \<Rightarrow> server \<Rightarrow> board \<Rightarrow> int \<Rightarrow> int \<Rightarrow> (server \<times> board \<times> int \<times> int) option" where
  "scan_posts fd [] sv b unlkc interlk = Some (sv, b, unlkc, interlk)"
| "scan_posts fd (m # ms) sv b unlkc interlk =
     (let (see, l) = F_SETLK_WR (pid sv) m (locks b); b = b\<lparr>locks := l\<rparr> in
      if \<not> see then scan_posts fd ms sv b (unlkc - 1) interlk
      else if mylock sv ! m = 0
      then (if interlk = 0 then do { sv \<leftarrow> take_slot fd m sv; scan_posts fd ms sv b unlkc (interlk + 1) }
            else scan_posts fd ms sv b unlkc interlk)
      else scan_posts fd ms sv b (unlkc - 1) interlk)"

definition do_post :: "nat \<Rightarrow> server \<Rightarrow> board \<Rightarrow> (server \<times> board \<times> string) option" where
  "do_post fd sv b = do {
     sv \<leftarrow> Some (if last_post sv + 1 = int RECORD_NUM then sv\<lparr>last_post := -1\<rparr> else sv);
     oldlast \<leftarrow> Some (last_post sv);
     (sv, b, unlkc, interlk) \<leftarrow> scan_posts fd [nat (oldlast + 1)..<RECORD_NUM] sv b (int RECORD_NUM) 0;
     (sv, b, unlkc, interlk) \<leftarrow> (if oldlast + 1 > 0
       then scan_posts fd [0..<nat (oldlast + 1)] sv b unlkc interlk
       else Some (sv, b, unlkc, interlk));
     Some (if unlkc = 0 then (sv, b, sendM ''0'') else (sv, b, sendM ''1'')) }"

section \<open>A submitted post\<close>

text \<open>The \<open>strtok\<close> loop: the first token goes to \<open>str1\<close>, every other one to \<open>str2\<close>.\<close>

fun take_tokens :: "nat \<Rightarrow> string list \<Rightarrow> server \<Rightarrow> server" where
  "take_tokens c [] sv = sv"
| "take_tokens c (p # ps) sv = (if c = 0 then take_tokens (c + 1) ps (sv\<lparr>str1 := Some p\<rparr>)
     else take_tokens c ps (sv\<lparr>str2 := Some p\<rparr>))"

definition do_submit :: "nat \<Rightarrow> string \<Rightarrow> server \<Rightarrow> board \<Rightarrow> (server \<times> board) option" where
  "do_submit fd command sv b = do {
     sv \<leftarrow> Some (take_tokens 0 (tokens {CHR ''+''} (removeSubstr command ''[SP]'')) sv);
     s1 \<leftarrow> str1 sv;
     f \<leftarrow> strcpy FROM_LEN s1;
     s2 \<leftarrow> str2 sv;
     t \<leftarrow> strcpy CONTENT_LEN s2;
     l \<leftarrow> arr_get (LAST sv) (int fd);
     slot \<leftarrow> l;
     b \<leftarrow> Some (b\<lparr>posts := (posts b)[slot := \<lparr>From = f, Content = t\<rparr>],
       locks := F_SETLK_UN (pid sv) slot (locks b)\<rparr>);
     ml \<leftarrow> arr_set (mylock sv) (last_post sv) 0;
     Some (sv\<lparr>mylock := ml, log := log sv @ [L_receive f]\<rparr>, b) }"

definition do_exit :: "nat \<Rightarrow> server \<Rightarrow> server" where
  "do_exit fd sv = sv\<lparr>requestP := (requestP sv)[fd := -1], master := master sv - {fd}\<rparr>"

section \<open>The dispatch of a message\<close>

definition handle :: "nat \<Rightarrow> string \<Rightarrow> server \<Rightarrow> board \<Rightarrow> (server \<times> board \<times> string option) option" where
  "handle fd command sv b =
     (if strstr command ''[SP]'' \<noteq> None
      then do { (sv, b) \<leftarrow> do_submit fd command sv b; Some (sv, b, None) }
      else if command = ''post'' then do { (sv, b, r) \<leftarrow> do_post fd sv b; Some (sv, b, Some r) }
      else if command = ''pull'' then (case do_pull sv b of (sv, b, r) \<Rightarrow> Some (sv, b, Some r))
      else if command = ''exit'' then Some (do_exit fd sv, b, None)
      else Some (sv, b, None))"

section \<open>One turn of the main loop\<close>

text \<open>
  \<open>select\<close> reports a new connection or the messages \<open>rd\<close> that have arrived. A new connection is
  served alone, the messages stay for the next turn. To ask \<open>FD_ISSET\<close> for the descriptor -1 of an
  unused request is taken to be false.
\<close>

definition FD_ISSET :: "int \<Rightarrow> (nat \<Rightarrow> string option) \<Rightarrow> bool" where
  "FD_ISSET fd rd \<longleftrightarrow> 0 \<le> fd \<and> rd (nat fd) \<noteq> None"

fun serve_ready :: "nat list \<Rightarrow> (nat \<Rightarrow> string option) \<Rightarrow> server \<Rightarrow> board \<Rightarrow> (server \<times> board) option" where
  "serve_ready [] rd sv b = Some (sv, b)"
| "serve_ready (i # js) rd sv b =
     (let fd = requestP sv ! i in
      if fd \<noteq> int (listen_fd sv) \<and> FD_ISSET fd rd
      then do {
        command \<leftarrow> receiveM (the (rd (nat fd)));
        (sv, b, reply) \<leftarrow> handle (nat fd) command sv b;
        serve_ready js rd sv b }
      else serve_ready js rd sv b)"

text \<open>
  \<open>accept\<close> gives the descriptor of the new connection or fails; the failures that \<open>main\<close> knows leave
  the connection for the next turn, any other one ends the program.
\<close>

datatype errno = EINTR | EAGAIN | ENFILE | Other_errno

definition serve_turn ::
  "(errno + nat) option \<Rightarrow> (nat \<Rightarrow> string option) \<Rightarrow> server \<Rightarrow> board \<Rightarrow> (string + server \<times> board) option" where
  "serve_turn new rd sv b = (case new of
     Some (Inr fd) \<Rightarrow> do { (sv, b, msg) \<leftarrow> new_connection fd sv b; Some (Inr (sv, b)) }
   | Some (Inl e) \<Rightarrow> (if e = EINTR \<or> e = EAGAIN \<or> e = ENFILE then Some (Inr (sv, b)) else Some (Inl ''accept''))
   | None \<Rightarrow> map_option Inr (serve_ready [0..<length (requestP sv)] rd sv b))"

section \<open>The shape of the variables\<close>

definition server_ok :: "server \<Rightarrow> bool" where
  "server_ok sv \<longleftrightarrow> length (mylock sv) = RECORD_NUM \<and> length (LAST sv) = 1024 \<and>
     - 1 \<le> last_post sv \<and> last_post sv < int RECORD_NUM \<and>
     (\<forall>fd < 1024. \<forall>m. LAST sv ! fd = Some m \<longrightarrow> m < RECORD_NUM)"

definition board_ok :: "board \<Rightarrow> bool" where
  "board_ok b \<longleftrightarrow> length (posts b) = RECORD_NUM \<and> length (locks b) = RECORD_NUM \<and>
     (\<forall>re \<in> set (posts b). length (From re) < FROM_LEN \<and> length (Content re) < CONTENT_LEN)"

lemma server_init_ok: "server_ok (server_init p l n)"
  by (simp add: server_ok_def server_init_def RECORD_NUM_def)

end
