(* ===== verification/Board_Spec.thy ===== *)
theory Board_Spec
  imports Board_Server
begin

text \<open>
  What the handlers of the bulletin board compute: the loops over the records against
  specifications on lists, the parsing of a submitted post, and the invariant of the variables.
\<close>

section \<open>Which records are free\<close>

text \<open>A record a server may use: no other server has locked it and none of its own clients has.\<close>

definition avail :: "server \<Rightarrow> board \<Rightarrow> nat \<Rightarrow> bool" where
  "avail sv b m \<longleftrightarrow> (locks b ! m = None \<or> locks b ! m = Some (pid sv)) \<and> mylock sv ! m = 0"

definition foreign :: "server \<Rightarrow> board \<Rightarrow> nat \<Rightarrow> bool" where
  "foreign sv b m \<longleftrightarrow> \<not> (locks b ! m = None \<or> locks b ! m = Some (pid sv))"

lemma F_WR_cases:
  "foreign sv b k \<Longrightarrow> F_SETLK_WR (pid sv) k (locks b) = (False, locks b)"
  "\<not> foreign sv b k \<Longrightarrow> F_SETLK_WR (pid sv) k (locks b) = (True, (locks b)[k := Some (pid sv)])"
  by (auto simp: F_SETLK_WR_def foreign_def)

lemma avail_other:
  "j \<noteq> k \<Longrightarrow> avail sv (b\<lparr>locks := (locks b)[k := x]\<rparr>) j = avail sv b j"
  "j \<noteq> k \<Longrightarrow> foreign sv (b\<lparr>locks := (locks b)[k := x]\<rparr>) j = foreign sv b j"
  by (simp_all add: avail_def foreign_def)

section \<open>Showing the board\<close>

definition shown :: "server \<Rightarrow> board \<Rightarrow> nat list \<Rightarrow> string" where
  "shown sv b ks = concat (map (\<lambda>k. display (posts b ! k)) (filter (avail sv b) ks))"

text \<open>The locks after a look at the records \<open>ks\<close>: those of free records are given back, those of
  reserved ones taken.\<close>

definition looked :: "server \<Rightarrow> nat list \<Rightarrow> locks \<Rightarrow> locks" where
  "looked sv ks l = map (\<lambda>j. if j \<in> set ks \<and> (l ! j = None \<or> l ! j = Some (pid sv))
     then (if mylock sv ! j = 0 then None else Some (pid sv)) else l ! j) [0..<length l]"

lemma length_looked [simp]: "length (looked sv ks l) = length l"
  by (simp add: looked_def)

lemma nth_looked: "j < length l \<Longrightarrow> looked sv ks l ! j = (if j \<in> set ks \<and> (l ! j = None \<or> l ! j = Some (pid sv))
     then (if mylock sv ! j = 0 then None else Some (pid sv)) else l ! j)"
  by (auto simp: looked_def)

lemma looked_Nil: "looked sv [] l = l"
  by (simp add: looked_def map_nth)

lemma looked_Cons:
  assumes "k < length l" and "k \<notin> set ks"
  shows "looked sv (k # ks) l = looked sv ks (if l ! k = None \<or> l ! k = Some (pid sv)
     then l[k := (if mylock sv ! k = 0 then None else Some (pid sv))] else l)"
  using assms by (intro nth_equalityI) (auto simp: nth_looked nth_list_update)

lemma show_posts_spec:
  assumes "distinct ks" and "\<And>k. k \<in> set ks \<Longrightarrow> k < length (locks b)"
  shows "show_posts sv ks b temp n = (b\<lparr>locks := looked sv ks (locks b)\<rparr>, temp @ shown sv b ks,
     n + int (length (filter (\<lambda>k. \<not> avail sv b k) ks)))"
  using assms
proof (induction ks arbitrary: b temp n)
  case Nil
  then show ?case by (simp add: looked_Nil shown_def)
next
  case (Cons k ks)
  have k: "k < length (locks b)" "k \<notin> set ks" "distinct ks" using Cons.prems by auto
  have eq: "avail sv (b\<lparr>locks := (locks b)[k := x]\<rparr>) j = avail sv b j" if "j \<in> set ks" for j x
    using that k(2) by (intro avail_other(1)) auto
  have later: "filter (avail sv (b\<lparr>locks := (locks b)[k := x]\<rparr>)) ks = filter (avail sv b) ks"
    "filter (\<lambda>j. \<not> avail sv (b\<lparr>locks := (locks b)[k := x]\<rparr>) j) ks = filter (\<lambda>j. \<not> avail sv b j) ks" for x
    by (simp_all add: eq cong: filter_cong)
  have sh: "shown sv (b\<lparr>locks := (locks b)[k := x]\<rparr>) ks = shown sv b ks" for x
    by (simp add: shown_def later)
  have IH: "show_posts sv ks (b\<lparr>locks := (locks b)[k := x]\<rparr>) t m =
     (b\<lparr>locks := looked sv ks ((locks b)[k := x])\<rparr>, t @ shown sv b ks,
      m + int (length (filter (\<lambda>k. \<not> avail sv b k) ks)))" for x t m
    using Cons.IH [of "b\<lparr>locks := (locks b)[k := x]\<rparr>" t m] k Cons.prems(2) by (simp add: later sh)
  show ?case
  proof (cases "foreign sv b k")
    case True
    have "b\<lparr>locks := locks b\<rparr> = b" by simp
    moreover have "looked sv (k # ks) (locks b) = looked sv ks (locks b)"
      using True by (auto simp: looked_Cons [OF k(1,2)] foreign_def)
    moreover have "\<not> avail sv b k" using True by (simp add: avail_def foreign_def)
    moreover have "show_posts sv ks b temp (n + 1) = (b\<lparr>locks := looked sv ks (locks b)\<rparr>, temp @ shown sv b ks,
        (n + 1) + int (length (filter (\<lambda>k. \<not> avail sv b k) ks)))"
      using k(3) Cons.prems(2) by (intro Cons.IH) auto
    ultimately show ?thesis by (simp add: F_WR_cases(1) [OF True] shown_def)
  next
    case False
    show ?thesis
    proof (cases "mylock sv ! k = 0")
      case True
      have "F_SETLK_UN (pid sv) k ((locks b)[k := Some (pid sv)]) = (locks b)[k := None]"
        using k(1) by (simp add: F_SETLK_UN_def)
      with True False IH k show ?thesis
        by (auto simp: F_WR_cases(2) [OF False] looked_Cons foreign_def avail_def shown_def)
    next
      case no: False
      with False IH k show ?thesis
        by (auto simp: F_WR_cases(2) [OF False] looked_Cons foreign_def avail_def shown_def)
    qed
  qed
qed

lemma do_pull_spec:
  assumes "length (locks b) = RECORD_NUM"
  shows "do_pull sv b = (warn (int (length (filter (\<lambda>k. \<not> avail sv b k) [0..<RECORD_NUM]))) sv,
     b\<lparr>locks := looked sv [0..<RECORD_NUM] (locks b)\<rparr>,
     sendM (rule_line @ shown sv b [0..<RECORD_NUM] @ rule_line))"
  using show_posts_spec [of "[0..<RECORD_NUM]" b sv rule_line 0] assms
  by (simp add: do_pull_def)

section \<open>Choosing a record\<close>

text \<open>The variables after a choice; the table \<open>LAST\<close> has room for descriptors below 1024.\<close>

definition slot_taken :: "nat \<Rightarrow> nat \<Rightarrow> server \<Rightarrow> server" where
  "slot_taken fd m sv = sv\<lparr>last_post := int m, LAST := (LAST sv)[fd := Some m], mylock := (mylock sv)[m := 1]\<rparr>"

lemma take_slot_cases:
  assumes "server_ok sv" and "m < RECORD_NUM"
  shows "take_slot fd m sv = (if fd < 1024 then Some (slot_taken fd m sv) else None)"
  using assms by (simp add: take_slot_def slot_taken_def arr_set_def server_ok_def)

lemma slot_taken_avail: "j \<noteq> m \<Longrightarrow> avail (slot_taken fd m sv) b j = avail sv b j"
  by (simp add: avail_def slot_taken_def)

lemma slot_taken_ok: "server_ok sv \<Longrightarrow> m < RECORD_NUM \<Longrightarrow> server_ok (slot_taken fd m sv)"
  by (auto simp: server_ok_def slot_taken_def nth_upd split: if_splits)

text \<open>All records that nobody else has locked are locked, whether one was chosen or not.\<close>

lemma scan_posts_spec:
  assumes "distinct ms" and "\<And>m. m \<in> set ms \<Longrightarrow> m < length (locks b) \<and> m < RECORD_NUM" and "server_ok sv"
  shows "scan_posts fd ms sv b u n =
    (let found = (if n = 0 then find (avail sv b) ms else None);
         b' = b\<lparr>locks := flock.lock_all (pid sv) ms (locks b)\<rparr>;
         u' = u - int (length (filter (\<lambda>m. \<not> avail sv b m) ms))
     in case found of None \<Rightarrow> Some (sv, b', u', n)
        | Some m \<Rightarrow> if fd < 1024 then Some (slot_taken fd m sv, b', u', n + 1) else None)"
  using assms
proof (induction ms arbitrary: sv b u n)
  case Nil
  then show ?case by (simp add: flock.lock_all_def)
next
  case (Cons m ms)
  have m: "m < length (locks b)" "m < RECORD_NUM" "m \<notin> set ms" "distinct ms" using Cons.prems by auto
  let ?b = "b\<lparr>locks := (locks b)[m := Some (pid sv)]\<rparr>" and ?sv = "slot_taken fd m sv"
  have eq: "avail sv ?b j = avail sv b j" "avail ?sv ?b j = avail sv b j" if "j \<in> set ms" for j
  proof -
    have "j \<noteq> m" using that m(3) by auto
    then show "avail sv ?b j = avail sv b j" "avail ?sv ?b j = avail sv b j"
      by (simp_all add: avail_other(1) slot_taken_avail)
  qed
  have later: "filter (\<lambda>j. \<not> avail sv ?b j) ms = filter (\<lambda>j. \<not> avail sv b j) ms"
    "filter (\<lambda>j. \<not> avail ?sv ?b j) ms = filter (\<lambda>j. \<not> avail sv b j) ms"
    by (simp_all add: eq cong: filter_cong)
  have found: "find (avail sv ?b) ms = find (avail sv b) ms"
    by (intro find_cong) (simp_all add: eq)
  have same: "b\<lparr>locks := locks b\<rparr> = b" "pid ?sv = pid sv" by (simp_all add: slot_taken_def)
  have ok: "server_ok ?sv" by (rule slot_taken_ok [OF Cons.prems(3) m(2)])
  have range: "j < length (locks ?b) \<and> j < RECORD_NUM" if "j \<in> set ms" for j using that Cons.prems(2) by simp
  note IH = Cons.IH [OF m(4) range]
  show ?case
  proof (cases "foreign sv b m")
    case True
    have "\<not> avail sv b m" using True by (simp add: avail_def foreign_def)
    with True Cons.IH [of b sv "u - 1" n] m Cons.prems(2,3) show ?thesis
      by (simp add: F_WR_cases(1) [OF True] flock.lock_all_def same Let_def split: option.split)
  next
    case False
    show ?thesis
    proof (cases "mylock sv ! m = 0")
      case True
      have av: "avail sv b m" using True False by (simp add: avail_def foreign_def)
      show ?thesis
      proof (cases "n = 0")
        case n: True
        with IH [OF _ ok, of u 1] av True show ?thesis
          by (simp add: F_WR_cases(2) [OF False] flock.lock_all_def later same Let_def
              take_slot_cases [OF Cons.prems(3) m(2)])
      next
        case n: False
        with IH [OF _ Cons.prems(3), of u n] av True show ?thesis
          by (simp add: F_WR_cases(2) [OF False] flock.lock_all_def later found Let_def split: option.split)
      qed
    next
      case no: False
      then have "\<not> avail sv b m" by (simp add: avail_def)
      with IH [OF _ Cons.prems(3), of "u - 1" n] no found show ?thesis
        by (simp add: F_WR_cases(2) [OF False] flock.lock_all_def later found Let_def split: option.split)
    qed
  qed
qed

lemma scan_posts_append:
  "scan_posts fd (xs @ ys) sv b u n =
     Option.bind (scan_posts fd xs sv b u n) (\<lambda>(sv, b, u, n). scan_posts fd ys sv b u n)"
  by (induction xs arbitrary: sv b u n) (auto simp: Let_def Option.bind_assoc split: prod.split)

text \<open>The order in which \<open>post\<close> looks at the records: cyclically from the one behind the last choice.\<close>

definition first_slot :: "server \<Rightarrow> nat" where
  "first_slot sv = (if last_post sv + 1 = int RECORD_NUM then 0 else nat (last_post sv + 1))"

definition slot_order :: "server \<Rightarrow> nat list" where
  "slot_order sv = [first_slot sv..<RECORD_NUM] @ [0..<first_slot sv]"

definition wrap_last :: "server \<Rightarrow> server" where
  "wrap_last sv = (if last_post sv + 1 = int RECORD_NUM then sv\<lparr>last_post := -1\<rparr> else sv)"

lemma slot_order_perm:
  assumes "server_ok sv"
  shows "distinct (slot_order sv)" and "set (slot_order sv) = {..<RECORD_NUM}" and "length (slot_order sv) = RECORD_NUM"
proof -
  have "first_slot sv \<le> RECORD_NUM" using assms by (auto simp: first_slot_def server_ok_def)
  then show "distinct (slot_order sv)" "set (slot_order sv) = {..<RECORD_NUM}" "length (slot_order sv) = RECORD_NUM"
    by (auto simp: slot_order_def)
qed

lemma do_post_scan:
  assumes "server_ok sv"
  shows "do_post fd sv b = do {
     (sv, b, u, n) \<leftarrow> scan_posts fd (slot_order sv) (wrap_last sv) b (int RECORD_NUM) 0;
     Some (if u = 0 then (sv, b, sendM ''0'') else (sv, b, sendM ''1'')) }"
proof -
  let ?sv = "wrap_last sv"
  have first: "nat (last_post ?sv + 1) = first_slot sv"
    by (simp add: wrap_last_def first_slot_def)
  have scan0: "\<not> last_post ?sv + 1 > 0 \<Longrightarrow> [0..<first_slot sv] = []"
    unfolding first [symmetric] by simp
  show ?thesis
    unfolding do_post_def bind.bind_lunit wrap_last_def [symmetric] first slot_order_def scan_posts_append Option.bind_assoc
    using scan0 by (auto simp: case_prod_unfold intro!: Option.bind_cong)
qed

lemma count_none: "length (filter (\<lambda>m. \<not> P m) xs) = length xs \<longleftrightarrow> find P xs = None"
  by (induction xs) (auto, metis Suc_n_not_le_n length_filter_le)

lemma wrap_last_ok: "server_ok sv \<Longrightarrow> server_ok (wrap_last sv)"
  by (auto simp: server_ok_def wrap_last_def RECORD_NUM_def)

text \<open>The choice, where the table \<open>LAST\<close> has room for the descriptor.\<close>

lemma do_post_spec:
  assumes sv: "server_ok sv" and b: "board_ok b"
  shows "do_post fd sv b =
    (case find (avail sv b) (slot_order sv) of
       None \<Rightarrow> Some (wrap_last sv, b\<lparr>locks := flock.lock_all (pid sv) (slot_order sv) (locks b)\<rparr>, ''0'')
     | Some m \<Rightarrow> if fd < 1024 then Some (slot_taken fd m (wrap_last sv),
         b\<lparr>locks := flock.lock_all (pid sv) (slot_order sv) (locks b)\<rparr>, ''1'') else None)"
proof -
  note so = slot_order_perm [OF sv]
  have av: "avail (wrap_last sv) b = avail sv b" "pid (wrap_last sv) = pid sv"
    by (auto simp: avail_def wrap_last_def)
  have "m < length (locks b) \<and> m < RECORD_NUM" if "m \<in> set (slot_order sv)" for m
    using that so(2) b by (simp add: board_ok_def)
  note scan = scan_posts_spec [OF so(1) this wrap_last_ok [OF sv], unfolded av]
  have "int RECORD_NUM - int (length (filter (\<lambda>m. \<not> avail sv b m) (slot_order sv))) = 0
      \<longleftrightarrow> find (avail sv b) (slot_order sv) = None"
    using count_none [of "avail sv b" "slot_order sv"] so(3) by auto
  moreover have "sendM ''0'' = ''0''" "sendM ''1'' = ''1''" by (simp_all add: sendM_def MAX_MESSAGE_LEN_def)
  ultimately show ?thesis
    by (simp add: do_post_scan [OF sv] scan Let_def split: option.split)
qed

lemma find_mem: "find P xs = Some m \<Longrightarrow> m \<in> set xs \<and> P m"
  by (metis find_Some_iff nth_mem)

section \<open>Parsing a submitted post\<close>

lemma remove_from_None: "strstr rest sub = None \<Longrightarrow> remove_from sub pre rest = pre @ rest"
  by (simp add: remove_from.simps [of sub pre rest])

lemma remove_tag:
  assumes "strstr s sub = None" and "sub \<noteq> []"
  shows "removeSubstr (sub @ s) sub = s"
proof -
  have "strstr (sub @ s) sub = Some 0" by (rule strstr_prefix)
  moreover have "strstr r sub = None" if "s = c # r" for c r
    using assms(1) that unfolding strstr_None by (auto simp: sublist_Cons_right)
  ultimately show ?thesis
    by (cases s) (auto simp: removeSubstr_def remove_from.simps [of sub "[]"] remove_from_None)
qed

lemma take_tokens_two: "take_tokens 0 [f, t] sv = sv\<lparr>str1 := Some f, str2 := Some t\<rparr>"
  by simp

text \<open>A text the protocol carries: no separator, no tag, and it fits its field.\<close>

definition sendable :: "nat \<Rightarrow> string \<Rightarrow> bool" where
  "sendable n w \<longleftrightarrow> word {CHR ''+''} w \<and> CHR ''['' \<notin> set w \<and> length w < n"

lemma no_tag:
  assumes "CHR ''['' \<notin> set s"
  shows "strstr s ''[SP]'' = None"
  using assms by (auto simp: strstr_None sublist_def)

lemma parse_submission:
  assumes f: "sendable FROM_LEN f" and t: "sendable CONTENT_LEN t"
  shows "tokens {CHR ''+''} (removeSubstr (''[SP]'' @ f @ ''+'' @ t) ''[SP]'') = [f, t]"
proof -
  have "strstr (f @ ''+'' @ t) ''[SP]'' = None"
    using f t by (intro no_tag) (auto simp: sendable_def)
  then have "removeSubstr (''[SP]'' @ f @ ''+'' @ t) ''[SP]'' = f @ ''+'' @ t"
    by (intro remove_tag) simp_all
  moreover have "tokens {CHR ''+''} (f @ CHR ''+'' # t) = [f, t]"
    using f t by (simp add: sendable_def tokens_word tokens_word_end)
  ultimately show ?thesis by simp
qed

lemma do_submit_spec:
  assumes f: "sendable FROM_LEN f" and t: "sendable CONTENT_LEN t"
    and slot: "fd < 1024" "LAST sv ! fd = Some m" and last: "0 \<le> last_post sv" and ok: "server_ok sv"
  shows "do_submit fd (''[SP]'' @ f @ ''+'' @ t) sv b = Some
    (sv\<lparr>str1 := Some f, str2 := Some t, mylock := (mylock sv)[nat (last_post sv) := 0], log := log sv @ [L_receive f]\<rparr>,
     b\<lparr>posts := (posts b)[m := \<lparr>From = f, Content = t\<rparr>], locks := F_SETLK_UN (pid sv) m (locks b)\<rparr>)"
proof -
  have "arr_set (mylock sv) (last_post sv) 0 = Some ((mylock sv)[nat (last_post sv) := 0])"
    using last ok by (auto simp: arr_set_def server_ok_def nat_less_iff)
  moreover have "arr_get (LAST sv) (int fd) = Some (Some m)" using slot ok by (simp add: arr_get_def server_ok_def)
  ultimately show ?thesis using f t
    unfolding do_submit_def parse_submission [OF f t] take_tokens_two
    by (simp add: strcpy_def sendable_def)
qed

end
