(* ===== verification/Board_Client.thy ===== *)
theory Board_Client
  imports Board_Spec
begin

text \<open>
  The client of the bulletin board (\<open>csieBulletinBoard/client.c\<close>) as a machine that reads words
  from its input and replies of the server, a session of one client with one server, and what the
  client does at the end of its input.
\<close>

section \<open>The client\<close>

text \<open>Where the client stands: at a \<open>scanf\<close> or at a \<open>receiveM\<close>.\<close>

datatype client_pc =
    Cl_Welcome | Cl_Command | Cl_WaitPost | Cl_From | Cl_Content string | Cl_WaitPull | Cl_Exit

definition MAX_MESSAGE_LENGTH :: nat where "MAX_MESSAGE_LENGTH = 2000"

definition prompt :: string where "prompt = ''Please enter your command (post/pull/exit): ''"

definition cl_receiveM :: "string \<Rightarrow> string option" where
  "cl_receiveM bytes = (if length bytes < MAX_MESSAGE_LENGTH then Some bytes else None)"

lemma cl_receiveM_Some: "cl_receiveM m = Some c \<longleftrightarrow> length m < MAX_MESSAGE_LENGTH \<and> c = m"
  by (auto simp: cl_receiveM_def)

lemma cl_receiveM_short [simp]: "length m < 2000 \<Longrightarrow> cl_receiveM m = Some m"
  by (simp add: cl_receiveM_def MAX_MESSAGE_LENGTH_def)

text \<open>Every reply is a single digit or went through \<open>sendM\<close>, so the client receives it.\<close>

lemma cl_receiveM_sendM [simp]: "cl_receiveM (sendM m) = Some (sendM m)"
  by (simp add: cl_receiveM_def sendM_def MAX_MESSAGE_LENGTH_def MAX_MESSAGE_LEN_def)

text \<open>A word read by \<open>scanf\<close>: the message sent, the text printed and the next point.\<close>

fun client_word :: "string \<Rightarrow> client_pc \<Rightarrow> (string option \<times> string \<times> client_pc) option" where
  "client_word w Cl_Command = do {
     command \<leftarrow> strcpy 5 w;
     Some (Some command, [], (if command = ''post'' then Cl_WaitPost
       else if command = ''pull'' then Cl_WaitPull else Cl_Exit)) }"
| "client_word w Cl_From = do {
     from1 \<leftarrow> strcpy MAX_MESSAGE_LENGTH w;
     Some (None, ''CONTENT:'' @ newline, Cl_Content from1) }"
| "client_word w (Cl_Content from1) = do {
     text2 \<leftarrow> strcpy MAX_MESSAGE_LENGTH w;
     temp \<leftarrow> strcpy MAX_MESSAGE_LENGTH (''[SP]'' @ from1 @ ''+'' @ text2);
     Some (Some temp, prompt, Cl_Command) }"
| "client_word w _ = None"

text \<open>A reply of the server: the text printed and the next point.\<close>

fun client_reply :: "string \<Rightarrow> client_pc \<Rightarrow> (string \<times> client_pc) option" where
  "client_reply msg Cl_Welcome = Some (msg @ prompt, Cl_Command)"
| "client_reply msg Cl_WaitPost =
     (if msg = ''0'' then Some (''[Error] Maximum posting limit exceeded'' @ newline @ prompt, Cl_Command)
      else Some (''FROM: '', Cl_From))"
| "client_reply msg Cl_WaitPull = Some (msg @ prompt, Cl_Command)"
| "client_reply msg _ = None"

section \<open>A session\<close>

text \<open>
  The client with descriptor \<open>fd\<close> reads one word: the server handles what it sends, and the
  client the reply. The last component is what the client has printed.
\<close>

type_synonym session = "client_pc \<times> server \<times> board \<times> string"

fun session_word :: "nat \<Rightarrow> string \<Rightarrow> session \<Rightarrow> session option" where
  "session_word fd w (pc, sv, b, out) = do {
     (m, t, pc) \<leftarrow> client_word w pc;
     out \<leftarrow> Some (out @ t);
     (case m of None \<Rightarrow> Some (pc, sv, b, out)
      | Some msg \<Rightarrow> do {
          command \<leftarrow> receiveM msg;
          (sv, b, r) \<leftarrow> handle fd command sv b;
          (case r of None \<Rightarrow> Some (pc, sv, b, out)
           | Some reply \<Rightarrow> do {
               response \<leftarrow> cl_receiveM reply;
               (t, pc) \<leftarrow> client_reply response pc;
               Some (pc, sv, b, out @ t) }) }) }"

fun session_words :: "nat \<Rightarrow> string list \<Rightarrow> session \<Rightarrow> session option" where
  "session_words fd [] s = Some s"
| "session_words fd (w # ws) s = do { s \<leftarrow> session_word fd w s; session_words fd ws s }"

text \<open>The server has accepted the connection, and the client receives its welcome.\<close>

definition welcomed :: "nat \<Rightarrow> server \<Rightarrow> board \<Rightarrow> session option" where
  "welcomed fd sv b = do {
     (sv, b, msg) \<leftarrow> new_connection fd sv b;
     response \<leftarrow> cl_receiveM msg;
     (t, pc) \<leftarrow> client_reply response Cl_Welcome;
     Some (pc, sv, b, t) }"

lemma new_connection_Some:
  "new_connection fd sv b = Some (sv', b', m) \<longleftrightarrow> fd < length (requestP sv) \<and> fd < 1024 \<and>
    (let sv = sv\<lparr>requestP := (requestP sv)[fd := int fd], master := insert fd (master sv)\<rparr>;
         (b, temp, lockcount) = show_posts sv [0..<RECORD_NUM] b
           (rule_line @ ''Welcome to CSIE Bulletin board'' @ newline @ rule_line) 0
     in (sv', b', m) = (warn lockcount sv, b, sendM (temp @ rule_line)))"
  by (auto simp: new_connection_def FD_SET_def arr_set_def Let_def split: prod.splits)

lemma welcomed_defined:
  "fd < length (requestP sv) \<Longrightarrow> fd < 1024 \<Longrightarrow> \<exists>sv' b' out. welcomed fd sv b = Some (Cl_Command, sv', b', out)"
  by (simp add: welcomed_def new_connection_def arr_set_nat FD_SET_def case_prod_unfold)

section \<open>The end of the input\<close>

text \<open>
  The arrays that \<open>scanf\<close> fills, \<open>None\<close> when never filled. Its result is not tested: at the end of
  the input the array keeps the last word, and the client goes on with it.
\<close>

record scan_bufs =
  command_buf :: "string option"
  str1_buf :: "string option"
  str2_buf :: "string option"

fun buf_of :: "client_pc \<Rightarrow> scan_bufs \<Rightarrow> string option" where
  "buf_of Cl_Command u = command_buf u"
| "buf_of Cl_From u = str1_buf u"
| "buf_of (Cl_Content from1) u = str2_buf u"
| "buf_of _ u = None"

fun keep_word :: "client_pc \<Rightarrow> string \<Rightarrow> scan_bufs \<Rightarrow> scan_bufs" where
  "keep_word Cl_Command w u = u\<lparr>command_buf := Some w\<rparr>"
| "keep_word Cl_From w u = u\<lparr>str1_buf := Some w\<rparr>"
| "keep_word (Cl_Content from1) w u = u\<lparr>str2_buf := Some w\<rparr>"
| "keep_word _ w u = u"

definition client_input :: "nat \<Rightarrow> string option \<Rightarrow> scan_bufs \<times> session \<Rightarrow> (scan_bufs \<times> session) option" where
  "client_input fd w = (\<lambda>(u, s). do {
     x \<leftarrow> (case w of None \<Rightarrow> buf_of (fst s) u | Some x \<Rightarrow> Some x);
     s' \<leftarrow> session_word fd x s;
     Some (keep_word (fst s) x u, s') })"

fun client_inputs :: "nat \<Rightarrow> string option list \<Rightarrow> scan_bufs \<times> session \<Rightarrow> (scan_bufs \<times> session) option" where
  "client_inputs fd [] s = Some s"
| "client_inputs fd (w # ws) s = do { s \<leftarrow> client_input fd w s; client_inputs fd ws s }"

lemma client_inputs_append:
  "client_inputs fd (xs @ ys) s = Option.bind (client_inputs fd xs s) (client_inputs fd ys)"
  by (induction xs arbitrary: s) (auto split: bind_split)

section \<open>What the handlers keep\<close>

lemma looked_ok: "board_ok b \<Longrightarrow> board_ok (b\<lparr>locks := looked sv ks (locks b)\<rparr>)"
  by (simp add: board_ok_def)

lemma warn_ok: "server_ok sv \<Longrightarrow> server_ok (warn n sv)"
  by (simp add: warn_def server_ok_def)

lemma length_lock_all [simp]: "length (flock.lock_all p ks l) = length l"
  by (induction ks arbitrary: l) (simp_all add: flock.lock_all_def)

lemma do_pull_ok:
  "server_ok sv \<Longrightarrow> board_ok b \<Longrightarrow> do_pull sv b = (sv', b', r) \<Longrightarrow> server_ok sv' \<and> board_ok b'"
  using do_pull_spec [of b sv] by (auto simp: warn_ok looked_ok board_ok_def)

lemma do_post_ok:
  assumes sv: "server_ok sv" and b: "board_ok b" and post: "do_post fd sv b = Some (sv', b', r)"
  shows "server_ok sv' \<and> board_ok b' \<and> r \<in> {''0'', ''1''}"
proof (cases "find (avail sv b) (slot_order sv)")
  case None
  with do_post_spec [OF sv b, of fd] post b wrap_last_ok [OF sv] show ?thesis
    by (auto simp: board_ok_def)
next
  case (Some m)
  then have "m < RECORD_NUM" using find_mem slot_order_perm(2) [OF sv] by fastforce
  with Some do_post_spec [OF sv b, of fd] post b slot_taken_ok [OF wrap_last_ok [OF sv]] show ?thesis
    by (auto simp: board_ok_def split: if_splits)
qed

lemma take_tokens_same:
  "mylock (take_tokens c ps sv) = mylock sv" "LAST (take_tokens c ps sv) = LAST sv"
  "last_post (take_tokens c ps sv) = last_post sv" "pid (take_tokens c ps sv) = pid sv"
  by (induction c ps sv rule: take_tokens.induct) simp_all

lemma do_submit_ok:
  assumes sv: "server_ok sv" and b: "board_ok b" and sub: "do_submit fd c sv b = Some (sv', b')"
  shows "server_ok sv' \<and> board_ok b'"
proof -
  define sv1 where "sv1 = take_tokens 0 (tokens {CHR ''+''} (removeSubstr c ''[SP]'')) sv"
  have ok1: "server_ok sv1" using sv by (simp add: sv1_def server_ok_def take_tokens_same)
  from sub obtain f t slot ml where
    1: "length f < FROM_LEN" "length t < CONTENT_LEN" "arr_set (mylock sv1) (last_post sv1) 0 = Some ml"
      "sv' = sv1\<lparr>mylock := ml, log := log sv1 @ [L_receive f]\<rparr>"
      "b' = b\<lparr>posts := (posts b)[slot := \<lparr>From = f, Content = t\<rparr>], locks := F_SETLK_UN (pid sv1) slot (locks b)\<rparr>"
    by (auto simp: do_submit_def bind_eq_Some_conv strcpy_def sv1_def [symmetric] split: if_splits)
  have "set ((posts b)[slot := \<lparr>From = f, Content = t\<rparr>]) \<subseteq> insert \<lparr>From = f, Content = t\<rparr> (set (posts b))"
    by (rule set_update_subset_insert)
  then have "board_ok b'" using 1 b unfolding board_ok_def by auto
  moreover have "length ml = length (mylock sv1)" using arr_set_Some [OF 1(3)] by simp
  then have "server_ok sv'" using 1(4) ok1 by (simp add: server_ok_def)
  ultimately show ?thesis by blast
qed

lemma handle_ok:
  assumes sv: "server_ok sv" and b: "board_ok b" and h: "handle fd c sv b = Some (sv', b', r)"
  shows "server_ok sv' \<and> board_ok b'"
proof -
  consider "strstr c ''[SP]'' \<noteq> None" | "strstr c ''[SP]'' = None" "c = ''post''"
    | "strstr c ''[SP]'' = None" "c = ''pull''" | "strstr c ''[SP]'' = None" "c \<noteq> ''post''" "c \<noteq> ''pull''"
    by blast
  then show ?thesis
  proof cases
    case 1
    with h do_submit_ok [OF sv b, of fd c] show ?thesis
      by (auto simp: handle_def bind_eq_Some_conv)
  next
    case 2
    with h do_post_ok [OF sv b, of fd] show ?thesis by (auto simp: handle_def bind_eq_Some_conv)
  next
    case 3
    with h do_pull_ok [OF sv b] show ?thesis by (auto simp: handle_def split: prod.splits)
  next
    case 4
    with h sv b show ?thesis by (auto simp: handle_def do_exit_def server_ok_def split: if_splits)
  qed
qed

lemma do_post_defined: "server_ok sv \<Longrightarrow> board_ok b \<Longrightarrow> fd < 1024 \<Longrightarrow> \<exists>sv' b' r. do_post fd sv b = Some (sv', b', r)"
  by (simp add: do_post_spec split: option.split)

lemma handle_defined:
  "strstr c ''[SP]'' = None \<Longrightarrow> server_ok sv \<Longrightarrow> board_ok b \<Longrightarrow> fd < 1024 \<Longrightarrow> handle fd c sv b \<noteq> None"
  using do_post_defined [of sv b fd] by (auto simp: handle_def split: prod.splits)

end
