(* ===== verification/Board_Net.thy ===== *)
theory Board_Net
  imports Board_Client CNumbers
begin

text \<open>
  How a server and a client start: the arguments of both programs, the calls of the socket interface, whose
  results are given, and the connection of a client to the port a server listens at. The left side of a result is the
  text of the error the program ends with.
\<close>

section \<open>The server\<close>

text \<open>The results of the calls that \<open>init_server\<close> makes.\<close>

record server_calls =
  own_pid :: nat
  socket_call :: int
  setsockopt_call :: int
  bind_call :: "16 word \<Rightarrow> int"
  listen_call :: int
  getdtablesize_call :: nat
  malloc_call :: bool

text \<open>\<open>atoi\<close> of a text whose number does not fit an \<open>int\<close> is undefined.\<close>

definition atoi_int :: "string \<Rightarrow> int option" where
  "atoi_int s = (if - (2 ^ 31) \<le> atoi s \<and> atoi s < 2 ^ 31 then Some (atoi s) else None)"

definition init_server :: "server_calls \<Rightarrow> 16 word \<Rightarrow> (string + server) option" where
  "init_server os port =
     (if socket_call os < 0 then Some (Inl ''socket'')
      else if setsockopt_call os < 0 then Some (Inl ''setsockopt'')
      else if bind_call os port < 0 then Some (Inl ''bind'')
      else if listen_call os < 0 then Some (Inl ''listen'')
      else if \<not> malloc_call os then Some (Inl ''out of memory allocating all requests'')
      else if nat (socket_call os) < getdtablesize_call os
      then Some (Inr (server_init (own_pid os) (nat (socket_call os)) (getdtablesize_call os)))
      else None)"

text \<open>\<open>main\<close> up to its loop; the result tells the port as well.\<close>

definition server_main :: "server_calls \<Rightarrow> string list \<Rightarrow> (string + 16 word \<times> server) option" where
  "server_main os argv =
     (if length argv \<noteq> 2 then Some (Inl ''usage: [port]'')
      else do {
        arg \<leftarrow> arr_get argv 1;
        n \<leftarrow> atoi_int arg;
        port \<leftarrow> Some (word_of_int n :: 16 word);
        r \<leftarrow> init_server os port;
        (case r of Inl e \<Rightarrow> Some (Inl e) | Inr sv \<Rightarrow> Some (Inr (port, sv))) })"

section \<open>The client\<close>

record client_calls =
  c_socket_call :: int
  inet_pton_call :: "string \<Rightarrow> int"
  connect_call :: "string \<Rightarrow> 16 word \<Rightarrow> int"

record client =
  ip :: string
  port :: "16 word"
  conn_fd :: int

definition init_client :: "client_calls \<Rightarrow> string list \<Rightarrow> (string + client) option" where
  "init_client os argv = do {
     host \<leftarrow> arr_get argv 1;
     arg \<leftarrow> arr_get argv 2;
     n \<leftarrow> atoi_int arg;
     (if n = 0 \<or> n > 65536 then Some (Inl ''Invalid port'')
      else do {
        p \<leftarrow> Some (word_of_int n :: 16 word);
        (if c_socket_call os < 0 then Some (Inl ''socket'')
         else if inet_pton_call os host \<le> 0 then Some (Inl ''Invalid IP'')
         else if connect_call os host p < 0 then Some (Inl ''connect'')
         else Some (Inr \<lparr>ip = host, port = p, conn_fd = c_socket_call os\<rparr>)) }) }"

definition client_main :: "client_calls \<Rightarrow> string list \<Rightarrow> (string + client) option" where
  "client_main os argv =
     (if length argv \<noteq> 3 then Some (Inl ''usage: [ip] [port]'') else init_client os argv)"

section \<open>Both together\<close>

text \<open>
  A client that starts while a server listens; \<open>here\<close> are the addresses of the machine of the server. The
  client's connection is for this server if its address is one of them and the port is the one of the
  server, which accepts it with descriptor \<open>fd\<close> and welcomes the client. Otherwise, if \<open>connect\<close>
  succeeds, the client talks to another program, of which nothing is known (\<open>Inr None\<close>).
\<close>

definition start_up :: "server_calls \<Rightarrow> string list \<Rightarrow> client_calls \<Rightarrow> string list \<Rightarrow> (string \<Rightarrow> bool) \<Rightarrow> nat \<Rightarrow> board
    \<Rightarrow> (string + session option) option" where
  "start_up sos sargv cos cargv here fd b = do {
     r \<leftarrow> server_main sos sargv;
     (case r of Inl e \<Rightarrow> Some (Inl e)
      | Inr (p, sv) \<Rightarrow> do {
          c \<leftarrow> client_main cos cargv;
          (case c of Inl e \<Rightarrow> Some (Inl e)
           | Inr cl \<Rightarrow> (if here (ip cl) \<and> port cl = p
               then do { s \<leftarrow> welcomed fd sv b; Some (Inr (Some s)) } else Some (Inr None))) }) }"

text \<open>
  What is relied on of \<open>connect\<close>: on the machine of the server it succeeds for the port a program
  listens at, which is this server alone, and never for port 0. Of other machines nothing is assumed.
\<close>

definition only_listener :: "client_calls \<Rightarrow> (string \<Rightarrow> bool) \<Rightarrow> 16 word \<Rightarrow> bool" where
  "only_listener os here p \<longleftrightarrow> (\<forall>host q. here host \<longrightarrow> (0 \<le> connect_call os host q \<longleftrightarrow> q = p \<and> q \<noteq> 0))"

text \<open>All calls of the server succeed.\<close>

definition server_calls_ok :: "server_calls \<Rightarrow> 16 word \<Rightarrow> bool" where
  "server_calls_ok os p \<longleftrightarrow> 0 \<le> socket_call os \<and> 0 \<le> setsockopt_call os \<and> 0 \<le> bind_call os p \<and>
     0 \<le> listen_call os \<and> malloc_call os \<and> nat (socket_call os) < getdtablesize_call os"

definition client_calls_ok :: "client_calls \<Rightarrow> string \<Rightarrow> bool" where
  "client_calls_ok os host \<longleftrightarrow> 0 \<le> c_socket_call os \<and> 0 < inet_pton_call os host"

lemma init_server_ok: "server_calls_ok os p \<Longrightarrow>
    init_server os p = Some (Inr (server_init (own_pid os) (nat (socket_call os)) (getdtablesize_call os)))"
  by (simp add: server_calls_ok_def init_server_def)

lemma init_server_Inr: "init_server os p = Some (Inr sv) \<Longrightarrow> server_calls_ok os p \<and> server_ok sv"
  by (auto simp: init_server_def server_calls_ok_def server_init_ok split: if_splits)

lemma atoi_int_text: "- (2 ^ 31) \<le> n \<Longrightarrow> n < 2 ^ 31 \<Longrightarrow> atoi_int (intTostr n) = Some n"
  by (simp add: atoi_int_def)

lemma start_up_ports:
  fixes n m :: int
  assumes s: "server_calls_ok sos (word_of_int n)" and c: "client_calls_ok cos host"
    and net: "only_listener cos here (word_of_int n)"
    and n: "- (2 ^ 31) \<le> n" "n < 2 ^ 31" "(word_of_int n :: 16 word) \<noteq> 0" and m: "- (2 ^ 31) \<le> m" "m < 2 ^ 31"
  shows "start_up sos [a, intTostr n] cos [a', host, intTostr m] here fd b =
    (if m = 0 \<or> m > 65536 then Some (Inl ''Invalid port'')
     else if \<not> here host
       then Some (if connect_call cos host (word_of_int m) < 0 then Inl ''connect'' else Inr None)
     else if (word_of_int m :: 16 word) \<noteq> word_of_int n then Some (Inl ''connect'')
     else map_option (Inr \<circ> Some)
       (welcomed fd (server_init (own_pid sos) (nat (socket_call sos)) (getdtablesize_call sos)) b))"
proof -
  have server: "server_main sos [a, intTostr n] =
      Some (Inr (word_of_int n, server_init (own_pid sos) (nat (socket_call sos)) (getdtablesize_call sos)))"
    using init_server_ok [OF s] n by (simp add: server_main_def arr_get_def atoi_int_text)
  have client: "client_main cos [a', host, intTostr m] =
    (if m = 0 \<or> m > 65536 then Some (Inl ''Invalid port'')
     else if connect_call cos host (word_of_int m) < 0 then Some (Inl ''connect'')
     else Some (Inr \<lparr>ip = host, port = word_of_int m, conn_fd = c_socket_call cos\<rparr>))"
    using c m by (simp add: client_main_def init_client_def arr_get_def atoi_int_text client_calls_ok_def numeral_2_eq_2)
  have "here host \<Longrightarrow> 0 \<le> connect_call cos host (word_of_int m) \<longleftrightarrow> (word_of_int m :: 16 word) = word_of_int n"
    using net n(3) by (auto simp: only_listener_def)
  then show ?thesis
    by (auto simp: start_up_def server client map_conv_bind_option comp_def)
qed

end
