(* ===== verification/Board_Many.thy ===== *)
theory Board_Many
  imports Board_Client
begin

text \<open>
  Several servers of the bulletin board that share its file: each keeps its own variables, and the
  record locks are all they know of each other. A step is a new connection or a message at one of
  them. The records that a server has reserved are its own as long as submissions come in the order of
  the reservations.
\<close>

section \<open>The servers\<close>

datatype event = Connect nat | Message nat string

type_synonym servers = "server list \<times> board"

text \<open>A step gives the answer that is sent and the servers afterwards.\<close>

fun servers_do :: "nat \<times> event \<Rightarrow> servers \<Rightarrow> (string option \<times> servers) option" where
  "servers_do (j, Connect fd) (svs, b) =
     (if j < length svs
      then do { (sv, b, msg) \<leftarrow> new_connection fd (svs ! j) b; Some (Some msg, svs[j := sv], b) }
      else None)"
| "servers_do (j, Message fd m) (svs, b) =
     (if j < length svs
      then do {
        c \<leftarrow> receiveM m;
        (sv, b, r) \<leftarrow> handle fd c (svs ! j) b;
        Some (r, svs[j := sv], b) }
      else None)"

fun servers_run :: "(nat \<times> event) list \<Rightarrow> servers \<Rightarrow> (string option list \<times> servers) option" where
  "servers_run [] s = Some ([], s)"
| "servers_run (e # es) s = do {
     (r, s) \<leftarrow> servers_do e s;
     (rs, s) \<leftarrow> servers_run es s;
     Some (r # rs, s) }"

section \<open>Reservations\<close>

text \<open>A server holds the file lock of every record it has reserved.\<close>

definition holds :: "server \<Rightarrow> board \<Rightarrow> bool" where
  "holds sv b \<longleftrightarrow> (\<forall>k < RECORD_NUM. mylock sv ! k \<noteq> 0 \<longrightarrow> locks b ! k = Some (pid sv))"

text \<open>A submission comes in turn when the record of its client is the one reserved last.\<close>

definition submits_in_turn :: "nat \<Rightarrow> string \<Rightarrow> server \<Rightarrow> bool" where
  "submits_in_turn fd m sv \<longleftrightarrow> strstr m ''[SP]'' = None \<or>
     (case LAST sv ! fd of None \<Rightarrow> False | Some k \<Rightarrow> last_post sv = int k \<and> mylock sv ! k \<noteq> 0)"

text \<open>What a step of the server \<open>p\<close> does to the locks and posts that matter to the others.\<close>

definition spares :: "nat \<Rightarrow> server \<Rightarrow> board \<Rightarrow> server \<Rightarrow> board \<Rightarrow> bool" where
  "spares p sv b sv' b' \<longleftrightarrow> pid sv' = p \<and>
     (\<forall>k < RECORD_NUM. \<forall>q. q \<noteq> p \<longrightarrow> (locks b' ! k = Some q \<longleftrightarrow> locks b ! k = Some q)) \<and>
     (\<forall>k < RECORD_NUM. mylock sv ! k = 0 \<longrightarrow> posts b' ! k = posts b ! k)"

lemma spares_refl: "spares (pid sv) sv b sv b"
  by (simp add: spares_def)

lemma looked_holds:
  assumes "holds sv b" and "board_ok b" and "mylock sv' = mylock sv" and "pid sv' = pid sv"
  shows "holds sv' (b\<lparr>locks := looked sv ks (locks b)\<rparr>) \<and>
    spares (pid sv) sv b sv' (b\<lparr>locks := looked sv ks (locks b)\<rparr>)"
  using assms by (auto simp: holds_def spares_def nth_looked board_ok_def)

lemma do_pull_holds:
  assumes "holds sv b" and "board_ok b" and "do_pull sv b = (sv', b', r)"
  shows "holds sv' b' \<and> spares (pid sv) sv b sv' b'"
proof -
  have "length (locks b) = RECORD_NUM" using assms(2) by (simp add: board_ok_def)
  from do_pull_spec [OF this, of sv] assms(3) looked_holds [OF assms(1,2), of sv'] show ?thesis
    by (auto simp: warn_def split: if_splits)
qed

lemma new_connection_holds:
  assumes "holds sv b" and "board_ok b" and "new_connection fd sv b = Some (sv', b', r)"
  shows "holds sv' b' \<and> spares (pid sv) sv b sv' b' \<and> (server_ok sv \<longrightarrow> server_ok sv') \<and> board_ok b'"
proof -
  let ?sv = "sv\<lparr>requestP := (requestP sv)[fd := int fd], master := insert fd (master sv)\<rparr>"
  have "holds ?sv b" using assms(1) by (simp add: holds_def)
  from looked_holds [OF this assms(2), of sv'] show ?thesis
    using assms(2,3) show_posts_spec [of "[0..<RECORD_NUM]" b ?sv _ 0]
    by (auto simp: new_connection_Some Let_def warn_def spares_def server_ok_def board_ok_def split: if_splits)
qed

lemma do_post_holds:
  assumes sv: "server_ok sv" and b: "board_ok b" and "holds sv b" and "do_post fd sv b = Some (sv', b', r)"
  shows "holds sv' b' \<and> spares (pid sv) sv b sv' b'"
proof -
  have b': "b' = b\<lparr>locks := flock.lock_all (pid sv) (slot_order sv) (locks b)\<rparr>"
    and sv': "sv' = (case find (avail sv b) (slot_order sv) of None \<Rightarrow> wrap_last sv
       | Some m \<Rightarrow> slot_taken fd m (wrap_last sv))"
    using do_post_spec [OF sv b, of fd] assms(4) by (auto split: option.splits if_splits)
  have own: "locks b' ! k = (if locks b ! k = None then Some (pid sv) else locks b ! k)" if "k < RECORD_NUM" for k
    using flock.lock_all_owner [of "slot_order sv" "locks b" "pid sv" k] slot_order_perm(2) [OF sv] b that
    unfolding b' by (auto simp: board_ok_def)
  have same: "mylock (wrap_last sv) = mylock sv" "pid (wrap_last sv) = pid sv"
    by (simp_all add: wrap_last_def)
  have pid: "pid sv' = pid sv" and "posts b' = posts b"
    by (auto simp: sv' b' slot_taken_def same split: option.split)
  have reserved: "mylock sv ! k \<noteq> 0 \<or> locks b ! k = None \<or> locks b ! k = Some (pid sv)"
    if "mylock sv' ! k \<noteq> 0" for k
    using that find_mem [of "avail sv b" "slot_order sv"]
    by (auto simp: sv' same slot_taken_def nth_upd avail_def split: option.splits if_splits)
  have "holds sv' b'"
    unfolding holds_def
  proof (intro allI impI)
    fix k
    assume k: "k < RECORD_NUM" "mylock sv' ! k \<noteq> 0"
    then have "locks b ! k = None \<or> locks b ! k = Some (pid sv)"
      using reserved [of k] assms(3) by (auto simp: holds_def)
    with own [OF k(1)] pid show "locks b' ! k = Some (pid sv')" by auto
  qed
  with own pid \<open>posts b' = posts b\<close> show ?thesis by (auto simp: spares_def)
qed

lemma do_submit_holds:
  assumes sv: "server_ok sv" and b: "board_ok b" and h: "holds sv b"
    and turn: "LAST sv ! fd = Some k" "last_post sv = int k" "mylock sv ! k \<noteq> 0"
    and sub: "do_submit fd c sv b = Some (sv', b')"
  shows "holds sv' b' \<and> spares (pid sv) sv b sv' b'"
proof -
  define sv1 where "sv1 = take_tokens 0 (tokens {CHR ''+''} (removeSubstr c ''[SP]'')) sv"
  note same = take_tokens_same [of 0 "tokens {CHR ''+''} (removeSubstr c ''[SP]'')" sv, folded sv1_def]
  have k: "k < RECORD_NUM" using sv turn(2) by (simp add: server_ok_def)
  with sv have "arr_set (mylock sv) (int k) 0 = Some ((mylock sv)[k := 0])"
    by (simp add: arr_set_nat server_ok_def)
  with sub turn obtain f t where
    "sv' = sv1\<lparr>mylock := (mylock sv)[k := 0], log := log sv1 @ [L_receive f]\<rparr>"
    "b' = b\<lparr>posts := (posts b)[k := \<lparr>From = f, Content = t\<rparr>], locks := F_SETLK_UN (pid sv) k (locks b)\<rparr>"
    by (auto simp: do_submit_def bind_eq_Some_conv same sv1_def [symmetric] dest!: arr_get_Some)
  with h turn(3) k sv b show ?thesis
    by (auto simp: holds_def spares_def same F_SETLK_UN_def nth_upd server_ok_def board_ok_def)
qed

lemma handle_holds:
  assumes sv: "server_ok sv" and b: "board_ok b" and h: "holds sv b" and turn: "submits_in_turn fd c sv"
    and "handle fd c sv b = Some (sv', b', r)"
  shows "holds sv' b' \<and> spares (pid sv) sv b sv' b'"
proof -
  consider "strstr c ''[SP]'' \<noteq> None" | "strstr c ''[SP]'' = None" "c = ''post''"
    | "strstr c ''[SP]'' = None" "c = ''pull''" | "strstr c ''[SP]'' = None" "c \<noteq> ''post''" "c \<noteq> ''pull''"
    by blast
  then show ?thesis
  proof cases
    case 1
    with assms(5) obtain r' where "do_submit fd c sv b = Some (sv', b')"
      by (auto simp: handle_def bind_eq_Some_conv)
    with 1 turn do_submit_holds [OF sv b h, of fd] show ?thesis
      by (auto simp: submits_in_turn_def split: option.splits)
  next
    case 2
    with assms(5) do_post_holds [OF sv b h, of fd] show ?thesis
      by (auto simp: handle_def bind_eq_Some_conv)
  next
    case 3
    with assms(5) do_pull_holds [OF h b] show ?thesis by (auto simp: handle_def split: prod.splits)
  next
    case 4
    with assms(5) h spares_refl [of sv b] show ?thesis
      by (auto simp: handle_def do_exit_def holds_def spares_def split: if_splits)
  qed
qed

section \<open>All servers together\<close>

fun in_turn :: "nat \<times> event \<Rightarrow> servers \<Rightarrow> bool" where
  "in_turn (j, Connect fd) s = True"
| "in_turn (j, Message fd m) (svs, b) = submits_in_turn fd m (svs ! j)"

definition orderly :: "servers \<Rightarrow> servers \<Rightarrow> bool" where
  "orderly s t \<longleftrightarrow> (\<exists>e r. in_turn e s \<and> servers_do e s = Some (r, t))"

text \<open>Servers that have just been started, each with its own process id.\<close>

definition started_servers :: "servers \<Rightarrow> bool" where
  "started_servers s \<longleftrightarrow> board_ok (snd s) \<and> distinct (map pid (fst s)) \<and>
     (\<forall>sv \<in> set (fst s). server_ok sv \<and> (\<forall>k < RECORD_NUM. mylock sv ! k = 0))"

definition servers_ok :: "servers \<Rightarrow> bool" where
  "servers_ok s \<longleftrightarrow> board_ok (snd s) \<and> distinct (map pid (fst s)) \<and>
     (\<forall>sv \<in> set (fst s). server_ok sv \<and> holds sv (snd s))"

text \<open>One server's step keeps what all others hold.\<close>

lemma spares_holds:
  assumes "spares p sv b sv' b'" and "holds other b" and "pid other \<noteq> p"
  shows "holds other b'"
  using assms by (auto simp: spares_def holds_def)

lemma servers_do_cases:
  assumes "servers_do (j, e) (svs, b) = Some (r, svs', b')"
  obtains sv where "j < length svs" "svs' = svs[j := sv]"
    "case e of Connect fd \<Rightarrow> (\<exists>msg. new_connection fd (svs ! j) b = Some (sv, b', msg))
     | Message fd m \<Rightarrow> (\<exists>c. receiveM m = Some c \<and> handle fd c (svs ! j) b = Some (sv, b', r))"
  using assms
  by (cases e) (auto simp: bind_eq_Some_conv split: if_splits prod.splits intro: that)

lemma servers_do_ok:
  assumes ok: "servers_ok (svs, b)" and turn: "in_turn (j, e) (svs, b)"
    and do: "servers_do (j, e) (svs, b) = Some (r, svs', b')"
  shows "servers_ok (svs', b') \<and> j < length svs \<and> (\<exists>sv. svs' = svs[j := sv] \<and> spares (pid (svs ! j)) (svs ! j) b sv b')"
proof -
  from do obtain sv where j: "j < length svs" "svs' = svs[j := sv]"
    and sv: "case e of Connect fd \<Rightarrow> (\<exists>msg. new_connection fd (svs ! j) b = Some (sv, b', msg))
     | Message fd m \<Rightarrow> (\<exists>c. receiveM m = Some c \<and> handle fd c (svs ! j) b = Some (sv, b', r))"
    by (rule servers_do_cases)
  have svj: "svs ! j \<in> set svs" using j(1) by simp
  with ok have I: "board_ok b" "server_ok (svs ! j)" "holds (svs ! j) b" and dist: "distinct (map pid svs)"
    by (auto simp: servers_ok_def)
  have S: "holds sv b' \<and> spares (pid (svs ! j)) (svs ! j) b sv b' \<and> server_ok sv \<and> board_ok b'"
  proof (cases e)
    case (Connect fd)
    with sv new_connection_holds [OF I(3,1)] I(2) show ?thesis by auto
  next
    case (Message fd m)
    with sv turn handle_holds [OF I(2,1,3)] handle_ok [OF I(2,1)] show ?thesis
      by (auto simp: receiveM_Some)
  qed
  then have pid: "pid sv = pid (svs ! j)" by (simp add: spares_def)
  have "map pid svs' = map pid svs"
    using pid j list_update_id [of "map pid svs" j] by (simp add: map_update)
  moreover have "server_ok x \<and> holds x b'" if x: "x \<in> set svs'" for x
  proof -
    from x obtain i where i: "i < length svs" "x = svs' ! i" using j(2) by (auto simp: in_set_conv_nth)
    show ?thesis
    proof (cases "i = j")
      case True
      with i j S show ?thesis by simp
    next
      case False
      then have "pid x \<noteq> pid (svs ! j)" "x \<in> set svs"
        using i j dist by (auto simp: distinct_conv_nth)
      with ok S spares_holds [of "pid (svs ! j)" "svs ! j" b sv b' x] show ?thesis by (auto simp: servers_ok_def)
    qed
  qed
  ultimately show ?thesis using dist S j by (auto simp: servers_ok_def)
qed

interpretation servers: transition_invariant orderly started_servers servers_ok
proof unfold_locales
  show "servers_ok s" if "started_servers s" for s
    using that by (auto simp: started_servers_def servers_ok_def holds_def)
  show "servers_ok t" if "servers_ok s" "orderly s t" for s t
  proof -
    from that(2) obtain j e r where "in_turn (j, e) s" "servers_do (j, e) s = Some (r, t)"
      by (auto simp: orderly_def)
    with servers_do_ok [of "fst s" "snd s" j e r "fst t" "snd t"] that(1) show ?thesis by simp
  qed
qed

text \<open>What a server has reserved no other server may use.\<close>

lemma reserved_not_avail:
  assumes "servers_ok (svs, b)" and "i < length svs" and "j < length svs" and "i \<noteq> j"
    and "k < RECORD_NUM" and "mylock (svs ! i) ! k \<noteq> 0"
  shows "mylock (svs ! j) ! k = 0 \<and> foreign (svs ! j) b k \<and> locks b ! k = Some (pid (svs ! i))"
proof -
  have "svs ! i \<in> set svs" "svs ! j \<in> set svs" using assms(2,3) by simp_all
  then have h: "holds (svs ! i) b" "holds (svs ! j) b" using assms(1) by (auto simp: servers_ok_def)
  have "pid (svs ! i) \<noteq> pid (svs ! j)"
    using assms(1-4) by (auto simp: servers_ok_def distinct_conv_nth)
  with h assms(5,6) show ?thesis by (auto simp: holds_def foreign_def)
qed

end
