(* ===== verification/Board_Fail.thy ===== *)
theory Board_Fail
  imports Board_Many
begin

text \<open>
  Transfers of the bulletin board that fail: \<open>recvfrom\<close>, \<open>sendto\<close> or \<open>accept\<close> returns an error, or
  the other side has closed the connection. On an error the program prints it and exits, and the
  system releases all record locks of the process. The theory has the turn of the main loop and the
  client of \<open>Board_Server\<close> and \<open>Board_Client\<close> with these results, and shows that a session is the client
  and the server put together.
\<close>

section \<open>A turn of the server\<close>

text \<open>What \<open>recvfrom\<close> finds: bytes, nothing because the connection is closed, or an error.\<close>

datatype arrival = Bytes string | Closed | Recv_error

fun arrived :: "arrival \<Rightarrow> string" where
  "arrived (Bytes m) = m"
| "arrived _ = ''''"

definition server_recv :: "arrival \<Rightarrow> (string + string) option" where
  "server_recv a = (if a = Recv_error then Some (Inl ''Error receiving message from client'')
     else map_option Inr (receiveM (arrived a)))"

text \<open>
  What \<open>fcntl\<close> promises of a process that ends, and the code relies on: it loses its record locks; what it
  has written stays.
\<close>

definition release :: "nat \<Rightarrow> board \<Rightarrow> board" where
  "release p b = b\<lparr>locks := map (\<lambda>x. if x = Some p then None else x) (locks b)\<rparr>"

type_synonym turn_end = "string \<times> board + server \<times> board"

text \<open>A reply to the client with descriptor \<open>fd\<close> is sent if \<open>sends fd\<close>.\<close>

fun serve_ready_io :: "(nat \<Rightarrow> bool) \<Rightarrow> nat list \<Rightarrow> (nat \<Rightarrow> arrival option) \<Rightarrow> server \<Rightarrow> board \<Rightarrow> turn_end option" where
  "serve_ready_io sends [] rd sv b = Some (Inr (sv, b))"
| "serve_ready_io sends (i # js) rd sv b =
     (let fd = requestP sv ! i in
      if fd \<noteq> int (listen_fd sv) \<and> 0 \<le> fd \<and> rd (nat fd) \<noteq> None
      then do {
        c \<leftarrow> server_recv (the (rd (nat fd)));
        (case c of
           Inl e \<Rightarrow> Some (Inl (e, release (pid sv) b))
         | Inr command \<Rightarrow> do {
             (sv, b, reply) \<leftarrow> handle (nat fd) command sv b;
             if reply \<noteq> None \<and> \<not> sends (nat fd)
             then Some (Inl (''Error sending message to client'', release (pid sv) b))
             else serve_ready_io sends js rd sv b }) }
      else serve_ready_io sends js rd sv b)"

definition serve_turn_io ::
  "(errno + nat) option \<Rightarrow> (nat \<Rightarrow> bool) \<Rightarrow> (nat \<Rightarrow> arrival option) \<Rightarrow> server \<Rightarrow> board \<Rightarrow> turn_end option" where
  "serve_turn_io new sends rd sv b = (case new of
     Some (Inr fd) \<Rightarrow> do {
       (sv, b, msg) \<leftarrow> new_connection fd sv b;
       if sends fd then Some (Inr (sv, b))
       else Some (Inl (''Error sending message to client'', release (pid sv) b)) }
   | Some (Inl e) \<Rightarrow> (if e = EINTR \<or> e = EAGAIN \<or> e = ENFILE then Some (Inr (sv, b))
       else Some (Inl (''accept'', release (pid sv) b)))
   | None \<Rightarrow> serve_ready_io sends [0..<length (requestP sv)] rd sv b)"

section \<open>The locks that a handler touches\<close>

definition own_locks_only :: "nat \<Rightarrow> locks \<Rightarrow> locks \<Rightarrow> bool" where
  "own_locks_only p l l' \<longleftrightarrow> length l' = length l \<and>
     (\<forall>k < length l. l' ! k = l ! k \<or> l ! k \<in> {None, Some p} \<and> l' ! k \<in> {None, Some p})"

lemma own_locks_only_refl [simp]: "own_locks_only p l l"
  by (simp add: own_locks_only_def)

lemma own_locks_only_trans: "own_locks_only p l l' \<Longrightarrow> own_locks_only p l' l'' \<Longrightarrow> own_locks_only p l l''"
  unfolding own_locks_only_def by (metis insertE singletonD)

lemma own_locks_only_set [simp]:
  "own_locks_only p l (snd (F_SETLK_WR p k l))" "own_locks_only p l (F_SETLK_UN p k l)"
  by (auto simp: own_locks_only_def F_SETLK_WR_def F_SETLK_UN_def nth_upd)

lemma own_locks_only_all: "own_locks_only p l (flock.lock_all p ks l)"
  by (induction ks arbitrary: l) (auto simp: flock.lock_all_def intro: own_locks_only_trans [OF own_locks_only_set(1)])

lemma own_locks_only_looked: "own_locks_only (pid sv) l (looked sv ks l)"
  by (auto simp: own_locks_only_def nth_looked)

text \<open>A handler that replies writes no post.\<close>

lemma do_submit_locks:
  assumes "do_submit fd c sv b = Some (sv', b')"
  shows "pid sv' = pid sv \<and> own_locks_only (pid sv) (locks b) (locks b')"
  using assms by (auto simp: do_submit_def bind_eq_Some_conv take_tokens_same)

lemma handle_locks:
  assumes sv: "server_ok sv" and b: "board_ok b" and h: "handle fd c sv b = Some (sv', b', r)"
  shows "pid sv' = pid sv \<and> own_locks_only (pid sv) (locks b) (locks b') \<and> (r \<noteq> None \<longrightarrow> posts b' = posts b)"
proof -
  consider "strstr c ''[SP]'' \<noteq> None" | "strstr c ''[SP]'' = None" "c = ''post''"
    | "strstr c ''[SP]'' = None" "c = ''pull''" | "strstr c ''[SP]'' = None" "c \<noteq> ''post''" "c \<noteq> ''pull''"
    by blast
  then show ?thesis
  proof cases
    case 1
    with h do_submit_locks [of fd c sv b] show ?thesis by (auto simp: handle_def bind_eq_Some_conv)
  next
    case 2
    with h do_post_spec [OF sv b, of fd] show ?thesis
      by (auto simp: handle_def own_locks_only_all slot_taken_def wrap_last_def bind_eq_Some_conv
          split: option.splits if_splits)
  next
    case 3
    with h do_pull_spec [of b sv] b show ?thesis
      by (auto simp: handle_def board_ok_def own_locks_only_looked warn_def)
  next
    case 4
    with h show ?thesis by (auto simp: handle_def do_exit_def split: if_splits)
  qed
qed

lemma new_connection_locks:
  assumes "board_ok b" and "new_connection fd sv b = Some (sv', b', m)"
  shows "pid sv' = pid sv \<and> own_locks_only (pid sv) (locks b) (locks b') \<and> posts b' = posts b"
proof -
  let ?sv = "sv\<lparr>requestP := (requestP sv)[fd := int fd], master := insert fd (master sv)\<rparr>"
  show ?thesis
    using assms show_posts_spec [of "[0..<RECORD_NUM]" b ?sv _ 0] own_locks_only_looked [of ?sv]
    by (auto simp: new_connection_Some Let_def warn_def board_ok_def split: if_splits)
qed

lemma released_posts [simp]: "posts (release p b) = posts b"
  by (simp add: release_def)

lemma release_locks:
  assumes "own_locks_only p l (locks b)" and "k < length l"
  shows "locks (release p b) ! k = (if l ! k = Some p then None else l ! k)"
  using assms by (auto simp: own_locks_only_def release_def)

section \<open>What is done before a failure\<close>

text \<open>Without a failure a turn is the one of \<open>Board_Server\<close>; otherwise that of the clients before.\<close>

definition received :: "(nat \<Rightarrow> arrival option) \<Rightarrow> nat \<Rightarrow> string option" where
  "received rd = map_option arrived \<circ> rd"

definition fails_at :: "string \<Rightarrow> (nat \<Rightarrow> arrival option) \<Rightarrow> (nat \<Rightarrow> bool) \<Rightarrow> nat \<Rightarrow> server \<Rightarrow> board \<Rightarrow> bool" where
  "fails_at e rd sends i sv b \<longleftrightarrow> (let fd = requestP sv ! i in
     fd \<noteq> int (listen_fd sv) \<and> 0 \<le> fd \<and>
     (e = ''Error receiving message from client'' \<and> rd (nat fd) = Some Recv_error \<or>
      e = ''Error sending message to client'' \<and> rd (nat fd) \<notin> {None, Some Recv_error} \<and> \<not> sends (nat fd) \<and>
        (\<exists>sv' b' m. handle (nat fd) (arrived (the (rd (nat fd)))) sv b = Some (sv', b', Some m))))"

definition released :: "nat \<Rightarrow> board \<Rightarrow> board \<Rightarrow> bool" where
  "released p b b' \<longleftrightarrow> length (locks b') = length (locks b) \<and>
     (\<forall>k < length (locks b). locks b' ! k = (if locks b ! k = Some p then None else locks b ! k))"

lemma released_release: "own_locks_only p (locks b) (locks b1) \<Longrightarrow> released p b (release p b1)"
  by (auto simp: released_def release_locks) (simp add: release_def own_locks_only_def)

lemma released_back: "own_locks_only p (locks b) (locks b1) \<Longrightarrow> released p b1 b' \<Longrightarrow> released p b b'"
  by (auto simp: released_def own_locks_only_def)

text \<open>The turn breaks off at one of the clients: those before it have been served.\<close>

definition broken_off :: "nat list \<Rightarrow> (nat \<Rightarrow> arrival option) \<Rightarrow> (nat \<Rightarrow> bool) \<Rightarrow> server \<Rightarrow> board \<Rightarrow> string \<Rightarrow> board \<Rightarrow> bool" where
  "broken_off js rd sends sv b e b' \<longleftrightarrow> (\<exists>xs i ys sv1 b1. js = xs @ i # ys \<and>
     serve_ready xs (received rd) sv b = Some (sv1, b1) \<and> fails_at e rd sends i sv1 b1 \<and> posts b' = posts b1)"

lemma broken_here:
  "fails_at e rd sends i sv b \<Longrightarrow> posts b' = posts b \<Longrightarrow> broken_off (i # js) rd sends sv b e b'"
  unfolding broken_off_def by (metis append_Nil serve_ready.simps(1))

lemma broken_later:
  "broken_off js rd sends sv1 b1 e b' \<Longrightarrow>
   (\<And>xs. serve_ready (i # xs) (received rd) sv b = serve_ready xs (received rd) sv1 b1) \<Longrightarrow>
   broken_off (i # js) rd sends sv b e b'"
  unfolding broken_off_def by (metis append_Cons)

lemma serve_ready_io_split:
  "serve_ready_io sends js rd sv b = Some x \<Longrightarrow> server_ok sv \<Longrightarrow> board_ok b \<Longrightarrow>
    (case x of Inr r \<Rightarrow> serve_ready js (received rd) sv b = Some r
     | Inl (e, b') \<Rightarrow> released (pid sv) b b' \<and> broken_off js rd sends sv b e b')"
proof (induction sends js rd sv b rule: serve_ready_io.induct)
  case (2 sends i js rd sv b)
  let ?fd = "requestP sv ! i"
  have isset: "FD_ISSET ?fd (received rd) \<longleftrightarrow> 0 \<le> ?fd \<and> rd (nat ?fd) \<noteq> None"
    by (simp add: FD_ISSET_def received_def)
  show ?case
  proof (cases "?fd \<noteq> int (listen_fd sv) \<and> 0 \<le> ?fd \<and> rd (nat ?fd) \<noteq> None")
    case False
    with "2.prems"(1) have rest: "serve_ready_io sends js rd sv b = Some x" by (auto simp: Let_def split: if_splits)
    have step: "serve_ready (i # xs) (received rd) sv b = serve_ready xs (received rd) sv b" for xs
      using False isset by (auto simp: Let_def)
    show ?thesis
      using "2.IH"(2) [OF refl False rest "2.prems"(2,3)]
      by (auto simp: step simp del: serve_ready.simps split: sum.splits intro: broken_later [OF _ step])
  next
    case True
    then obtain a where a: "rd (nat ?fd) = Some a" by auto
    show ?thesis
    proof (cases "a = Recv_error")
      case err: True
      with "2.prems"(1) True a have "x = Inl (''Error receiving message from client'', release (pid sv) b)"
        by (simp add: Let_def server_recv_def)
      moreover have "posts (release (pid sv) b) = posts b" by (simp add: release_def)
      ultimately show ?thesis using True a err released_release [OF own_locks_only_refl, of "pid sv" b]
        by (auto simp: fails_at_def Let_def intro: broken_here)
    next
      case False
      with "2.prems"(1) True a obtain c sv1 b1 r where c: "receiveM (arrived a) = Some c"
        and h: "handle (nat ?fd) c sv b = Some (sv1, b1, r)"
        and rest: "(if r \<noteq> None \<and> \<not> sends (nat ?fd) then Some (Inl (''Error sending message to client'', release (pid sv1) b1))
           else serve_ready_io sends js rd sv1 b1) = Some x"
        by (auto simp: Let_def server_recv_def bind_eq_Some_conv)
      have get: "server_recv (the (rd (nat ?fd))) = Some (Inr c)" using a c False by (simp add: server_recv_def)
      note ok = handle_ok [OF "2.prems"(2,3) h] and lk = handle_locks [OF "2.prems"(2,3) h]
      have step: "serve_ready (i # xs) (received rd) sv b = serve_ready xs (received rd) sv1 b1" for xs
        using True a c h isset by (simp add: Let_def received_def)
      show ?thesis
      proof (cases "r \<noteq> None \<and> \<not> sends (nat ?fd)")
        case no: True
        with rest have "x = Inl (''Error sending message to client'', release (pid sv) b1)" using lk by simp
        moreover have "posts (release (pid sv) b1) = posts b" using lk no by simp
        moreover have "fails_at ''Error sending message to client'' rd sends i sv b"
          using True a False no h c by (auto simp: fails_at_def Let_def receiveM_Some)
        ultimately show ?thesis using released_release [of "pid sv" b b1] lk by (auto intro: broken_here)
      next
        case go: False
        with rest have "serve_ready_io sends js rd sv1 b1 = Some x" by (simp split: if_splits)
        from "2.IH"(1) [OF refl True get refl h refl refl go this] ok lk released_back [of "pid sv" b b1]
        show ?thesis
          by (auto simp: step simp del: serve_ready.simps split: sum.splits intro: broken_later [OF _ step])
      qed
    qed
  qed
qed auto

text \<open>A turn that comes to its end had no failure.\<close>

lemma serve_ready_io_append:
  "serve_ready_io sends (is @ js) rd sv b = Option.bind (serve_ready_io sends is rd sv b)
     (\<lambda>x. case x of Inl e \<Rightarrow> Some (Inl e) | Inr (sv, b) \<Rightarrow> serve_ready_io sends js rd sv b)"
proof (induction sends "is" rd sv b rule: serve_ready_io.induct)
  case (2 sends i "is" rd sv b)
  let ?fd = "requestP sv ! i"
  show ?case
  proof (cases "?fd \<noteq> int (listen_fd sv) \<and> 0 \<le> ?fd \<and> rd (nat ?fd) \<noteq> None")
    case False
    then have "serve_ready_io sends (i # ks) rd sv b = serve_ready_io sends ks rd sv b" for ks
      by (auto simp: Let_def)
    with "2.IH"(2) [OF refl False] show ?thesis by (simp del: serve_ready_io.simps)
  next
    case True
    note IH = "2.IH"(1) [OF refl True]
    show ?thesis
    proof (cases "server_recv (the (rd (nat ?fd)))")
      case (Some c)
      show ?thesis
      proof (cases c)
        case (Inr m)
        note IH = IH [OF Some Inr]
        show ?thesis
        proof (cases "handle (nat ?fd) m sv b")
          case h: (Some y)
          obtain sv1 b1 r where y: "y = (sv1, b1, r)" by (cases y)
          show ?thesis
            using IH [OF h y [symmetric] refl] True Some Inr h y by (simp add: Let_def)
        qed (use True Some Inr in \<open>simp add: Let_def\<close>)
      qed (use True Some in \<open>simp add: Let_def\<close>)
    qed (use True in \<open>simp add: Let_def\<close>)
  qed
qed simp

lemma serve_ready_io_whole:
  assumes io: "serve_ready_io sends js rd sv b = Some (Inr r)" and "server_ok sv" and "board_ok b"
  shows "\<not> broken_off js rd sends sv b e b'"
proof
  assume "broken_off js rd sends sv b e b'"
  then obtain xs i ys sv1 b1 where js: "js = xs @ i # ys" and xs: "serve_ready xs (received rd) sv b = Some (sv1, b1)"
    and f: "fails_at e rd sends i sv1 b1" by (auto simp: broken_off_def)
  from io [unfolded js serve_ready_io_append] obtain y where y: "serve_ready_io sends xs rd sv b = Some y"
    "(case y of Inl e \<Rightarrow> Some (Inl e) | Inr (sv, b) \<Rightarrow> serve_ready_io sends (i # ys) rd sv b) = Some (Inr r)"
    unfolding bind_eq_Some_conv by blast
  then obtain sv2 b2 where x: "serve_ready_io sends xs rd sv b = Some (Inr (sv2, b2))"
    and rest: "serve_ready_io sends (i # ys) rd sv2 b2 = Some (Inr r)"
    by (cases y) (auto simp del: serve_ready_io.simps)
  from serve_ready_io_split [OF x assms(2,3)] xs have "sv2 = sv1" "b2 = b1" by simp_all
  with rest f show False
    by (auto simp: fails_at_def Let_def server_recv_def bind_eq_Some_conv receiveM_Some split: if_splits)
qed

section \<open>The client\<close>

text \<open>
  A word from the input, with whether a message it leads to can be sent, or a return of \<open>recvfrom\<close>. A
  failing transfer ends the client with the text on the left.
\<close>

datatype client_event = Word string bool | Reply arrival

fun client_io :: "client_event \<Rightarrow> client_pc \<Rightarrow> (string + string option \<times> string \<times> client_pc) option" where
  "client_io (Word w ok) pc = do {
     (m, t, pc) \<leftarrow> client_word w pc;
     if m \<noteq> None \<and> \<not> ok then Some (Inl ''Error sending message to server'') else Some (Inr (m, t, pc)) }"
| "client_io (Reply a) pc =
     (if pc \<notin> {Cl_Welcome, Cl_WaitPost, Cl_WaitPull} then None
      else if a = Recv_error then Some (Inl ''Error receiving message from server'')
      else do {
        response \<leftarrow> cl_receiveM (arrived a);
        (t, pc) \<leftarrow> client_reply response pc;
        Some (Inr (None, t, pc)) })"

fun client_run_io :: "client_event list \<Rightarrow> string list \<Rightarrow> string \<Rightarrow> client_pc \<Rightarrow> (string + string list \<times> string \<times> client_pc) option" where
  "client_run_io [] sent out pc = Some (Inr (sent, out, pc))"
| "client_run_io (e # es) sent out pc = do {
     r \<leftarrow> client_io e pc;
     (case r of Inl msg \<Rightarrow> Some (Inl msg)
      | Inr (m, t, pc) \<Rightarrow> client_run_io es (case m of None \<Rightarrow> sent | Some x \<Rightarrow> sent @ [x]) (out @ t) pc) }"

section \<open>The client and the server together\<close>

text \<open>
  A session of \<open>Board_Client\<close> steps from word to word. It is a run of the client machine and a run of a
  server, one given the words and the replies, the other the messages sent.
\<close>

fun words_in :: "client_event list \<Rightarrow> string list" where
  "words_in [] = []"
| "words_in (Word w ok # es) = w # words_in es"
| "words_in (Reply a # es) = words_in es"

fun replies_in :: "client_event list \<Rightarrow> arrival list" where
  "replies_in [] = []"
| "replies_in (Word w ok # es) = replies_in es"
| "replies_in (Reply a # es) = a # replies_in es"

fun all_sent :: "client_event list \<Rightarrow> bool" where
  "all_sent [] = True"
| "all_sent (Word w ok # es) = (ok \<and> all_sent es)"
| "all_sent (Reply a # es) = all_sent es"

fun given :: "string option list \<Rightarrow> arrival list" where
  "given [] = []"
| "given (None # rs) = given rs"
| "given (Some r # rs) = Bytes r # given rs"

lemma events_append:
  "words_in (es @ es') = words_in es @ words_in es'" "replies_in (es @ es') = replies_in es @ replies_in es'"
  "all_sent (es @ es') = (all_sent es \<and> all_sent es')"
  by (induction es rule: words_in.induct) auto

lemma given_append: "given (rs @ rs') = given rs @ given rs'"
  by (induction rs rule: given.induct) auto

lemma client_run_io_append:
  "client_run_io (es @ es') sent out pc = Option.bind (client_run_io es sent out pc)
     (\<lambda>x. case x of Inl e \<Rightarrow> Some (Inl e) | Inr (sent, out, pc) \<Rightarrow> client_run_io es' sent out pc)"
  by (induction es arbitrary: sent out pc) (auto split: bind_split sum.split)

lemma servers_run_append:
  "servers_run (es @ es') s = Option.bind (servers_run es s)
     (\<lambda>(rs, s). map_option (\<lambda>(rs', s). (rs @ rs', s)) (servers_run es' s))"
proof (induction es arbitrary: s)
  case Nil
  show ?case by (cases "servers_run es' s") auto
qed (auto split: bind_split)

definition splits_into :: "nat \<Rightarrow> session \<Rightarrow> string list \<Rightarrow> session \<Rightarrow> client_event list \<Rightarrow> string list \<Rightarrow> string option list \<Rightarrow> bool" where
  "splits_into fd s ws s' es sent rs \<longleftrightarrow> (case (s, s') of ((pc, sv, b, out), (pc', sv', b', out')) \<Rightarrow>
     words_in es = ws \<and> all_sent es \<and> replies_in es = given rs \<and>
     (\<forall>acc. client_run_io es acc out pc = Some (Inr (acc @ sent, out', pc'))) \<and>
     servers_run (map (\<lambda>m. (0, Message fd m)) sent) ([sv], b) = Some (rs, [sv'], b'))"

lemma session_word_splits:
  assumes "session_word fd w s = Some s'"
  shows "\<exists>es sent rs. splits_into fd s [w] s' es sent rs"
proof -
  obtain pc sv b out pc' sv' b' out' where s: "s = (pc, sv, b, out)" "s' = (pc', sv', b', out')"
    by (cases s; cases s') auto
  from assms obtain m t pc1 where w: "client_word w pc = Some (m, t, pc1)"
    and rest: "(case m of None \<Rightarrow> Some (pc1, sv, b, out @ t)
      | Some msg \<Rightarrow> do {
          command \<leftarrow> receiveM msg;
          (sv, b, r) \<leftarrow> handle fd command sv b;
          (case r of None \<Rightarrow> Some (pc1, sv, b, out @ t)
           | Some reply \<Rightarrow> do {
               response \<leftarrow> cl_receiveM reply;
               (t', pc) \<leftarrow> client_reply response pc1;
               Some (pc, sv, b, (out @ t) @ t') }) }) = Some s'"
    by (auto simp: s bind_eq_Some_conv simp del: client_word.simps)
  show ?thesis
  proof (cases m)
    case None
    with w rest have "splits_into fd s [w] s' [Word w True] [] []" by (simp add: splits_into_def s del: client_word.simps)
    then show ?thesis by blast
  next
    case (Some msg)
    with rest obtain c sv1 b1 r where h: "receiveM msg = Some c" "handle fd c sv b = Some (sv1, b1, r)"
      by (auto simp: bind_eq_Some_conv)
    show ?thesis
    proof (cases r)
      case None
      with w rest Some h have "splits_into fd s [w] s' [Word w True] [msg] [None]"
        by (simp add: splits_into_def s del: client_word.simps)
      then show ?thesis by blast
    next
      case r: (Some reply)
      with rest Some h obtain t' where "cl_receiveM reply = Some reply" "client_reply reply pc1 = Some (t', pc')"
        "out' = (out @ t) @ t'" "sv' = sv1" "b' = b1"
        by (auto simp: s bind_eq_Some_conv cl_receiveM_Some)
      moreover from this(2) have "pc1 \<in> {Cl_Welcome, Cl_WaitPost, Cl_WaitPull}" by (cases pc1) auto
      ultimately have "splits_into fd s [w] s' [Word w True, Reply (Bytes reply)] [msg] [Some reply]"
        using w Some r h by (simp add: splits_into_def s del: client_word.simps)
      then show ?thesis by blast
    qed
  qed
qed

lemma splits_into_append:
  assumes "splits_into fd s ws t es sent rs" and "splits_into fd t ws' u es' sent' rs'"
  shows "splits_into fd s (ws @ ws') u (es @ es') (sent @ sent') (rs @ rs')"
  using assms
  by (cases s; cases t; cases u)
    (simp add: splits_into_def events_append given_append client_run_io_append servers_run_append)

lemma session_splits: "session_words fd ws s = Some s' \<Longrightarrow> \<exists>es sent rs. splits_into fd s ws s' es sent rs"
proof (induction ws arbitrary: s)
  case Nil
  then have "splits_into fd s [] s' [] [] []" by (cases s) (auto simp: splits_into_def)
  then show ?case by blast
next
  case (Cons w ws)
  then obtain t where t: "session_word fd w s = Some t" "session_words fd ws t = Some s'"
    by (auto simp: bind_eq_Some_conv)
  obtain es sent rs es' sent' rs' where "splits_into fd s [w] t es sent rs" "splits_into fd t ws s' es' sent' rs'"
    using session_word_splits [OF t(1)] Cons.IH [OF t(2)] by blast
  from splits_into_append [OF this] show ?case by auto
qed

end
