(* ===== verification/Board_Props.thy ===== *)
theory Board_Props
  imports Board_Net Board_Fail
begin

text \<open>
  The properties of the bulletin board, with a board of empty records as the witness state, and two
  servers with such a board.
\<close>

section \<open>Sequences of messages\<close>

text \<open>Messages of clients, named by their descriptors, to one server in the order it reads them.\<close>

fun serve :: "(nat \<times> string) list \<Rightarrow> server \<times> board \<Rightarrow> (server \<times> board) option" where
  "serve [] s = Some s"
| "serve ((fd, m) # ms) (sv, b) = do {
     command \<leftarrow> receiveM m;
     (sv, b, r) \<leftarrow> handle fd command sv b;
     serve ms (sv, b) }"

lemma serve_snoc:
  "serve (xs @ [(fd, m)]) s = do {
     (sv, b) \<leftarrow> serve xs s;
     command \<leftarrow> receiveM m;
     (sv, b, r) \<leftarrow> handle fd command sv b;
     Some (sv, b) }"
proof (induction xs arbitrary: s)
  case Nil
  show ?case by (cases s) simp
next
  case (Cons x xs)
  show ?case by (cases s; cases x) (simp add: Cons.IH case_prod_unfold)
qed

definition empty_board :: board where
  "empty_board = \<lparr>posts = replicate RECORD_NUM \<lparr>From = [], Content = []\<rparr>, locks = replicate RECORD_NUM None\<rparr>"

definition server0 :: server where "server0 = server_init 0 3 64"

lemma empty_board_ok: "board_ok empty_board"
  by (auto simp: board_ok_def empty_board_def FROM_LEN_def CONTENT_LEN_def)

lemma server0_ok: "server_ok server0"
  by (simp add: server0_def server_init_ok)

lemma serve_ok: "serve ms (sv, b) = Some (sv', b') \<Longrightarrow> server_ok sv \<Longrightarrow> board_ok b \<Longrightarrow> server_ok sv' \<and> board_ok b'"
proof (induction ms arbitrary: sv b)
  case (Cons a ms)
  obtain fd m where a: "a = (fd, m)" by (cases a)
  with Cons.prems(1) obtain sv1 b1 r where h: "handle fd m sv b = Some (sv1, b1, r)"
    "serve ms (sv1, b1) = Some (sv', b')" by (auto simp: bind_eq_Some_conv receiveM_Some)
  from handle_ok [OF Cons.prems(2,3) h(1)] Cons.IH [OF h(2)] show ?case by blast
qed simp

section \<open>The length of a reply\<close>

lemma display_length: "re \<in> set (posts b) \<Longrightarrow> board_ok b \<Longrightarrow> length (display re) \<le> 40"
  by (auto simp: display_def board_ok_def FROM_LEN_def CONTENT_LEN_def newline_def dest!: bspec)

lemma shown_length:
  assumes "board_ok b" and "\<And>k. k \<in> set ks \<Longrightarrow> k < RECORD_NUM"
  shows "length (shown sv b ks) \<le> 40 * length ks"
  using assms(2)
proof (induction ks)
  case (Cons k ks)
  have "posts b ! k \<in> set (posts b)" using Cons.prems assms(1) by (simp add: board_ok_def)
  from display_length [OF this assms(1)] Cons show ?case by (auto simp: shown_def)
qed (simp add: shown_def)

lemma pull_text_length:
  assumes "board_ok b"
  shows "length (rule_line @ shown sv b [0..<RECORD_NUM] @ rule_line) \<le> 462"
  using shown_length [OF assms, of "[0..<RECORD_NUM]" sv] by (simp add: rule_line_def newline_def RECORD_NUM_def)

lemma sendM_short: "length s < MAX_MESSAGE_LEN \<Longrightarrow> sendM s = s"
  by (simp add: sendM_def)

lemma do_pull_reply:
  assumes "board_ok b"
  shows "do_pull sv b = (warn (int (length (filter (\<lambda>k. \<not> avail sv b k) [0..<RECORD_NUM]))) sv,
     b\<lparr>locks := looked sv [0..<RECORD_NUM] (locks b)\<rparr>, rule_line @ shown sv b [0..<RECORD_NUM] @ rule_line)"
proof -
  have "sendM (rule_line @ shown sv b [0..<RECORD_NUM] @ rule_line) = rule_line @ shown sv b [0..<RECORD_NUM] @ rule_line"
    using pull_text_length [OF assms, of sv] by (intro sendM_short) (simp add: MAX_MESSAGE_LEN_def)
  then show ?thesis using do_pull_spec [of b sv] assms by (simp add: board_ok_def)
qed

section \<open>One post of one client\<close>

lemma post_then_submit:
  assumes sv: "server_ok sv" and b: "board_ok b" and fd: "fd < 1024"
    and m: "find (avail sv b) (slot_order sv) = Some m"
    and f: "sendable FROM_LEN f" and t: "sendable CONTENT_LEN t"
  shows "\<exists>sv1 b1 sv2 b2. do_post fd sv b = Some (sv1, b1, ''1'') \<and>
    do_submit fd (''[SP]'' @ f @ ''+'' @ t) sv1 b1 = Some (sv2, b2) \<and> server_ok sv2 \<and> board_ok b2 \<and>
    posts b2 = (posts b)[m := \<lparr>From = f, Content = t\<rparr>] \<and> last_post sv2 = int m \<and>
    (\<forall>k < RECORD_NUM. avail sv b k \<longrightarrow> avail sv2 b2 k)"
proof -
  let ?sv1 = "slot_taken fd m (wrap_last sv)"
  let ?b1 = "b\<lparr>locks := flock.lock_all (pid sv) (slot_order sv) (locks b)\<rparr>"
  have lt: "m < RECORD_NUM" using find_mem [OF m] slot_order_perm(2) [OF sv] by blast
  have post: "do_post fd sv b = Some (?sv1, ?b1, ''1'')" using do_post_spec [OF sv b, of fd] m fd by simp
  have ok1: "server_ok ?sv1" "board_ok ?b1" using do_post_ok [OF sv b post] by auto
  have slot: "LAST ?sv1 ! fd = Some m" "last_post ?sv1 = int m"
    using fd sv by (simp_all add: slot_taken_def wrap_last_def server_ok_def)
  obtain sv2 b2 where sub: "do_submit fd (''[SP]'' @ f @ ''+'' @ t) ?sv1 ?b1 = Some (sv2, b2)"
    "sv2 = ?sv1\<lparr>str1 := Some f, str2 := Some t, mylock := (mylock ?sv1)[m := 0], log := log ?sv1 @ [L_receive f]\<rparr>"
    "b2 = ?b1\<lparr>posts := (posts b)[m := \<lparr>From = f, Content = t\<rparr>], locks := F_SETLK_UN (pid sv) m (locks ?b1)\<rparr>"
    using do_submit_spec [OF f t fd slot(1) _ ok1(1), of ?b1] slot(2)
    by (auto simp: slot_taken_def wrap_last_def)
  have len: "m < length (locks b)" "m < length (mylock sv)" using lt sv b by (simp_all add: server_ok_def board_ok_def)
  have own: "locks ?b1 ! k = Some (pid sv)" if "k < RECORD_NUM" "avail sv b k" for k
    using flock.lock_all_owner [of "slot_order sv" "locks b" "pid sv" k] slot_order_perm(2) [OF sv] that b
    by (auto simp: board_ok_def avail_def)
  have "avail sv2 b2 k" if k: "k < RECORD_NUM" "avail sv b k" for k
    using own [OF k] k(2) len
    by (cases "k = m") (auto simp: avail_def sub F_SETLK_UN_def slot_taken_def wrap_last_def nth_upd)
  with post sub(1) do_submit_ok [OF ok1 sub(1)] slot(2) show ?thesis by (auto simp: sub(2,3))
qed

text \<open>The same by the words that the client reads.\<close>

lemma session_post:
  assumes "server_ok sv" and "board_ok b" and "fd < 1024" and "find (avail sv b) (slot_order sv) = Some m"
    and "sendable FROM_LEN f" and "sendable CONTENT_LEN t"
  shows "\<exists>sv1 b1 sv2 b2. session_word fd ''post'' (Cl_Command, sv, b, out) =
      Some (Cl_From, sv1, b1, out @ ''FROM: '') \<and>
    session_word fd f (Cl_From, sv1, b1, out1) = Some (Cl_Content f, sv1, b1, out1 @ ''CONTENT:'' @ newline) \<and>
    session_word fd t (Cl_Content f, sv1, b1, out2) = Some (Cl_Command, sv2, b2, out2 @ prompt) \<and>
    server_ok sv2 \<and> board_ok b2 \<and> posts b2 = (posts b)[m := \<lparr>From = f, Content = t\<rparr>] \<and>
    last_post sv2 = int m \<and> (\<forall>k < RECORD_NUM. avail sv b k \<longrightarrow> avail sv2 b2 k)"
proof -
  obtain sv1 b1 sv2 b2 where p: "do_post fd sv b = Some (sv1, b1, ''1'')"
    and sub: "do_submit fd (''[SP]'' @ f @ ''+'' @ t) sv1 b1 = Some (sv2, b2)"
    and ok: "server_ok sv2" "board_ok b2" "posts b2 = (posts b)[m := \<lparr>From = f, Content = t\<rparr>]"
      "last_post sv2 = int m" "\<forall>k < RECORD_NUM. avail sv b k \<longrightarrow> avail sv2 b2 k"
    using post_then_submit [OF assms] by blast
  have short: "length f < 5" "length t < 20"
    using assms(5,6) by (simp_all add: sendable_def FROM_LEN_def CONTENT_LEN_def)
  have "strstr ''post'' ''[SP]'' = None" by (auto intro: no_tag)
  moreover have "strstr (''[SP]'' @ f @ ''+'' @ t) ''[SP]'' = Some 0" by (rule strstr_prefix)
  ultimately have h: "handle fd ''post'' sv b = Some (sv1, b1, Some ''1'')"
    "handle fd (''[SP]'' @ f @ ''+'' @ t) sv1 b1 = Some (sv2, b2, None)"
    using p sub by (simp_all add: handle_def del: strstr.simps)
  have c: "client_word ''post'' Cl_Command = Some (Some ''post'', [], Cl_WaitPost)"
    "client_word f Cl_From = Some (None, ''CONTENT:'' @ newline, Cl_Content f)"
    "client_word t (Cl_Content f) = Some (Some (''[SP]'' @ f @ ''+'' @ t), prompt, Cl_Command)"
    using short by (simp_all add: strcpy_def MAX_MESSAGE_LENGTH_def)
  show ?thesis
    using ok short
    by (intro exI [of _ sv1] exI [of _ b1] exI [of _ sv2] exI [of _ b2])
      (simp add: c h del: client_word.simps append_Cons append_Nil)
qed

lemma shown_mem:
  assumes "m \<in> set ks" and "avail sv b m"
  shows "\<exists>x y. shown sv b ks = x @ display (posts b ! m) @ y"
proof -
  from assms have "m \<in> set (filter (avail sv b) ks)" by simp
  then obtain xs ys where "filter (avail sv b) ks = xs @ m # ys" by (meson split_list)
  then show ?thesis by (auto simp: shown_def)
qed

section \<open>The properties\<close>

text \<open>C4: End to end, a client that enters \<open>post\<close>, a sender and a text, and then \<open>pull\<close>, sees its post
  on the board, whatever the board held: if some record is free for its server, the session runs to the
  command prompt, the chosen record holds the post, and the printed reply contains it.\<close>

theorem board_round_trip:
  assumes "server_ok sv" and "board_ok b" and "fd < 1024"
    and "find (avail sv b) (slot_order sv) = Some m"
    and "sendable FROM_LEN f" and "sendable CONTENT_LEN t"
  shows "\<exists>sv' b' x y. session_words fd [''post'', f, t, ''pull''] (Cl_Command, sv, b, []) =
      Some (Cl_Command, sv', b', ''FROM: '' @ ''CONTENT:'' @ newline @ prompt @
        (rule_line @ x @ display \<lparr>From = f, Content = t\<rparr> @ y @ rule_line) @ prompt) \<and>
    posts b' = (posts b)[m := \<lparr>From = f, Content = t\<rparr>]"
proof -
  obtain sv1 b1 sv2 b2 where w: "session_word fd ''post'' (Cl_Command, sv, b, []) = Some (Cl_From, sv1, b1, [] @ ''FROM: '')"
    "session_word fd f (Cl_From, sv1, b1, ''FROM: '') = Some (Cl_Content f, sv1, b1, ''FROM: '' @ ''CONTENT:'' @ newline)"
    "session_word fd t (Cl_Content f, sv1, b1, ''FROM: '' @ ''CONTENT:'' @ newline) =
       Some (Cl_Command, sv2, b2, (''FROM: '' @ ''CONTENT:'' @ newline) @ prompt)"
    and ok: "server_ok sv2" "board_ok b2" and posts: "posts b2 = (posts b)[m := \<lparr>From = f, Content = t\<rparr>]"
    and av: "\<forall>k < RECORD_NUM. avail sv b k \<longrightarrow> avail sv2 b2 k"
    using session_post [OF assms, of "[]" "''FROM: ''" "''FROM: '' @ ''CONTENT:'' @ newline"] by blast
  have m: "m < RECORD_NUM" "avail sv2 b2 m"
    using find_mem [OF assms(4)] slot_order_perm(2) [OF assms(1)] av by auto
  then have here: "posts b2 ! m = \<lparr>From = f, Content = t\<rparr>" using assms(2) by (simp add: posts board_ok_def)
  obtain x y where shown: "shown sv2 b2 [0..<RECORD_NUM] = x @ display \<lparr>From = f, Content = t\<rparr> @ y"
    using shown_mem [of m "[0..<RECORD_NUM]" sv2 b2] m here by auto
  have "session_word fd ''pull'' (Cl_Command, sv2, b2, out) =
      Some (Cl_Command, fst (do_pull sv2 b2), fst (snd (do_pull sv2 b2)), out @ snd (snd (do_pull sv2 b2)) @ prompt)" for out
    using pull_text_length [OF ok(2), of sv2] no_tag [of "''pull''"]
    by (simp add: strcpy_def handle_def do_pull_reply [OF ok(2)] del: strstr.simps)
  with w posts shown show ?thesis by (simp add: do_pull_reply [OF ok(2)] del: session_word.simps) blast
qed

lemma server0_first: "find (avail server0 empty_board) (slot_order server0) = Some 0"
  by (simp add: slot_order_def first_slot_def server0_def server_init_def avail_def empty_board_def
      RECORD_NUM_def upt_rec)

theorem board_round_trip_witness:
  "\<exists>sv' b' x y. session_words 4 [''post'', ''ann'', ''hi'', ''pull''] (Cl_Command, server0, empty_board, []) =
      Some (Cl_Command, sv', b', ''FROM: '' @ ''CONTENT:'' @ newline @ prompt @
        (rule_line @ x @ display \<lparr>From = ''ann'', Content = ''hi''\<rparr> @ y @ rule_line) @ prompt) \<and>
    posts b' ! 0 = \<lparr>From = ''ann'', Content = ''hi''\<rparr>"
proof -
  have "sendable FROM_LEN ''ann''" "sendable CONTENT_LEN ''hi''"
    by (simp_all add: sendable_def word_def FROM_LEN_def CONTENT_LEN_def)
  from board_round_trip [OF server0_ok empty_board_ok _ server0_first this, of 4] show ?thesis
    by (force simp: empty_board_def RECORD_NUM_def)
qed

text \<open>C8: \<open>post\<close> is a search: it reserves the first free record in cyclic order behind the last one it
  reserved and answers 1, and answers 0 and reserves nothing exactly if no record is free for this server.
  Only for a descriptor from 1024 on the choice has no place in the table \<open>LAST\<close>.\<close>

theorem post_finds_first_free:
  assumes "server_ok sv" and "board_ok b"
  shows "do_post fd sv b =
    (case find (avail sv b) (slot_order sv) of
       None \<Rightarrow> Some (wrap_last sv, b\<lparr>locks := flock.lock_all (pid sv) (slot_order sv) (locks b)\<rparr>, ''0'')
     | Some m \<Rightarrow> if fd < 1024 then Some (slot_taken fd m (wrap_last sv),
         b\<lparr>locks := flock.lock_all (pid sv) (slot_order sv) (locks b)\<rparr>, ''1'') else None)"
  by (rule do_post_spec [OF assms])

theorem post_finds_first_free_witness:
  "\<exists>sv b. do_post 4 server0 empty_board = Some (sv, b, ''1'') \<and> last_post sv = 0"
  using post_finds_first_free [OF server0_ok empty_board_ok, of 4] server0_first
  by (simp add: slot_taken_def)

text \<open>C12: \<open>pull\<close> shows exactly the posts of the records that are free for this server, in their order, without
  cutting the reply short, reports the number of the others, and changes no post.\<close>

theorem pull_shows_free_records:
  assumes "board_ok b"
  shows "do_pull sv b = (warn (int (length (filter (\<lambda>k. \<not> avail sv b k) [0..<RECORD_NUM]))) sv,
     b\<lparr>locks := looked sv [0..<RECORD_NUM] (locks b)\<rparr>,
     rule_line @ concat (map (\<lambda>k. display (posts b ! k)) (filter (avail sv b) [0..<RECORD_NUM])) @ rule_line)"
  using do_pull_reply [OF assms] by (simp add: shown_def)

theorem pull_shows_free_records_witness:
  "snd (snd (do_pull server0 empty_board)) = rule_line @ rule_line"
  using pull_shows_free_records [OF empty_board_ok, of server0]
  by (auto simp: empty_board_def RECORD_NUM_def display_def concat_eq_Nil_conv)

text \<open>C20: Whatever messages the clients send, the variables of the server and the board keep their shape:
  every reserved slot is one of the ten records, every stored string fits its field.\<close>

theorem board_invariant:
  assumes "serve ms (server_init p l n, b) = Some (sv', b')" and "board_ok b"
  shows "server_ok sv' \<and> board_ok b'"
  using serve_ok [OF assms(1) server_init_ok assms(2)] .

theorem board_invariant_witness:
  "\<exists>sv' b'. serve [(4, ''post''), (5, ''pull'')] (server0, empty_board) = Some (sv', b') \<and> board_ok b'"
proof -
  have tags: "strstr ''post'' ''[SP]'' = None" "strstr ''pull'' ''[SP]'' = None" by (auto intro: no_tag)
  obtain sv1 b1 r1 where 1: "handle 4 ''post'' server0 empty_board = Some (sv1, b1, r1)"
    using handle_defined [OF tags(1) server0_ok empty_board_ok, of 4] by auto
  obtain sv' b' r2 where 2: "handle 5 ''pull'' sv1 b1 = Some (sv', b', r2)"
    using handle_defined [OF tags(2) _ _, of sv1 b1 5] handle_ok [OF server0_ok empty_board_ok 1] by auto
  from 1 2 have s: "serve [(4, ''post''), (5, ''pull'')] (server0, empty_board) = Some (sv', b')" by simp
  from board_invariant [OF s [unfolded server0_def] empty_board_ok] s show ?thesis by blast
qed

text \<open>C21: The client never waits for a reply that the server does not send: after every word of input that
  the session survives it is at a prompt or has ended, whatever the state of the server.\<close>

theorem session_never_waits:
  assumes "session_words fd ws (Cl_Command, sv, b, out) = Some (pc, sv', b', out')"
  shows "pc \<noteq> Cl_WaitPost \<and> pc \<noteq> Cl_WaitPull \<and> pc \<noteq> Cl_Welcome"
proof -
  let ?ok = "\<lambda>pc. pc \<noteq> Cl_WaitPost \<and> pc \<noteq> Cl_WaitPull \<and> pc \<noteq> Cl_Welcome"
  have tags: "strstr ''post'' ''[SP]'' = None" "strstr ''pull'' ''[SP]'' = None" by (auto intro: no_tag)
  have one: "?ok pc'" if w: "session_word fd w (pc, sv, b, out) = Some (pc', sv', b', out')" "?ok pc"
    for w pc sv b out pc' sv' b' out'
  proof (cases pc)
    case Cl_Command
    with w tags show ?thesis
      by (auto simp: bind_eq_Some_conv strcpy_def handle_def split: if_splits option.splits prod.splits)
  next
    case (Cl_Content f)
    with w show ?thesis
      by (auto simp: bind_eq_Some_conv handle_def split: if_splits option.splits prod.splits)
  qed (use w in \<open>auto simp: bind_eq_Some_conv\<close>)
  have "session_words fd ws s = Some s' \<Longrightarrow> ?ok (fst s) \<Longrightarrow> ?ok (fst s')" for s s'
  proof (induction ws arbitrary: s)
    case (Cons w ws)
    then obtain t where t: "session_word fd w s = Some t" "session_words fd ws t = Some s'"
      by (auto simp: bind_eq_Some_conv)
    have "?ok (fst t)" using one t(1) Cons.prems(2) by (cases s; cases t) (metis fst_conv)
    with Cons.IH [OF t(2)] show ?case by blast
  qed simp
  from this [OF assms] show ?thesis by simp
qed

theorem session_never_waits_witness:
  "\<exists>pc sv' b' out'. session_words 4 [''pull''] (Cl_Command, server0, empty_board, []) = Some (pc, sv', b', out') \<and>
     pc \<noteq> Cl_WaitPull"
proof -
  have tag: "strstr ''pull'' ''[SP]'' = None" by (auto intro: no_tag)
  obtain sv1 b1 r where p: "do_pull server0 empty_board = (sv1, b1, r)" by (cases "do_pull server0 empty_board")
  have s: "session_words 4 [''pull''] (Cl_Command, server0, empty_board, []) = Some (Cl_Command, sv1, b1, r @ prompt)"
    using do_pull_reply [OF empty_board_ok, of server0] pull_text_length [OF empty_board_ok, of server0] p
    by (simp add: strcpy_def handle_def tag del: strstr.simps)
  from session_never_waits [OF s] s show ?thesis by blast
qed

text \<open>C27: After a \<open>post\<close> the server holds the file locks of every record that no other server held, not
  only of the one it reserved: if it was the only server with locks, every other server now answers 0
  to \<open>post\<close> and shows an empty board.\<close>

theorem post_locks_whole_board:
  assumes "server_ok sv" and "board_ok b" and "do_post fd sv b = Some (sv', b', r)"
    and "\<forall>k < RECORD_NUM. locks b ! k = None \<or> locks b ! k = Some (pid sv)"
    and "server_ok other" and "pid other \<noteq> pid sv"
  shows "(\<exists>other' b''. do_post fd' other b' = Some (other', b'', ''0'')) \<and> snd (snd (do_pull other b')) = rule_line @ rule_line"
proof -
  have b': "b' = b\<lparr>locks := flock.lock_all (pid sv) (slot_order sv) (locks b)\<rparr>"
    using do_post_spec [OF assms(1,2), of fd] assms(3) by (auto split: option.splits if_splits)
  have ok: "board_ok b'" using do_post_ok [OF assms(1-3)] by blast
  have all: "locks b' ! k = Some (pid sv)" if "k < RECORD_NUM" for k
    using flock.lock_all_owner [of "slot_order sv" "locks b" "pid sv" k] slot_order_perm(2) [OF assms(1)]
      assms(2,4) that unfolding b' by (auto simp: board_ok_def)
  then have none: "\<not> avail other b' k" if "k < RECORD_NUM" for k
    using that assms(6) by (simp add: avail_def)
  then have "find (avail other b') (slot_order other) = None"
    using slot_order_perm(2) [OF assms(5)] by (auto simp: find_None_iff)
  moreover have "shown other b' [0..<RECORD_NUM] = []"
    using none by (auto simp: shown_def filter_empty_conv)
  ultimately show ?thesis
    using do_post_spec [OF assms(5) ok, of fd'] do_pull_reply [OF ok, of other] by simp
qed

theorem post_locks_whole_board_witness:
  "\<exists>sv b sv' b'. do_post 4 server0 empty_board = Some (sv, b, ''1'') \<and>
     do_post 4 (server_init 1 3 64) b = Some (sv', b', ''0'')"
proof -
  obtain sv b where p: "do_post 4 server0 empty_board = Some (sv, b, ''1'')"
    using do_post_spec [OF server0_ok empty_board_ok, of 4] server0_first by simp
  have "pid server0 = 0" "pid (server_init 1 3 64) = 1" by (simp_all add: server0_def server_init_def)
  with post_locks_whole_board [OF server0_ok empty_board_ok p _ server_init_ok, of 1 3 64 4] p show ?thesis
    by (simp add: empty_board_def)
qed

text \<open>A new client gets the whole board in one message of at most 555 characters: the buffer of 2000
  characters suffices and nothing is cut off; the server watches its descriptor from then on.\<close>

theorem welcome_is_complete:
  assumes "board_ok b" and "welcomed fd sv b = Some (pc, sv', b', out)"
  shows "out = rule_line @ ''Welcome to CSIE Bulletin board'' @ newline @ rule_line @
      shown sv b [0..<RECORD_NUM] @ rule_line @ prompt \<and>
    length out \<le> 555 + length prompt \<and> pc = Cl_Command \<and> fd \<in> master sv' \<and> posts b' = posts b"
proof -
  let ?w = "rule_line @ ''Welcome to CSIE Bulletin board'' @ newline @ rule_line"
  let ?sv = "sv\<lparr>requestP := (requestP sv)[fd := int fd], master := insert fd (master sv)\<rparr>"
  have same: "shown ?sv b ks = shown sv b ks" for ks
    by (simp add: shown_def avail_def cong: filter_cong)
  have len: "length (shown sv b [0..<RECORD_NUM]) \<le> 400"
    using shown_length [OF assms(1), of "[0..<RECORD_NUM]" sv] by (simp add: RECORD_NUM_def)
  then have fits: "length (?w @ shown sv b [0..<RECORD_NUM] @ rule_line) \<le> 555"
    by (simp add: rule_line_def newline_def)
  then have "sendM (?w @ shown sv b [0..<RECORD_NUM] @ rule_line) = ?w @ shown sv b [0..<RECORD_NUM] @ rule_line"
    by (intro sendM_short) (simp add: MAX_MESSAGE_LEN_def)
  with assms(2) fits show_posts_spec [of "[0..<RECORD_NUM]" b ?sv ?w 0] assms(1) show ?thesis
    by (auto simp: welcomed_def new_connection_Some bind_eq_Some_conv Let_def same board_ok_def warn_def)
qed

theorem welcome_is_complete_witness:
  "\<exists>pc sv b out. welcomed 4 server0 empty_board = Some (pc, sv, b, out) \<and> 4 \<in> master sv"
proof -
  obtain pc sv b out where c: "welcomed 4 server0 empty_board = Some (pc, sv, b, out)"
    using welcomed_defined [of 4 server0 empty_board] by (auto simp: server0_def server_init_def)
  from welcome_is_complete [OF empty_board_ok c] c show ?thesis by blast
qed

text \<open>C32: A submission releases the record that was reserved last, not the one of its client: when another
  client reserved a record in between, the post is written but its record stays reserved, so it is
  not shown and cannot be reserved again.\<close>

theorem late_submission_stays_hidden:
  assumes "server_ok sv" and "board_ok b" and "fd < 1024"
    and "LAST sv ! fd = Some m" and "mylock sv ! m \<noteq> 0"
    and "0 \<le> last_post sv" and "last_post sv \<noteq> int m"
    and "sendable FROM_LEN f" and "sendable CONTENT_LEN t"
  shows "\<exists>sv' b'. do_submit fd (''[SP]'' @ f @ ''+'' @ t) sv b = Some (sv', b') \<and>
    posts b' ! m = \<lparr>From = f, Content = t\<rparr> \<and> \<not> avail sv' b' m"
proof -
  have "m < length (posts b)" using assms(1-4) by (auto simp: server_ok_def board_ok_def)
  moreover have "nat (last_post sv) \<noteq> m" using assms(6,7) by auto
  ultimately show ?thesis
    using do_submit_spec [OF assms(8,9,3,4,6,1), of b] assms(5) by (simp add: avail_def nth_upd)
qed

text \<open>The clients with the descriptors from 4 on ask for a record one after the other.\<close>

lemma post_handle:
  "do_post fd sv b = Some (sv', b', r) \<Longrightarrow> handle fd ''post'' sv b = Some (sv', b', Some r)"
  using no_tag [of "''post''"] by (simp add: handle_def)

lemma posts_fill_board:
  "k \<le> RECORD_NUM \<Longrightarrow> \<exists>sv b. serve (map (\<lambda>i. (i, ''post'')) [4..<4 + k]) (server0, empty_board) = Some (sv, b) \<and>
     server_ok sv \<and> board_ok b \<and> last_post sv = int k - 1 \<and> pid sv = 0 \<and>
     (\<forall>j < RECORD_NUM. mylock sv ! j = (if j < k then 1 else 0) \<and> (locks b ! j = None \<or> locks b ! j = Some 0)) \<and>
     (\<forall>j < k. LAST sv ! (4 + j) = Some j)"
proof (induction k)
  case 0
  then show ?case
    using server0_ok empty_board_ok by (simp add: server0_def server_init_def empty_board_def)
next
  case (Suc k)
  then obtain sv b where s: "serve (map (\<lambda>i. (i, ''post'')) [4..<4 + k]) (server0, empty_board) = Some (sv, b)"
    and ok: "server_ok sv" "board_ok b" and last: "last_post sv = int k - 1" "pid sv = 0"
    and loc: "\<forall>j < RECORD_NUM. mylock sv ! j = (if j < k then 1 else 0) \<and> (locks b ! j = None \<or> locks b ! j = Some 0)"
    and LAST: "\<forall>j < k. LAST sv ! (4 + j) = Some j"
    by auto
  have k: "k < RECORD_NUM" "4 + k < 1024" using Suc.prems by (simp_all add: RECORD_NUM_def)
  have "avail sv b k" using loc last(2) k(1) by (simp add: avail_def)
  moreover have "slot_order sv = k # [Suc k..<RECORD_NUM] @ [0..<k]"
    using last k(1) by (simp add: slot_order_def first_slot_def upt_conv_Cons)
  ultimately have f: "find (avail sv b) (slot_order sv) = Some k" by simp
  let ?b = "b\<lparr>locks := flock.lock_all (pid sv) (slot_order sv) (locks b)\<rparr>"
  have w: "wrap_last sv = sv" using last k(1) by (simp add: wrap_last_def)
  have p: "do_post (4 + k) sv b = Some (slot_taken (4 + k) k sv, ?b, ''1'')"
    using do_post_spec [OF ok, of "4 + k"] f k(2) by (simp add: w)
  have "[4..<4 + Suc k] = [4..<4 + k] @ [4 + k]" by (metis add_Suc_right le_add1 upt_Suc)
  then have s': "serve (map (\<lambda>i. (i, ''post'')) [4..<4 + Suc k]) (server0, empty_board) = Some (slot_taken (4 + k) k sv, ?b)"
    using s post_handle [OF p] by (simp add: serve_snoc del: upt_Suc)
  have own: "locks ?b ! j = None \<or> locks ?b ! j = Some 0" if "j < RECORD_NUM" for j
    using flock.lock_all_owner [of "slot_order sv" "locks b" "pid sv" j] slot_order_perm(2) [OF ok(1)]
      ok(2) loc last(2) that by (auto simp: board_ok_def)
  have "\<forall>j < RECORD_NUM. mylock (slot_taken (4 + k) k sv) ! j = (if j < Suc k then 1 else 0)"
    using loc ok(1) by (auto simp: slot_taken_def nth_upd server_ok_def less_Suc_eq)
  moreover have "\<forall>j < Suc k. LAST (slot_taken (4 + k) k sv) ! (4 + j) = Some j"
    using LAST ok(1) k(2) by (auto simp: slot_taken_def nth_upd server_ok_def less_Suc_eq)
  ultimately show ?case
    using s' own do_post_ok [OF ok p] last(2) by (auto simp: slot_taken_def)
qed

theorem late_submission_stays_hidden_witness:
  "\<exists>sv b sv' b'. serve (map (\<lambda>i. (i, ''post'')) [4..<4 + 2]) (server0, empty_board) = Some (sv, b) \<and>
     do_submit 4 (''[SP]'' @ ''ann'' @ ''+'' @ ''hi'') sv b = Some (sv', b') \<and>
     posts b' ! 0 = \<lparr>From = ''ann'', Content = ''hi''\<rparr> \<and> \<not> avail sv' b' 0"
proof -
  obtain sv b where s: "serve (map (\<lambda>i. (i, ''post'')) [4..<4 + 2]) (server0, empty_board) = Some (sv, b)"
    "server_ok sv" "board_ok b" "last_post sv = 1" "mylock sv ! 0 = 1" "LAST sv ! 4 = Some 0"
    using posts_fill_board [of 2] by (force simp: RECORD_NUM_def)
  have "sendable FROM_LEN ''ann''" "sendable CONTENT_LEN ''hi''"
    by (simp_all add: sendable_def word_def FROM_LEN_def CONTENT_LEN_def)
  from late_submission_stays_hidden [OF s(2,3) _ s(6) _ _ _ this] s show ?thesis by auto
qed

text \<open>C34: When the last record that was reserved is the tenth and no record is free, a refused \<open>post\<close> leaves
  \<open>last\<close> at -1, and the next submission of any client writes to \<open>mylock[-1]\<close>, which is undefined.\<close>

theorem refused_post_breaks_submission:
  assumes "server_ok sv" and "board_ok b" and "last_post sv = int RECORD_NUM - 1"
    and "do_post fd sv b = Some (sv', b', ''0'')" and "strstr c ''[SP]'' \<noteq> None"
  shows "handle fd' c sv' b' = None"
proof -
  have "sv' = wrap_last sv"
    using do_post_spec [OF assms(1,2), of fd] assms(4) by (auto split: option.splits if_splits)
  then have "last_post sv' = -1" using assms(3) by (simp add: wrap_last_def)
  then have "arr_set (mylock sv') (last_post (take_tokens n ps sv')) 0 = None" for n ps
    by (simp add: take_tokens_same arr_set_def)
  then show ?thesis using assms(5) by (auto simp: handle_def do_submit_def take_tokens_same bind_eq_None_conv)
qed

theorem refused_post_breaks_submission_witness:
  "\<exists>sv b sv' b'. serve (map (\<lambda>i. (i, ''post'')) [4..<4 + 10]) (server0, empty_board) = Some (sv, b) \<and>
     do_post 14 sv b = Some (sv', b', ''0'') \<and> handle 4 ''[SP]ann+hi'' sv' b' = None"
proof -
  obtain sv b where s: "serve (map (\<lambda>i. (i, ''post'')) [4..<4 + 10]) (server0, empty_board) = Some (sv, b)"
    "server_ok sv" "board_ok b" "last_post sv = 9" "\<forall>j < RECORD_NUM. mylock sv ! j = 1"
    using posts_fill_board [of 10] by (force simp: RECORD_NUM_def)
  have "find (avail sv b) (slot_order sv) = None"
    using s(5) slot_order_perm(2) [OF s(2)] by (auto simp: find_None_iff avail_def)
  then have p: "do_post 14 sv b = Some (wrap_last sv, b\<lparr>locks := flock.lock_all (pid sv) (slot_order sv) (locks b)\<rparr>, ''0'')"
    using do_post_spec [OF s(2,3), of 14] by simp
  have "strstr ''[SP]ann+hi'' ''[SP]'' \<noteq> None" by simp
  from refused_post_breaks_submission [OF s(2,3) _ p this, of 4] s(1,4) p show ?thesis
    by (auto simp: RECORD_NUM_def)
qed

text \<open>The search for the next tag goes on behind the character that moved up, so that of two tags in a row
  the second stays, although the loop is there to remove all of them.\<close>

theorem second_tag_stays:
  assumes "CHR ''['' \<notin> set s"
  shows "removeSubstr (''[SP][SP]'' @ s) ''[SP]'' = ''[SP]'' @ s"
proof -
  have "strstr (''[SP]'' @ (''[SP]'' @ s)) ''[SP]'' = Some 0" by (rule strstr_prefix)
  moreover have "strstr (''SP]'' @ s) ''[SP]'' = None" using assms by (intro no_tag) auto
  ultimately show ?thesis
    by (simp add: removeSubstr_def remove_from.simps [of _ "[]"] remove_from_None del: strstr.simps)
qed

theorem second_tag_stays_witness: "removeSubstr ''[SP][SP]ann+hi'' ''[SP]'' = ''[SP]ann+hi''"
  using second_tag_stays [of "''ann+hi''"] by simp

text \<open>C33: By the letter of C nearly every submission is undefined: to cut off the tag, \<open>strcat\<close> moves the rest of the
  string over itself, and the bytes overlap unless sender, text and separator are together at most three
  characters. Where it is defined, and wherever \<open>strcat\<close> copies from the front, the rest of the message is what
  remains.\<close>

theorem submission_copies_over_itself:
  assumes "sendable FROM_LEN f" and "sendable CONTENT_LEN t"
  shows "removeSubstr_std (''[SP]'' @ f @ ''+'' @ t) ''[SP]'' =
      (if length f + length t < 3 then Some (f @ ''+'' @ t) else None) \<and>
    removeSubstr (''[SP]'' @ f @ ''+'' @ t) ''[SP]'' = f @ ''+'' @ t \<and>
    (\<forall>str sub s. removeSubstr_std str sub = Some s \<longrightarrow> removeSubstr str sub = s)"
proof -
  let ?r = "f @ ''+'' @ t"
  have none: "strstr ?r ''[SP]'' = None" using assms by (intro no_tag) (auto simp: sendable_def)
  have "f \<noteq> []" using assms(1) by (auto simp: sendable_def word_def)
  then obtain c r where r: "?r = c # r" by (cases f) auto
  have "CHR ''['' \<notin> set r" using assms r by (cases f) (auto simp: sendable_def)
  then have "strstr r ''[SP]'' = None" by (rule no_tag)
  then have "removeSubstr_std (''[SP]'' @ c # r) ''[SP]'' = (if length r < 3 then Some (c # r) else None)"
    using strstr_prefix [of "''[SP]''" "c # r"]
    by (simp add: removeSubstr_std_def remove_std.simps [of _ "[]"] remove_std.simps [of _ "[c]"] del: strstr.simps)
  moreover have "length r = length f + length t" using arg_cong [OF r, of length] by simp
  moreover have "removeSubstr (''[SP]'' @ ?r) ''[SP]'' = ?r" by (rule remove_tag [OF none]) simp
  ultimately show ?thesis
    using remove_std_agrees unfolding r by (auto simp: removeSubstr_std_def removeSubstr_def)
qed

theorem submission_copies_over_itself_witness:
  "removeSubstr_std ''[SP]ann+hi'' ''[SP]'' = None \<and> removeSubstr_std ''[SP]a+b'' ''[SP]'' = Some ''a+b''"
proof -
  have "sendable FROM_LEN ''ann''" "sendable CONTENT_LEN ''hi''" "sendable FROM_LEN ''a''" "sendable CONTENT_LEN ''b''"
    by (simp_all add: sendable_def word_def FROM_LEN_def CONTENT_LEN_def)
  with submission_copies_over_itself [of "''ann''" "''hi''"] submission_copies_over_itself [of "''a''" "''b''"]
  show ?thesis by simp
qed

section \<open>A turn of the main loop\<close>

text \<open>Every request in use stands at the index of its descriptor.\<close>

definition requests_ok :: "server \<Rightarrow> bool" where
  "requests_ok sv \<longleftrightarrow> (\<forall>i < length (requestP sv). requestP sv ! i = -1 \<or> requestP sv ! i = int i)"

definition waiting :: "(nat \<Rightarrow> string option) \<Rightarrow> server \<Rightarrow> nat \<Rightarrow> bool" where
  "waiting rd sv i \<longleftrightarrow> requestP sv ! i = int i \<and> i \<noteq> listen_fd sv \<and> rd i \<noteq> None"

lemma requests_same:
  assumes "handle fd m sv b = Some (sv', b', r)" and "server_ok sv" and "board_ok b"
  shows "requestP sv' = (if m = ''exit'' then (requestP sv)[fd := -1] else requestP sv) \<and> listen_fd sv' = listen_fd sv"
proof -
  have tok: "requestP (take_tokens c ps sv) = requestP sv \<and> listen_fd (take_tokens c ps sv) = listen_fd sv" for c ps sv
    by (induction c ps sv rule: take_tokens.induct) simp_all
  consider "strstr m ''[SP]'' \<noteq> None" | "strstr m ''[SP]'' = None" by blast
  then show ?thesis
  proof cases
    case 1
    then have "m \<noteq> ''exit''" using no_tag [of "''exit''"] by auto
    with 1 assms(1) tok show ?thesis by (auto simp: handle_def do_submit_def bind_eq_Some_conv)
  next
    case 2
    with assms(1) do_post_spec [OF assms(2,3), of fd] do_pull_reply [OF assms(3), of sv] show ?thesis
      by (auto simp: handle_def do_exit_def slot_taken_def wrap_last_def warn_def bind_eq_Some_conv
          split: if_splits prod.splits option.splits)
  qed
qed

lemma serve_ready_serve:
  assumes "server_ok sv" and "board_ok b" and "requests_ok sv" and "distinct js"
    and "\<And>i. i \<in> set js \<Longrightarrow> i < length (requestP sv)"
  shows "serve_ready js rd sv b = serve (map (\<lambda>i. (i, the (rd i))) (filter (waiting rd sv) js)) (sv, b)"
  using assms
proof (induction js arbitrary: sv b)
  case (Cons i js)
  have i: "requestP sv ! i = -1 \<or> requestP sv ! i = int i" "i \<notin> set js"
    using Cons.prems by (auto simp: requests_ok_def)
  show ?case
  proof (cases "waiting rd sv i")
    case no: False
    then have "\<not> (requestP sv ! i \<noteq> int (listen_fd sv) \<and> FD_ISSET (requestP sv ! i) rd)"
      using i(1) by (auto simp: waiting_def FD_ISSET_def)
    with no Cons.IH [OF Cons.prems(1-3)] Cons.prems(4,5) show ?thesis by (auto simp: Let_def)
  next
    case yes: True
    then have w: "requestP sv ! i = int i" "int i \<noteq> int (listen_fd sv)" "FD_ISSET (int i) rd"
      by (auto simp: waiting_def FD_ISSET_def)
    show ?thesis
    proof (cases "do { command \<leftarrow> receiveM (the (rd i)); handle i command sv b }")
      case None
      with w yes show ?thesis by (cases "receiveM (the (rd i))") simp_all
    next
      case (Some t)
      obtain sv' b' r where t: "t = (sv', b', r)" by (cases t)
      have h: "handle i (the (rd i)) sv b = Some (sv', b', r)" and m: "receiveM (the (rd i)) = Some (the (rd i))"
        using Some by (auto simp: t bind_eq_Some_conv receiveM_Some)
      have rq: "requestP sv' ! j = requestP sv ! j" "listen_fd sv' = listen_fd sv" if "j \<in> set js" for j
        using requests_same [OF h Cons.prems(1,2)] that i(2) by (auto simp: nth_upd)
      have "requests_ok sv'" using requests_same [OF h Cons.prems(1,2)] Cons.prems(3)
        by (auto simp: requests_ok_def nth_upd)
      moreover have "length (requestP sv') = length (requestP sv)"
        using requests_same [OF h Cons.prems(1,2)] by simp
      ultimately have "serve_ready js rd sv' b' = serve (map (\<lambda>i. (i, the (rd i))) (filter (waiting rd sv') js)) (sv', b')"
        using Cons.prems(4,5) handle_ok [OF Cons.prems(1,2) h] by (intro Cons.IH) auto
      moreover have "filter (waiting rd sv') js = filter (waiting rd sv) js"
        using rq by (intro filter_cong) (simp_all add: waiting_def)
      ultimately show ?thesis using w yes h m by simp
    qed
  qed
qed simp

text \<open>C28: A turn of the main loop without a new connection handles every message that has arrived from a
  connected client exactly once, in the order of the descriptors, even when one of them is an \<open>exit\<close>.\<close>

theorem turn_serves_each_once:
  assumes "server_ok sv" and "board_ok b" and "requests_ok sv"
  shows "serve_turn None rd sv b = map_option Inr
    (serve (map (\<lambda>i. (i, the (rd i))) (filter (waiting rd sv) [0..<length (requestP sv)])) (sv, b))"
  using serve_ready_serve [OF assms, of "[0..<length (requestP sv)]" rd] by (simp add: serve_turn_def)

theorem turn_serves_each_once_witness:
  "\<exists>sv. requestP sv ! 4 = 4 \<and> serve_turn None (\<lambda>_. Some ''exit'') sv empty_board = Some (Inr (do_exit 4 sv, empty_board))"
proof -
  define sv where "sv = server0\<lparr>requestP := (requestP server0)[4 := 4]\<rparr>"
  have sv: "requestP sv ! i = (if i = 4 then 4 else if i = 3 then 3 else -1)" "listen_fd sv = 3" if "i < 64" for i
    using that by (simp_all add: sv_def server0_def server_init_def nth_upd)
  have len: "length (requestP sv) = 64" by (simp add: sv_def server0_def server_init_def)
  have ok: "requests_ok sv" using sv len by (auto simp: requests_ok_def)
  have ok': "server_ok sv" using server0_ok by (simp add: sv_def server_ok_def)
  have "filter (waiting (\<lambda>_. Some ''exit'') sv) [0..<64] = filter (\<lambda>i. i = 4) [0..<64]"
    using sv by (intro filter_cong) (auto simp: waiting_def)
  also have "\<dots> = [4]" by (simp add: upt_rec)
  finally have "serve_turn None (\<lambda>_. Some ''exit'') sv empty_board = map_option Inr (serve [(4, ''exit'')] (sv, empty_board))"
    using turn_serves_each_once [OF ok' empty_board_ok ok] len by simp
  moreover have "handle 4 ''exit'' sv empty_board = Some (do_exit 4 sv, empty_board, None)"
    using no_tag [of "''exit''"] by (simp add: handle_def)
  ultimately show ?thesis using sv(1) [of 4] by auto
qed


section \<open>Starting up\<close>

lemma port_eq: "(word_of_int m :: 16 word) = word_of_int n \<longleftrightarrow> m mod 65536 = n mod 65536"
  using word_of_int_eq_iff [of m n, where 'a = 16] by (simp add: take_bit_eq_mod)

text \<open>C40: When the calls of the operating system succeed, a client started with an address and the text of a number
  \<open>m\<close> gets the welcome of the server started with \<open>n\<close> exactly when \<open>m\<close> is neither 0 nor above 65536, the
  address is one of the machine of the server and both numbers are the same modulo 65536 - a negative one
  included (for a descriptor the tables of the server have room for). Otherwise it ends with one of two error messages or, at another machine, talks to somebody else.\<close>

theorem client_reaches_server:
  fixes n m :: int
  assumes "server_calls_ok sos (word_of_int n)" and "client_calls_ok cos host"
    and "only_listener cos here (word_of_int n)" and "n mod 65536 \<noteq> 0"
    and "- (2 ^ 31) \<le> n \<and> n < 2 ^ 31" and "- (2 ^ 31) \<le> m \<and> m < 2 ^ 31"
  shows "start_up sos [a, intTostr n] cos [a', host, intTostr m] here fd b =
      (if m = 0 \<or> m > 65536 then Some (Inl ''Invalid port'')
       else if \<not> here host
         then Some (if connect_call cos host (word_of_int m) < 0 then Inl ''connect'' else Inr None)
       else if m mod 65536 \<noteq> n mod 65536 then Some (Inl ''connect'')
       else map_option (Inr \<circ> Some)
         (welcomed fd (server_init (own_pid sos) (nat (socket_call sos)) (getdtablesize_call sos)) b)) \<and>
    (fd < 1024 \<and> fd < getdtablesize_call sos \<longrightarrow>
      welcomed fd (server_init (own_pid sos) (nat (socket_call sos)) (getdtablesize_call sos)) b \<noteq> None)"
proof -
  have "(word_of_int n :: 16 word) \<noteq> 0" using assms(4) port_eq [of n 0] by simp
  with start_up_ports [OF assms(1-3), of m a a' fd b] assms(5,6)
    welcomed_defined [of fd "server_init (own_pid sos) (nat (socket_call sos)) (getdtablesize_call sos)" b]
  show ?thesis by (auto simp: port_eq server_init_def)
qed

definition linux :: server_calls where
  "linux = \<lparr>own_pid = 1, socket_call = 3, setsockopt_call = 0, bind_call = (\<lambda>p. 0), listen_call = 0,
     getdtablesize_call = 1024, malloc_call = True\<rparr>"

text \<open>A client on the machine of that server, and a second machine where something listens everywhere.\<close>

definition local_host :: "string \<Rightarrow> bool" where "local_host s \<longleftrightarrow> s = ''127.0.0.1''"

definition linux_client :: client_calls where
  "linux_client = \<lparr>c_socket_call = 3, inet_pton_call = (\<lambda>s. 1),
     connect_call = (\<lambda>s p. if s = ''127.0.0.1'' \<and> p \<noteq> 3000 then -1 else 0)\<rparr>"

theorem client_reaches_server_witness:
  "(\<exists>s. start_up linux [''server'', intTostr 3000] linux_client [''client'', ''127.0.0.1'', intTostr (-62536)] local_host 4
      empty_board = Some (Inr (Some s))) \<and>
   start_up linux [''server'', intTostr 3000] linux_client [''client'', ''127.0.0.1'', intTostr 65536] local_host 4
      empty_board = Some (Inl ''connect'') \<and>
   start_up linux [''server'', intTostr 3000] linux_client [''client'', ''10.0.0.7'', intTostr 3000] local_host 4
      empty_board = Some (Inr None)"
proof -
  have ok: "server_calls_ok linux (word_of_int 3000)" "client_calls_ok linux_client host" for host
    by (simp_all add: server_calls_ok_def client_calls_ok_def linux_def linux_client_def)
  have net: "only_listener linux_client local_host (word_of_int 3000)"
    by (auto simp: only_listener_def local_host_def linux_client_def)
  note meet = client_reaches_server [OF ok(1) ok(2) net, of _ "''server''" "''client''" _ 4 empty_board]
  show ?thesis
    using meet [of "-62536" "''127.0.0.1''"] meet [of 65536 "''127.0.0.1''"] meet [of 3000 "''10.0.0.7''"]
    by (auto simp: local_host_def linux_client_def linux_def)
qed

section \<open>Several servers\<close>

definition two_servers :: servers where
  "two_servers = ([server_init 1 3 8, server_init 2 3 8], empty_board)"

lemma two_servers_started: "started_servers two_servers"
  using empty_board_ok
  by (simp add: two_servers_def started_servers_def server_init_ok) (simp add: server_init_def)

text \<open>C25: A record that a server has reserved for one of its clients belongs to that server while the submissions
  come in turn: no other server chooses or shows it, none of their steps changes its post or takes its
  file lock, however the steps of the servers are interleaved.\<close>

theorem reserved_record_is_private:
  assumes "started_servers s" and "reach orderly s (svs, b)"
    and "i < length svs" and "k < RECORD_NUM" and "mylock (svs ! i) ! k \<noteq> 0"
    and "in_turn (j, e) (svs, b)" and "servers_do (j, e) (svs, b) = Some (r, svs', b')" and "i \<noteq> j"
  shows "\<not> avail (svs ! j) b k \<and> mylock (svs' ! j) ! k = 0 \<and> posts b' ! k = posts b ! k \<and>
    locks b' ! k = Some (pid (svs ! i))"
proof -
  have ok: "servers_ok (svs, b)" using servers.reach_inv [OF assms(1,2)] .
  obtain sv where S: "servers_ok (svs', b')" "j < length svs" "svs' = svs[j := sv]"
    "spares (pid (svs ! j)) (svs ! j) b sv b'"
    using servers_do_ok [OF ok assms(6,7)] by blast
  have "svs' ! i = svs ! i" using S(3) assms(8) by simp
  with reserved_not_avail [OF S(1), of i j k] reserved_not_avail [OF ok assms(3) S(2) assms(8,4,5)] S assms
  show ?thesis by (auto simp: avail_def foreign_def spares_def)
qed

theorem reserved_record_is_private_witness:
  "\<exists>svs b svs' b'. servers_do (0, Message 4 ''post'') two_servers = Some (Some ''1'', svs, b) \<and>
     mylock (svs ! 0) ! 0 = 1 \<and> servers_do (1, Message 4 ''post'') (svs, b) = Some (Some ''0'', svs', b') \<and>
     locks b' ! 0 = Some 1"
proof -
  have ev: "(case servers_run [(0, Message 4 ''post''), (1, Message 4 ''post'')] two_servers of None \<Rightarrow> False
     | Some (rs, svs, b) \<Rightarrow> rs = [Some ''1'', Some ''0'']) \<and>
     (case servers_do (0, Message 4 ''post'') two_servers of None \<Rightarrow> False
     | Some (r, svs, b) \<Rightarrow> length svs = 2 \<and> mylock (svs ! 0) ! 0 = 1 \<and> pid (svs ! 0) = 1)"
    by code_simp
  then obtain svs b svs' b' where s: "servers_do (0, Message 4 ''post'') two_servers = Some (Some ''1'', svs, b)"
    "servers_do (1, Message 4 ''post'') (svs, b) = Some (Some ''0'', svs', b')"
    "length svs = 2" "mylock (svs ! 0) ! 0 = 1" "pid (svs ! 0) = 1"
    by (auto simp: bind_eq_Some_conv split: option.splits)
  have tag: "strstr ''post'' ''[SP]'' = None" by (auto intro: no_tag)
  have turns: "in_turn (0, Message 4 ''post'') two_servers" "in_turn (1, Message 4 ''post'') (svs, b)"
    by (simp_all add: two_servers_def submits_in_turn_def tag del: strstr.simps)
  with s(1) have "reach orderly two_servers (svs, b)"
    by (intro reach_step [OF reach_init]) (auto simp: orderly_def)
  from reserved_record_is_private [OF two_servers_started this _ _ _ turns(2) s(2), of 0 0] s show ?thesis
    by (auto simp: RECORD_NUM_def)
qed

text \<open>Out of turn a post is lost: of two clients of one server the first submits after the second has
  reserved, which releases the record of the second; a client of another server then reserves the
  same record, both submit, all have been told they may, and only the later post is on the board.\<close>

theorem late_submission_loses_post:
  "\<exists>svs b msg. servers_run [(0, Message 4 ''post''), (0, Message 5 ''post''), (0, Message 4 ''[SP]ann+hi''),
      (0, Message 4 ''pull''), (1, Message 4 ''post''), (0, Message 5 ''[SP]bob+hello''),
      (1, Message 4 ''[SP]eve+bye'')] two_servers =
      Some ([Some ''1'', Some ''1'', None, Some msg, Some ''1'', None, None], svs, b) \<and>
    map From (posts b) = [''ann'', ''eve''] @ replicate 8 []"
proof -
  let ?run = "servers_run [(0, Message 4 ''post''), (0, Message 5 ''post''), (0, Message 4 ''[SP]ann+hi''),
      (0, Message 4 ''pull''), (1, Message 4 ''post''), (0, Message 5 ''[SP]bob+hello''),
      (1, Message 4 ''[SP]eve+bye'')] two_servers"
  have "(case ?run of None \<Rightarrow> False | Some (rs, svs, b) \<Rightarrow>
      rs[3 := None] = [Some ''1'', Some ''1'', None, None, Some ''1'', None, None] \<and> rs ! 3 \<noteq> None \<and>
      map From (posts b) = [''ann'', ''eve''] @ replicate 8 [])"
    by code_simp
  then obtain rs svs b where r: "?run = Some (rs, svs, b)" "map From (posts b) = [''ann'', ''eve''] @ replicate 8 []"
    "rs[3 := None] = [Some ''1'', Some ''1'', None, None, Some ''1'', None, None]" "rs ! 3 \<noteq> None"
    by (auto split: option.splits)
  then obtain msg where "rs ! 3 = Some msg" by blast
  then have "rs = (rs[3 := None])[3 := Some msg]" by (metis list_update_id list_update_overwrite)
  with r show ?thesis by auto
qed

section \<open>The end of the input\<close>

text \<open>A board of which the first \<open>n\<close> records hold the post and all are free, and the buffers after it.\<close>

definition flooded :: "post \<Rightarrow> nat \<Rightarrow> server \<Rightarrow> board \<Rightarrow> bool" where
  "flooded re n sv b \<longleftrightarrow> server_ok sv \<and> board_ok b \<and> (\<forall>k < RECORD_NUM. avail sv b k) \<and>
     last_post sv = int n - 1 \<and> (\<forall>k < n. posts b ! k = re)"

lemma flooded_first: "flooded re n sv b \<Longrightarrow> n < RECORD_NUM \<Longrightarrow> find (avail sv b) (slot_order sv) = Some n"
  by (simp add: flooded_def slot_order_def first_slot_def upt_conv_Cons)

lemma flood_round:
  assumes "flooded \<lparr>From = f, Content = t\<rparr> n sv b" and "n < RECORD_NUM" and "fd < 1024"
    and "sendable FROM_LEN f" and "sendable CONTENT_LEN t"
    and ws: "ws = [Some ''post'', Some f, Some t] \<or>
      ws = [None, None, None] \<and> u = \<lparr>command_buf = Some ''post'', str1_buf = Some f, str2_buf = Some t\<rparr>"
  shows "\<exists>sv' b' out'. client_inputs fd ws (u, Cl_Command, sv, b, out) =
      Some (\<lparr>command_buf = Some ''post'', str1_buf = Some f, str2_buf = Some t\<rparr>, Cl_Command, sv', b', out') \<and>
    flooded \<lparr>From = f, Content = t\<rparr> (Suc n) sv' b'"
proof -
  have sv: "server_ok sv" and b: "board_ok b" using assms(1) by (simp_all add: flooded_def)
  let ?o = "out @ ''FROM: ''"
  obtain sv1 b1 sv2 b2 where w: "session_word fd ''post'' (Cl_Command, sv, b, out) = Some (Cl_From, sv1, b1, ?o)"
    "session_word fd f (Cl_From, sv1, b1, ?o) = Some (Cl_Content f, sv1, b1, ?o @ ''CONTENT:'' @ newline)"
    "session_word fd t (Cl_Content f, sv1, b1, ?o @ ''CONTENT:'' @ newline) =
       Some (Cl_Command, sv2, b2, (?o @ ''CONTENT:'' @ newline) @ prompt)"
    and new: "server_ok sv2" "board_ok b2" "posts b2 = (posts b)[n := \<lparr>From = f, Content = t\<rparr>]"
      "last_post sv2 = int n" "\<forall>k < RECORD_NUM. avail sv b k \<longrightarrow> avail sv2 b2 k"
    using session_post [OF sv b assms(3) flooded_first [OF assms(1,2)] assms(4,5), of out ?o "?o @ ''CONTENT:'' @ newline"]
    by blast
  have "flooded \<lparr>From = f, Content = t\<rparr> (Suc n) sv2 b2"
    using new assms(1,2) by (auto simp: flooded_def nth_list_update less_Suc_eq board_ok_def)
  moreover have "client_inputs fd ws (u, Cl_Command, sv, b, out) =
      Some (\<lparr>command_buf = Some ''post'', str1_buf = Some f, str2_buf = Some t\<rparr>, Cl_Command, sv2, b2,
        (?o @ ''CONTENT:'' @ newline) @ prompt)"
    using ws w by (auto simp: client_input_def simp del: session_word.simps append_Cons append_Nil append_assoc)
  ultimately show ?thesis by blast
qed

lemma flood_rounds:
  assumes "flooded \<lparr>From = f, Content = t\<rparr> n sv b" and "n + i \<le> RECORD_NUM" and "fd < 1024"
    and "sendable FROM_LEN f" and "sendable CONTENT_LEN t"
  defines "u \<equiv> \<lparr>command_buf = Some ''post'', str1_buf = Some f, str2_buf = Some t\<rparr>"
  shows "\<exists>sv' b' out'. client_inputs fd (replicate (3 * i) None) (u, Cl_Command, sv, b, out) =
      Some (u, Cl_Command, sv', b', out') \<and> flooded \<lparr>From = f, Content = t\<rparr> (n + i) sv' b'"
  using assms(1,2)
proof (induction i arbitrary: n sv b out)
  case 0
  then show ?case by simp
next
  case (Suc i)
  then obtain sv1 b1 out1 where 1: "client_inputs fd [None, None, None] (u, Cl_Command, sv, b, out) =
      Some (u, Cl_Command, sv1, b1, out1)" "flooded \<lparr>From = f, Content = t\<rparr> (Suc n) sv1 b1"
    using flood_round [of f t n sv b fd "[None, None, None]" u out] assms(3-5) unfolding u_def by auto
  have more: "replicate (3 * Suc i) None = [None, None, None] @ replicate (3 * i) None"
    by (simp add: numeral_3_eq_3)
  show ?case
    unfolding more client_inputs_append 1(1) using Suc.IH [OF 1(2), of out1] Suc.prems(2) by simp
qed

text \<open>C35: The end of the input is not noticed: a client whose input ends after one \<open>post\<close> goes on to post the same
  text, and the tenth time no other post is left on the board.\<close>

theorem end_of_input_floods_board:
  assumes "board_ok b" and "\<And>k. k < RECORD_NUM \<Longrightarrow> locks b ! k = None \<or> locks b ! k = Some p"
    and "fd < 1024" and "sendable FROM_LEN f" and "sendable CONTENT_LEN t"
  shows "\<exists>u' sv' b' out'. client_inputs fd ([Some ''post'', Some f, Some t] @ replicate (3 * 9) None)
      (u, Cl_Command, server_init p l n, b, []) = Some (u', Cl_Command, sv', b', out') \<and>
    posts b' = replicate RECORD_NUM \<lparr>From = f, Content = t\<rparr>"
proof -
  have "flooded \<lparr>From = f, Content = t\<rparr> 0 (server_init p l n) b"
    using assms(1,2) server_init_ok by (simp add: flooded_def avail_def) (simp add: server_init_def)
  from flood_round [OF this _ assms(3-5) disjI1 [OF refl], of u "[]"] obtain sv1 b1 out1 where
    1: "client_inputs fd [Some ''post'', Some f, Some t] (u, Cl_Command, server_init p l n, b, []) =
      Some (\<lparr>command_buf = Some ''post'', str1_buf = Some f, str2_buf = Some t\<rparr>, Cl_Command, sv1, b1, out1)"
    "flooded \<lparr>From = f, Content = t\<rparr> (Suc 0) sv1 b1"
    by (auto simp: RECORD_NUM_def)
  obtain sv' b' out' where 2: "client_inputs fd (replicate (3 * 9) None)
      (\<lparr>command_buf = Some ''post'', str1_buf = Some f, str2_buf = Some t\<rparr>, Cl_Command, sv1, b1, out1) =
      Some (\<lparr>command_buf = Some ''post'', str1_buf = Some f, str2_buf = Some t\<rparr>, Cl_Command, sv', b', out')"
    "flooded \<lparr>From = f, Content = t\<rparr> RECORD_NUM sv' b'"
    using flood_rounds [OF 1(2) _ assms(3-5), of 9 out1] by (auto simp: RECORD_NUM_def)
  then have "posts b' = replicate RECORD_NUM \<lparr>From = f, Content = t\<rparr>"
    by (intro nth_equalityI) (auto simp: flooded_def board_ok_def)
  with 1(1) 2(1) show ?thesis unfolding client_inputs_append by simp
qed

theorem end_of_input_floods_board_witness:
  "\<exists>u' sv' b' out'. client_inputs 4 ([Some ''post'', Some ''ann'', Some ''hi''] @ replicate (3 * 9) None)
      (\<lparr>command_buf = None, str1_buf = None, str2_buf = None\<rparr>, Cl_Command, server_init 0 3 64, empty_board, []) =
      Some (u', Cl_Command, sv', b', out') \<and> posts b' ! 9 = \<lparr>From = ''ann'', Content = ''hi''\<rparr>"
proof -
  have "sendable FROM_LEN ''ann''" "sendable CONTENT_LEN ''hi''"
    by (simp_all add: sendable_def word_def FROM_LEN_def CONTENT_LEN_def)
  note flood = end_of_input_floods_board [OF empty_board_ok _ _ this, of 0 4
    "\<lparr>command_buf = None, str1_buf = None, str2_buf = None\<rparr>" 3 64]
  from flood obtain u' sv' b' out' where
    "client_inputs 4 ([Some ''post'', Some ''ann'', Some ''hi''] @ replicate (3 * 9) None)
      (\<lparr>command_buf = None, str1_buf = None, str2_buf = None\<rparr>, Cl_Command, server_init 0 3 64, empty_board, []) =
      Some (u', Cl_Command, sv', b', out')" "posts b' = replicate RECORD_NUM \<lparr>From = ''ann'', Content = ''hi''\<rparr>"
    by (force simp: empty_board_def)
  moreover from this(2) have "posts b' ! 9 = \<lparr>From = ''ann'', Content = ''hi''\<rparr>"
    by (simp add: RECORD_NUM_def)
  ultimately show ?thesis by blast
qed

section \<open>Failing transfers\<close>

text \<open>C26: A turn of the main loop in which no transfer fails is the turn without failures, a closed connection being
  an empty message. Otherwise it ends the server with the text of the failing call: the clients before have
  been served, the file keeps what they have posted, and of the record locks exactly those of the server
  are released.\<close>

theorem failing_transfer_ends_server:
  assumes "server_ok sv" and "board_ok b" and "serve_turn_io new sends rd sv b = Some x"
  shows "case x of
      Inr r \<Rightarrow> serve_turn new (received rd) sv b = Some (Inr r) \<and> (case new of
        None \<Rightarrow> \<not> (\<exists>e b'. broken_off [0..<length (requestP sv)] rd sends sv b e b')
      | Some (Inr fd) \<Rightarrow> sends fd
      | Some (Inl n) \<Rightarrow> n \<noteq> Other_errno)
    | Inl (e, b') \<Rightarrow> released (pid sv) b b' \<and> (case new of
        None \<Rightarrow> broken_off [0..<length (requestP sv)] rd sends sv b e b'
      | Some (Inr fd) \<Rightarrow> e = ''Error sending message to client'' \<and> \<not> sends fd \<and> posts b' = posts b
      | Some (Inl n) \<Rightarrow> serve_turn new (received rd) sv b = Some (Inl e) \<and> posts b' = posts b)"
proof -
  consider "new = None" | fd where "new = Some (Inr fd)" | n where "new = Some (Inl n)"
    by (metis option.exhaust sum.exhaust)
  then show ?thesis
  proof cases
    case 1
    then have "serve_ready_io sends [0..<length (requestP sv)] rd sv b = Some x"
      using assms(3) by (simp add: serve_turn_io_def)
    from serve_ready_io_split [OF this assms(1,2)] serve_ready_io_whole [of sends _ rd sv b, OF _ assms(1,2)] this 1
    show ?thesis by (auto simp: serve_turn_def split: sum.splits)
  next
    case (2 fd)
    with assms(3) obtain sv' b' m where n: "new_connection fd sv b = Some (sv', b', m)"
      by (auto simp: serve_turn_io_def bind_eq_Some_conv)
    note lk = new_connection_locks [OF assms(2) n]
    with 2 n assms(3) released_release [of "pid sv" b b'] show ?thesis
      by (auto simp: serve_turn_io_def serve_turn_def released_posts split: if_splits)
  next
    case (3 n)
    with assms(3) released_release [OF own_locks_only_refl, of "pid sv" b] show ?thesis
      by (auto simp: serve_turn_io_def serve_turn_def released_posts split: if_splits)
  qed
qed

definition two_clients :: server where
  "two_clients = (server_init 1 3 6)\<lparr>requestP := [-1, -1, -1, 3, 4, 5]\<rparr>"

definition one_fails :: "nat \<Rightarrow> arrival option" where
  "one_fails fd = (if fd = 4 then Some (Bytes ''post'') else if fd = 5 then Some Recv_error else None)"

theorem failing_transfer_ends_server_witness:
  "\<exists>b'. serve_turn_io None (\<lambda>_. True) one_fails two_clients empty_board =
      Some (Inl (''Error receiving message from client'', b')) \<and> released 1 empty_board b'"
proof -
  have "(case serve_turn_io None (\<lambda>_. True) one_fails two_clients empty_board of
      Some (Inl (e, b')) \<Rightarrow> e = ''Error receiving message from client'' | _ \<Rightarrow> False)"
    by code_simp
  then obtain b' where t: "serve_turn_io None (\<lambda>_. True) one_fails two_clients empty_board =
      Some (Inl (''Error receiving message from client'', b'))"
    by (auto split: option.splits sum.splits)
  have "server_ok two_clients" "pid two_clients = 1"
    by (simp_all add: two_clients_def server_ok_def server_init_def RECORD_NUM_def)
  with failing_transfer_ends_server [OF _ empty_board_ok t] t show ?thesis by simp
qed

section \<open>Both machines together\<close>



end
