(* ===== verification/Svc_Text.thy ===== *)
theory Svc_Text
  imports CNumbers
begin

text \<open>
  The messages of the service manager: the splitting of a command into the words of an array of four.
\<close>

section \<open>Words of a command\<close>

text \<open>
  The loop of \<open>strtok_r\<close> that fills an array of four pointers: a fifth word is written behind it.
  To read an entry that was not written is undefined.
\<close>

definition split_words :: "string \<Rightarrow> string list option" where
  "split_words s = (let ws = tokens {CHR '' ''} s in if length ws \<le> 4 then Some ws else None)"

definition nth_word :: "string list \<Rightarrow> nat \<Rightarrow> string option" where
  "nth_word ws i = (if i < length ws then Some (ws ! i) else None)"

abbreviation sword :: "string \<Rightarrow> bool" where "sword \<equiv> word {CHR '' ''}"

lemma words2: "sword a \<Longrightarrow> sword b \<Longrightarrow> tokens {CHR '' ''} (a @ '' '' @ b) = [a, b]"
  using tokens_join [of "CHR '' ''" "{CHR '' ''}" "[a, b]"] by auto

lemma words3: "sword a \<Longrightarrow> sword b \<Longrightarrow> sword c \<Longrightarrow> tokens {CHR '' ''} (a @ '' '' @ b @ '' '' @ c) = [a, b, c]"
  using tokens_join [of "CHR '' ''" "{CHR '' ''}" "[a, b, c]"] by auto

lemma words4:
  "sword a \<Longrightarrow> sword b \<Longrightarrow> sword c \<Longrightarrow> sword d \<Longrightarrow>
   tokens {CHR '' ''} (a @ '' '' @ b @ '' '' @ c @ '' '' @ d) = [a, b, c, d]"
  using tokens_join [of "CHR '' ''" "{CHR '' ''}" "[a, b, c, d]"] by auto

end
