(* ===== verification/Svc_Tree.thy ===== *)
theory Svc_Tree
  imports Prelude Svc_Text
begin

text \<open>
  The service processes (\<open>HierarchicalServiceManagementSystem/service.c\<close>) as a tree: a process has
  its name, its secret and the list of its children. A parent writes a command to a child and waits
  for its reply before it does anything else, so a command is a recursive function that returns the
  reply, the changed process and the lines printed by all processes in their order. \<open>None\<close> is
  undefined behaviour (a buffer or the array of words overrun), a process that waits for ever or is ended by
  \<open>SIGPIPE\<close> at a write to a \<open>Dead\<close> child, or a message to a child that is \<open>Behind\<close>.
  The process numbers are given by the system, the secrets by \<open>rnd\<close>, the first value of \<open>rand\<close>
  for a seed.
\<close>

section \<open>Processes\<close>

definition MAX_SERVICE_NAME_LEN :: nat where "MAX_SERVICE_NAME_LEN = 16"
definition MAX_CMD_LEN :: nat where "MAX_CMD_LEN = 128"

text \<open>
  The part a process plays in an exchange: whether it reads the other secret first. The parent of a
  process that is \<open>Behind\<close> has not read its \<open>Y\<close>, so it would read each of its replies one command late
  and not wait for it; the model stops where a message reaches such a process.
\<close>

datatype party = Ready | First | Second | Behind

text \<open>A process that has ended may still be in the list of its parent.\<close>

datatype service =
    Live string "64 word" int party "service list"
  | Dead string

fun name_of :: "service \<Rightarrow> string" where
  "name_of (Live n sec cn pt ks) = n"
| "name_of (Dead n) = n"

type_synonym 'a reply = "('a \<times> service \<times> string list) option"

section \<open>Printed lines\<close>

definition received :: "string \<Rightarrow> string \<Rightarrow> string" where
  "received n cmd = n @ '' has received '' @ cmd"

definition spawned :: "string \<Rightarrow> string \<Rightarrow> string" where
  "spawned n c = n @ '' has spawned a new service '' @ c"

definition started :: "string \<Rightarrow> nat \<Rightarrow> 64 word \<Rightarrow> string" where
  "started n p sec = n @ '' has been spawned, pid: '' @ intTostr (int p) @ '', secret: '' @ nat_str (unat sec)"

definition not_exist :: "string \<Rightarrow> string" where
  "not_exist n = n @ '' doesn't exist''"

definition killed :: "string \<Rightarrow> int \<Rightarrow> string" where
  "killed n k = n @ '' and '' @ intTostr k @ '' child services are killed''"

definition exchanged :: "string \<Rightarrow> string \<Rightarrow> string" where
  "exchanged a b = a @ '' and '' @ b @ '' have exchanged their secrets''"

section \<open>Messages\<close>

text \<open>
  A message travels through a pipe byte by byte with its zero; the reader stops at the zero or at the
  end of the file, and overruns its buffer at the 128th character. So a message of a command
  arrives as it was sent, and the functions below pass it on as it is.
\<close>

definition writeToParent :: "string \<Rightarrow> string \<Rightarrow> string" where
  "writeToParent msg bytes = bytes @ msg @ [CHR 0x00]"

definition writeToChild :: "string \<Rightarrow> string \<Rightarrow> string" where
  "writeToChild msg bytes = bytes @ msg @ [CHR 0x00]"

fun read_loop :: "nat \<Rightarrow> string \<Rightarrow> (string \<times> string) option" where
  "read_loop p [] = (if p < MAX_CMD_LEN then Some ([], []) else None)"
| "read_loop p (c # bytes) =
     (if \<not> p < MAX_CMD_LEN then None
      else if c \<noteq> CHR 0x00 then do { (w, rest) \<leftarrow> read_loop (p + 1) bytes; Some (c # w, rest) }
      else Some ([], bytes))"

definition readFromParent :: "string \<Rightarrow> (string \<times> string) option" where
  "readFromParent bytes = read_loop 0 bytes"

definition readFomChild :: "string \<Rightarrow> (string \<times> string) option" where
  "readFomChild bytes = read_loop 0 bytes"

lemma read_loop_app:
  "CHR 0x00 \<notin> set msg \<Longrightarrow> p + length msg < MAX_CMD_LEN \<Longrightarrow> read_loop p (msg @ CHR 0x00 # rest) = Some (msg, rest)"
  by (induction msg arbitrary: p) auto

lemma message_arrives:
  assumes "CHR 0x00 \<notin> set msg" and "length msg < MAX_CMD_LEN"
  shows "readFromParent (writeToChild msg [] @ rest) = Some (msg, rest)"
    and "readFomChild (writeToParent msg [] @ rest) = Some (msg, rest)"
  using assms by (simp_all add: readFromParent_def readFomChild_def writeToChild_def writeToParent_def read_loop_app)

section \<open>The list of children\<close>

definition addChild :: "service \<Rightarrow> service list \<Rightarrow> service list" where
  [simp]: "addChild newchild ks = ks @ [newchild]"

text \<open>\<open>deleteNode\<close> unlinks the first child with the name and counts it out; the list is not empty.\<close>

fun deleteNode :: "string \<Rightarrow> service list \<Rightarrow> int \<Rightarrow> service list \<times> int" where
  "deleteNode s [] cn = ([], cn)"
| "deleteNode s (k # ks) cn = (if name_of k = s then (ks, cn - 1)
     else (case deleteNode s ks cn of (ks', cn') \<Rightarrow> (k # ks', cn')))"

text \<open>
  \<open>die\<close> takes the children out of the list one by one, each by its name, and ends the process, which is
  \<open>Dead\<close> from then on.
\<close>

fun die_loop :: "service list \<Rightarrow> service list \<Rightarrow> int \<Rightarrow> service list \<times> int" where
  "die_loop [] ks cn = (ks, cn)"
| "die_loop (k # js) ks cn = (case deleteNode (name_of k) ks cn of (ks', cn') \<Rightarrow> die_loop js ks' cn')"

definition die :: "service list \<Rightarrow> int \<Rightarrow> service list \<times> int" where
  "die ks cn = die_loop ks ks cn"

lemma die_unlinks_all: "die ks cn = ([], cn - int (length ks))"
  unfolding die_def by (induction ks arbitrary: cn) auto

fun find_child :: "string \<Rightarrow> service list \<Rightarrow> nat option" where
  "find_child s [] = None"
| "find_child s (k # ks) = (if name_of k = s then Some 0 else map_option Suc (find_child s ks))"

text \<open>
  A new process: \<open>MySpawn\<close>, and \<open>main\<close> up to its loop. A child with the name of the manager takes
  itself for the manager and never writes to its parent.
\<close>

definition MySpawn :: "(nat \<Rightarrow> nat) \<Rightarrow> nat \<Rightarrow> string \<Rightarrow> (service \<times> string list) option" where
  "MySpawn rnd p new_child_name = do {
     nm \<leftarrow> strcpy MAX_SERVICE_NAME_LEN new_child_name;
     sec \<leftarrow> Some (of_nat (rnd p));
     (if nm = ''Manager'' then None else Some (Live nm sec 0 Ready [], [started nm p sec])) }"

text \<open>
  A process spawns a child and reads the reply of the first child of that name. That is the \<open>Y\<close> of the
  new one, unless an older child has the name: a living one has nothing to say, and the process waits
  for ever; the pipe of a dead one is at its end, and the reply is empty. In that case the \<open>Y\<close> of the
  new child stays in its pipe, and its line, put here where it is spawned, may come later.
\<close>

definition read_reply :: "service list \<Rightarrow> nat \<Rightarrow> string option" where
  "read_reply ks i =
    (if i = length ks then map_option fst (readFomChild (writeToParent ''Y'' []))
     else case ks ! i of Live n sec cn pt js \<Rightarrow> None | Dead n \<Rightarrow> map_option fst (readFomChild []))"

fun unread :: "service \<Rightarrow> service" where
  "unread (Live n sec cn pt ks) = Live n sec cn Behind ks"
| "unread (Dead n) = Dead n"

definition spawn_child :: "(nat \<Rightarrow> nat) \<Rightarrow> nat \<Rightarrow> string \<Rightarrow> service list \<Rightarrow> (string \<times> service list \<times> string list) option" where
  "spawn_child rnd p nm ks = do {
     (new, out) \<leftarrow> MySpawn rnd p nm;
     i \<leftarrow> find_child nm (addChild new ks);
     reply \<leftarrow> read_reply ks i;
     Some (reply, addChild (if i = length ks then new else unread new) ks, out) }"

lemma read_reply_cases:
  "read_reply ks (length ks) = Some ''Y''"
  "i < length ks \<Longrightarrow> ks ! i = Live n sec cn pt js \<Longrightarrow> read_reply ks i = None"
  "i < length ks \<Longrightarrow> ks ! i = Dead n \<Longrightarrow> read_reply ks i = Some ''''"
  by (simp_all add: read_reply_def readFomChild_def writeToParent_def MAX_CMD_LEN_def)

section \<open>The loops over the children\<close>

text \<open>
  \<open>rpc m k\<close> is: write \<open>m\<close> to the child \<open>k\<close>, read its reply. \<open>ask_spawn\<close> goes on until a child answers \<open>Y\<close>,
  \<open>ask_kill\<close> until some process was killed (with the flag that it was the child itself, whose node the
  caller then unlinks; to go on from its freed node is undefined), \<open>ask_die\<close> through all of them, \<open>ask_exchange\<close> until both parties are found, \<open>ask_second\<close> likewise, but with
  the same message for all children.
\<close>

fun ask_spawn :: "(string \<Rightarrow> service \<Rightarrow> string reply) \<Rightarrow> string \<Rightarrow> service list \<Rightarrow> string
    \<Rightarrow> (string \<times> service list \<times> string list) option" where
  "ask_spawn rpc m [] reply = Some (reply, [], [])"
| "ask_spawn rpc m (k # ks) reply = do {
     (reply, k', out) \<leftarrow> rpc m k;
     (if reply = ''Y'' then Some (reply, k' # ks, out)
      else do {
        (reply, ks', out') \<leftarrow> ask_spawn rpc m ks reply;
        Some (reply, k' # ks', out @ out') }) }"

fun ask_kill :: "(string \<Rightarrow> service \<Rightarrow> string reply) \<Rightarrow> string \<Rightarrow> string \<Rightarrow> service list \<Rightarrow> int
    \<Rightarrow> (int \<times> bool \<times> service list \<times> string list) option" where
  "ask_kill rpc m target [] num = Some (num, False, [], [])"
| "ask_kill rpc m target (k # ks) num = do {
     (reply, k', out) \<leftarrow> rpc m k;
     num \<leftarrow> Some (num + atoi reply);
     (if num > 0 then Some (num, name_of k = target, k' # ks, out)
      else if name_of k = target then None
      else do {
        (num, hit, ks', out') \<leftarrow> ask_kill rpc m target ks num;
        Some (num, hit, k' # ks', out @ out') }) }"

fun ask_die :: "(string \<Rightarrow> service \<Rightarrow> string reply) \<Rightarrow> string \<Rightarrow> service list \<Rightarrow> int
    \<Rightarrow> (int \<times> string list) option" where
  "ask_die rpc m [] num = Some (num, [])"
| "ask_die rpc m (k # ks) num = do {
     (reply, k', out) \<leftarrow> rpc m k;
     (num, out') \<leftarrow> ask_die rpc m ks (num + atoi reply);
     Some (num, out @ out') }"

fun ask_exchange :: "(string \<Rightarrow> service \<Rightarrow> string reply) \<Rightarrow> string \<Rightarrow> service list \<Rightarrow> int
    \<Rightarrow> (int \<times> service list \<times> string list) option" where
  "ask_exchange rpc k5 [] gnum = Some (gnum, [], [])"
| "ask_exchange rpc k5 (k # ks) gnum = do {
     m \<leftarrow> strcpy MAX_CMD_LEN (k5 @ intTostr gnum);
     (reply, k', out) \<leftarrow> rpc m k;
     (if atoi reply = 2 then Some (2, k' # ks, out)
      else do {
        (gnum, ks', out') \<leftarrow> ask_exchange rpc k5 ks (atoi reply);
        Some (gnum, k' # ks', out @ out') }) }"

fun ask_second :: "(string \<Rightarrow> service \<Rightarrow> string reply) \<Rightarrow> string \<Rightarrow> service list \<Rightarrow> int
    \<Rightarrow> (int \<times> service list \<times> string list) option" where
  "ask_second rpc m [] gnum = Some (gnum, [], [])"
| "ask_second rpc m (k # ks) gnum = do {
     (reply, k', out) \<leftarrow> rpc m k;
     (if atoi reply = 2 then Some (2, k' # ks, out)
      else do {
        (gnum, ks', out') \<leftarrow> ask_second rpc m ks gnum;
        Some (gnum, k' # ks', out @ out') }) }"

lemma ask_cong:
  assumes "\<And>m k. k \<in> set ks \<Longrightarrow> f m k = g m k"
  shows "ask_spawn f m ks = ask_spawn g m ks" and "ask_kill f m t ks = ask_kill g m t ks"
    and "ask_die f m ks = ask_die g m ks" and "ask_exchange f m ks = ask_exchange g m ks"
    and "ask_second f m ks = ask_second g m ks"
  using assms
  by (induction ks) (simp_all add: fun_eq_iff split_def cong: Option.bind_cong if_cong)

section \<open>A command arrives at a child\<close>

text \<open>The three branches of the loop of a child, and the turn of the loop.\<close>

definition child_spawn :: "(string \<Rightarrow> service \<Rightarrow> string reply) \<Rightarrow> (nat \<Rightarrow> nat) \<Rightarrow> nat \<Rightarrow> string \<Rightarrow> string list
    \<Rightarrow> string \<Rightarrow> 64 word \<Rightarrow> int \<Rightarrow> party \<Rightarrow> service list \<Rightarrow> string reply" where
  "child_spawn rpc rnd p msg ws n sec cn pt ks = do {
     a1 \<leftarrow> nth_word ws 1;
     (if a1 = n then do {
        a2 \<leftarrow> nth_word ws 2;
        (reply, ks', out) \<leftarrow> spawn_child rnd p a2 ks;
        Some (reply, Live n sec (cn + 1) pt ks', received n msg # out) }
      else do {
        (reply, ks', out) \<leftarrow> ask_spawn rpc msg ks ''N'';
        Some (reply, Live n sec cn pt ks', received n msg # out) }) }"

definition child_kill :: "(string \<Rightarrow> service \<Rightarrow> string reply) \<Rightarrow> string \<Rightarrow> string list
    \<Rightarrow> string \<Rightarrow> 64 word \<Rightarrow> int \<Rightarrow> party \<Rightarrow> service list \<Rightarrow> string reply" where
  "child_kill rpc msg ws n sec cn pt ks = do {
     tag \<leftarrow> nth_word ws 2;
     tag2 \<leftarrow> strcpy 3 tag;
     a1 \<leftarrow> nth_word ws 1;
     at2 \<leftarrow> Some (''kill '' @ a1);
     out0 \<leftarrow> Some (if tag2 = ''N'' then [received n at2] else []);
     (if a1 = n then do {
        m \<leftarrow> strcpy MAX_CMD_LEN (at2 @ '' Y'');
        (num, out) \<leftarrow> ask_die rpc m ks 0;
        Some (intTostr (num + 1), Dead n, out0 @ out) }
      else if tag2 = ''N'' then do {
        (num, hit, ks', out) \<leftarrow> ask_kill rpc msg a1 ks 0;
        (ks', cn') \<leftarrow> Some (if hit then deleteNode a1 ks' cn else (ks', cn));
        Some (intTostr num, Live n sec cn' pt ks', out0 @ out) }
      else do {
        (num, out) \<leftarrow> ask_die rpc msg ks 0;
        Some (intTostr (num + 1), Dead n, out0 @ out) }) }"

text \<open>
  The request of an exchange: the service is the first name of the command, the second, or neither. The
  code of the first two is the same but for the names of the files: both take part in the exchange, as the
  second party when one is found already, as the first otherwise.
\<close>

definition exchange_target1 :: "(string \<Rightarrow> service \<Rightarrow> string reply) \<Rightarrow> string \<Rightarrow> string
    \<Rightarrow> string \<Rightarrow> 64 word \<Rightarrow> int \<Rightarrow> party \<Rightarrow> service list \<Rightarrow> string reply" where
  "exchange_target1 rpc w4 a3 n sec cn pt ks =
    (if atoi a3 + 1 = 2 then Some (intTostr 2, Live n sec cn Second ks, [received n w4])
     else do {
       m \<leftarrow> strcpy MAX_CMD_LEN (w4 @ '' '' @ intTostr (atoi a3 + 1));
       (gnum, ks', out) \<leftarrow> ask_second rpc m ks (atoi a3 + 1);
       Some (intTostr gnum, Live n sec cn First ks', received n w4 # out) })"

definition exchange_target2 :: "(string \<Rightarrow> service \<Rightarrow> string reply) \<Rightarrow> string \<Rightarrow> string
    \<Rightarrow> string \<Rightarrow> 64 word \<Rightarrow> int \<Rightarrow> party \<Rightarrow> service list \<Rightarrow> string reply" where
  "exchange_target2 rpc w4 a3 n sec cn pt ks =
    (if atoi a3 + 1 = 2 then Some (intTostr 2, Live n sec cn Second ks, [received n w4])
     else do {
       m \<leftarrow> strcpy MAX_CMD_LEN (w4 @ '' '' @ intTostr (atoi a3 + 1));
       (gnum, ks', out) \<leftarrow> ask_second rpc m ks (atoi a3 + 1);
       Some (intTostr gnum, Live n sec cn First ks', received n w4 # out) })"

definition exchange_relay :: "(string \<Rightarrow> service \<Rightarrow> string reply) \<Rightarrow> string \<Rightarrow> string
    \<Rightarrow> string \<Rightarrow> 64 word \<Rightarrow> int \<Rightarrow> party \<Rightarrow> service list \<Rightarrow> string reply" where
  "exchange_relay rpc w4 a3 n sec cn pt ks = do {
     (gnum, ks', out) \<leftarrow> ask_exchange rpc (w4 @ '' '') ks (atoi a3);
     Some (intTostr gnum, Live n sec cn pt ks', received n w4 # out) }"

lemmas exchange_branches = exchange_target1_def exchange_target2_def exchange_relay_def

definition child_exchange :: "(string \<Rightarrow> service \<Rightarrow> string reply) \<Rightarrow> string list
    \<Rightarrow> string \<Rightarrow> 64 word \<Rightarrow> int \<Rightarrow> party \<Rightarrow> service list \<Rightarrow> string reply" where
  "child_exchange rpc ws n sec cn pt ks = do {
     a1 \<leftarrow> nth_word ws 1;
     a2 \<leftarrow> nth_word ws 2;
     a3 \<leftarrow> nth_word ws 3;
     w4 \<leftarrow> Some (''exchange '' @ a1 @ '' '' @ a2);
     (if n = a1 then exchange_target1 rpc w4 a3 n sec cn pt ks
      else if n = a2 then exchange_target2 rpc w4 a3 n sec cn pt ks
      else exchange_relay rpc w4 a3 n sec cn pt ks) }"

lemma child_exchange_alt:
  "child_exchange rpc ws n sec cn pt ks = do {
     a1 \<leftarrow> nth_word ws 1;
     a2 \<leftarrow> nth_word ws 2;
     a3 \<leftarrow> nth_word ws 3;
     (if n = a1 \<or> n = a2 then exchange_target1 rpc (''exchange '' @ a1 @ '' '' @ a2) a3 n sec cn pt ks
      else exchange_relay rpc (''exchange '' @ a1 @ '' '' @ a2) a3 n sec cn pt ks) }"
proof -
  have "exchange_target2 = exchange_target1" by (simp add: exchange_branches fun_eq_iff)
  then show ?thesis by (simp add: child_exchange_def, intro Option.bind_cong refl) simp
qed

lemma child_cong [fundef_cong]:
  assumes "ks = ks'" and "\<And>m k. k \<in> set ks' \<Longrightarrow> f m k = g m k"
  shows "child_spawn f rnd p msg ws n sec cn pt ks = child_spawn g rnd p msg ws n sec cn pt ks'"
    and "child_kill f msg ws n sec cn pt ks = child_kill g msg ws n sec cn pt ks'"
    and "child_exchange f ws n sec cn pt ks = child_exchange g ws n sec cn pt ks'"
proof -
  have "ask_spawn f m ks' = ask_spawn g m ks'" "ask_kill f m t ks' = ask_kill g m t ks'"
    "ask_die f m ks' = ask_die g m ks'" "ask_exchange f m ks' = ask_exchange g m ks'"
    "ask_second f m ks' = ask_second g m ks'" for m t
    by (intro ask_cong assms(2); assumption)+
  then show "child_spawn f rnd p msg ws n sec cn pt ks = child_spawn g rnd p msg ws n sec cn pt ks'"
    and "child_kill f msg ws n sec cn pt ks = child_kill g msg ws n sec cn pt ks'"
    and "child_exchange f ws n sec cn pt ks = child_exchange g ws n sec cn pt ks'"
    by (simp_all only: child_spawn_def child_kill_def child_exchange_def exchange_branches assms(1))
qed

fun child :: "(nat \<Rightarrow> nat) \<Rightarrow> nat \<Rightarrow> string \<Rightarrow> service \<Rightarrow> string reply" where
  "child rnd p msg (Dead n) = None"
| "child rnd p msg (Live n sec cn pt ks) = (if pt = Behind then None else do {
     ws \<leftarrow> split_words msg;
     a0 \<leftarrow> nth_word ws 0;
     (if a0 = ''spawn'' then child_spawn (child rnd p) rnd p msg ws n sec cn pt ks
      else if a0 = ''kill'' then child_kill (child rnd p) msg ws n sec cn pt ks
      else if a0 = ''exchange'' then child_exchange (child rnd p) ws n sec cn pt ks
      else None) })"

end
