(* ===== verification/Svc_Spec.thy ===== *)
theory Svc_Spec
  imports Svc_Tree
begin

text \<open>
  What the commands do to the tree of services, without messages: the names in the order in which a
  command visits them, the insertion of a child, and the removal of a subtree; and the proof that
  \<open>child\<close> with its loops computes them.
\<close>

section \<open>The names of the live services\<close>

text \<open>\<open>all_live\<close>: no process of the tree is dead or behind.\<close>

fun names :: "service \<Rightarrow> string list" and names_list :: "service list \<Rightarrow> string list" where
  "names (Live n sec cn pt ks) = n # names_list ks"
| "names (Dead n) = []"
| "names_list [] = []"
| "names_list (k # ks) = names k @ names_list ks"

fun all_live :: "service \<Rightarrow> bool" where
  "all_live (Live n sec cn pt ks) \<longleftrightarrow> pt \<noteq> Behind \<and> (\<forall>k \<in> set ks. all_live k)"
| "all_live (Dead n) \<longleftrightarrow> False"

text \<open>The visited services: all up to the first one with the name.\<close>

definition visited :: "string \<Rightarrow> string list \<Rightarrow> string list" where
  "visited P ns = takeWhile (\<lambda>n. n \<noteq> P) ns @ (if P \<in> set ns then [P] else [])"

lemma visited_simps [simp]:
  "visited P [] = []" "visited P (n # ns) = (if n = P then [P] else n # visited P ns)"
  by (auto simp: visited_def)

lemma visited_append: "visited P (xs @ ys) = (if P \<in> set xs then visited P xs else xs @ visited P ys)"
  by (induction xs) auto

lemma visited_all: "P \<notin> set xs \<Longrightarrow> visited P xs = xs"
  by (induction xs) auto

lemma names_name: "all_live k \<Longrightarrow> name_of k \<in> set (names k) \<and> (\<exists>ns. names k = name_of k # ns)"
  by (cases k) auto

section \<open>Insertion of a child\<close>

fun add_under :: "string \<Rightarrow> service \<Rightarrow> service \<Rightarrow> service"
  and add_list :: "string \<Rightarrow> service \<Rightarrow> service list \<Rightarrow> service list" where
  "add_under P new (Live n sec cn pt ks) = (if n = P then Live n sec (cn + 1) pt (ks @ [new])
     else Live n sec cn pt (add_list P new ks))"
| "add_under P new (Dead n) = Dead n"
| "add_list P new [] = []"
| "add_list P new (k # ks) = (if P \<in> set (names k) then add_under P new k # ks
     else k # add_list P new ks)"

definition newborn :: "(nat \<Rightarrow> nat) \<Rightarrow> nat \<Rightarrow> string \<Rightarrow> service" where
  "newborn rnd p C = Live C (of_nat (rnd p)) 0 Ready []"

definition birth :: "(nat \<Rightarrow> nat) \<Rightarrow> nat \<Rightarrow> string \<Rightarrow> string" where
  "birth rnd p C = started C p (of_nat (rnd p))"

text \<open>A name that a new service may have.\<close>

definition fit_name :: "string \<Rightarrow> bool" where
  "fit_name C \<longleftrightarrow> sword C \<and> length C < MAX_SERVICE_NAME_LEN \<and> C \<noteq> ''Manager''"

lemma find_child_new: "\<forall>k \<in> set ks. name_of k \<noteq> C \<Longrightarrow> find_child C (ks @ [newborn rnd p C]) = Some (length ks)"
  by (induction ks) (auto simp: newborn_def)

lemma find_child_old: "find_child C ks = Some i \<Longrightarrow> find_child C (ks @ xs) = Some i \<and> i < length ks"
  by (induction ks arbitrary: i) (auto split: if_splits)

lemma MySpawn_fit: "fit_name C \<Longrightarrow> MySpawn rnd p C = Some (newborn rnd p C, [birth rnd p C])"
  by (simp add: MySpawn_def fit_name_def strcpy_def newborn_def birth_def)

lemma spawn_child_spec:
  "fit_name C \<Longrightarrow> \<forall>k \<in> set ks. name_of k \<noteq> C \<Longrightarrow>
   spawn_child rnd p C ks = Some (''Y'', ks @ [newborn rnd p C], [birth rnd p C])"
  by (simp add: spawn_child_def MySpawn_fit find_child_new read_reply_cases)

text \<open>An older child of the name gets in the way.\<close>

lemma spawn_child_old:
  assumes "fit_name C" and "find_child C ks = Some i"
  shows "spawn_child rnd p C ks = (case ks ! i of Live n sec cn pt js \<Rightarrow> None
    | Dead n \<Rightarrow> Some ('''', ks @ [unread (newborn rnd p C)], [birth rnd p C]))"
  using find_child_old [OF assms(2)]
  by (cases "ks ! i") (auto simp: spawn_child_def MySpawn_fit [OF assms(1)] read_reply_cases)

section \<open>A spawn command\<close>

lemma names_list_mem: "x \<in> set (names_list ks) \<longleftrightarrow> (\<exists>k \<in> set ks. x \<in> set (names k))"
  by (induction ks) auto

text \<open>
  What a parent relies on when it passes a spawn command to its children: the contract of one
  child. The loop over the children is proved once from it, for services and for the manager.
\<close>

definition spawn_answer :: "string \<Rightarrow> string \<Rightarrow> service \<Rightarrow> string \<Rightarrow> service \<Rightarrow> string reply" where
  "spawn_answer msg P new born t =
    (if P \<in> set (names t)
     then Some (''Y'', add_under P new t, map (\<lambda>n. received n msg) (visited P (names t)) @ [born])
     else Some (''N'', t, map (\<lambda>n. received n msg) (names t)))"

text \<open>The children a parent asks: all up to the first one that has the name in its tree.\<close>

fun asked :: "string \<Rightarrow> service list \<Rightarrow> service list" where
  "asked P [] = []"
| "asked P (k # ks) = k # (if P \<in> set (names k) then [] else asked P ks)"

text \<open>The first service \<open>P\<close> has room for a child \<open>C\<close>: none of its children has that name.\<close>

fun room :: "string \<Rightarrow> string \<Rightarrow> service \<Rightarrow> bool" and room_list :: "string \<Rightarrow> string \<Rightarrow> service list \<Rightarrow> bool" where
  "room P C (Live n sec cn pt ks) = (if n = P then \<forall>k \<in> set ks. name_of k \<noteq> C else room_list P C ks)"
| "room P C (Dead n) = True"
| "room_list P C [] = True"
| "room_list P C (k # ks) = (if P \<in> set (names k) then room P C k else room_list P C ks)"

lemma no_parent_room:
  "P \<notin> set (names t) \<Longrightarrow> room P C t"
  "P \<notin> set (names_list ks) \<Longrightarrow> room_list P C ks"
  by (induction t and ks rule: names_names_list.induct) auto

lemma new_name_room:
  "all_live t \<Longrightarrow> C \<notin> set (names t) \<Longrightarrow> room P C t"
  "\<forall>k \<in> set ks. all_live k \<Longrightarrow> C \<notin> set (names_list ks) \<Longrightarrow> room_list P C ks"
proof (induction t and ks rule: names_names_list.induct)
  case (1 n sec cn pt ks)
  then show ?case using names_name by (fastforce simp: names_list_mem)
qed auto

lemma asked_room: "room_list P C ks \<Longrightarrow> k \<in> set (asked P ks) \<Longrightarrow> room P C k"
  by (induction ks) (auto simp: no_parent_room split: if_splits)

lemma asked_subset: "set (asked P ks) \<subseteq> set ks"
  by (induction ks) auto

locale spawn_link =
  fixes rpc :: "string \<Rightarrow> service \<Rightarrow> string reply"
    and msg P :: string and new :: service and born :: string and S :: "service set"
  assumes answer: "k \<in> S \<Longrightarrow> rpc msg k = spawn_answer msg P new born k"
begin

lemma ask_spawn_spec:
  "set (asked P ks) \<subseteq> S \<Longrightarrow> ask_spawn rpc msg ks r =
    (if P \<in> set (names_list ks)
     then Some (''Y'', add_list P new ks, map (\<lambda>n. received n msg) (visited P (names_list ks)) @ [born])
     else Some (if ks = [] then r else ''N'', ks, map (\<lambda>n. received n msg) (names_list ks)))"
  by (induction ks arbitrary: r) (auto simp: answer spawn_answer_def visited_append)

end

lemma child_spawn_spec:
  assumes msg: "split_words msg = Some [''spawn'', P, C]" and C: "fit_name C"
  shows "all_live t \<Longrightarrow> room P C t \<Longrightarrow>
    child rnd p msg t = spawn_answer msg P (newborn rnd p C) (birth rnd p C) t"
proof (induction t)
  case (Live n sec cn pt ks)
  show ?case
  proof (cases "n = P")
    case True
    with Live.prems show ?thesis
      by (simp add: msg nth_word_def child_spawn_def spawn_child_spec [OF C] spawn_answer_def)
  next
    case False
    have "spawn_link (child rnd p) msg P (newborn rnd p C) (birth rnd p C) (set (asked P ks))"
      using Live False asked_subset [of P ks] by unfold_locales (auto intro: asked_room)
    from spawn_link.ask_spawn_spec [OF this subset_refl, of "''N''"] False Live.prems show ?thesis
      by (auto simp: msg nth_word_def child_spawn_def spawn_answer_def)
  qed
qed simp

lemma split_spawn: "sword P \<Longrightarrow> sword C \<Longrightarrow> split_words (''spawn '' @ P @ '' '' @ C) = Some [''spawn'', P, C]"
  using words3 [of "''spawn''" P C] by (simp add: split_words_def word_def)

interpretation spawn: spawn_link "child rnd p" "''spawn '' @ P @ '' '' @ C" P "newborn rnd p C" "birth rnd p C"
    "{k. all_live k \<and> room P C k \<and> sword P \<and> fit_name C}"
  for rnd p P C
  by unfold_locales (simp add: child_spawn_spec [OF split_spawn] fit_name_def del: append_Cons append_Nil child.simps)

section \<open>Removal of a subtree\<close>

text \<open>The subtree of the first service with the name: its names, and the tree without it.\<close>

fun sub_names :: "string \<Rightarrow> service \<Rightarrow> string list" and sub_list :: "string \<Rightarrow> service list \<Rightarrow> string list" where
  "sub_names T (Live n sec cn pt ks) = (if n = T then n # names_list ks else sub_list T ks)"
| "sub_names T (Dead n) = []"
| "sub_list T [] = []"
| "sub_list T (k # ks) = (if T \<in> set (names k) then sub_names T k else sub_list T ks)"

fun prune :: "string \<Rightarrow> service \<Rightarrow> service" and prune_list :: "string \<Rightarrow> service list \<Rightarrow> service list" where
  "prune T (Live n sec cn pt ks) = Live n sec (cn - int (length ks) + int (length (prune_list T ks))) pt (prune_list T ks)"
| "prune T (Dead n) = Dead n"
| "prune_list T [] = []"
| "prune_list T (k # ks) = (if T \<in> set (names k) then (if name_of k = T then ks else prune T k # ks)
     else k # prune_list T ks)"

lemma names_prune_aux:
  "all_live t \<Longrightarrow> T \<in> set (names t) \<Longrightarrow> name_of t \<noteq> T \<Longrightarrow>
     \<exists>xs ys. names t = xs @ sub_names T t @ ys \<and> names (prune T t) = xs @ ys \<and> T \<notin> set xs"
  "\<forall>k \<in> set ks. all_live k \<Longrightarrow> T \<in> set (names_list ks) \<Longrightarrow>
     \<exists>xs ys. names_list ks = xs @ sub_list T ks @ ys \<and> names_list (prune_list T ks) = xs @ ys \<and> T \<notin> set xs"
proof (induction T t and T ks rule: prune_prune_list.induct)
  case (1 T n sec cn pt ks)
  then obtain xs ys where "names_list ks = xs @ sub_list T ks @ ys" "names_list (prune_list T ks) = xs @ ys" "T \<notin> set xs"
    by auto
  with 1 show ?case by (intro exI [of _ "n # xs"] exI [of _ ys]) simp
next
  case (4 T k ks)
  show ?case
  proof (cases "T \<in> set (names k)")
    case True
    show ?thesis
    proof (cases "name_of k = T")
      case k: True
      then have "sub_names T k = names k" using 4 by (cases k) auto
      with True k show ?thesis by (intro exI [of _ "[]"] exI [of _ "names_list ks"]) simp
    next
      case False
      with 4 True obtain xs ys where "names k = xs @ sub_names T k @ ys" "names (prune T k) = xs @ ys" "T \<notin> set xs"
        by auto
      with True False show ?thesis by (intro exI [of _ xs] exI [of _ "ys @ names_list ks"]) simp
    qed
  next
    case False
    with 4 obtain xs ys where "names_list ks = xs @ sub_list T ks @ ys" "names_list (prune_list T ks) = xs @ ys" "T \<notin> set xs"
      by auto
    with False show ?thesis by (intro exI [of _ "names k @ xs"] exI [of _ ys]) simp
  qed
qed auto

lemmas names_prune = names_prune_aux(1)

lemma no_subtree:
  "T \<notin> set (names t) \<Longrightarrow> sub_names T t = [] \<and> prune T t = t"
  "T \<notin> set (names_list ks) \<Longrightarrow> sub_list T ks = [] \<and> prune_list T ks = ks"
  by (induction T t and T ks rule: prune_prune_list.induct) auto

lemma sub_names_root: "all_live t \<Longrightarrow> name_of t = T \<Longrightarrow> sub_names T t = names t"
  by (cases t) auto

lemma sub_names_positive: "all_live t \<Longrightarrow> T \<in> set (names t) \<Longrightarrow> sub_names T t \<noteq> []"
  "\<forall>k \<in> set ks. all_live k \<Longrightarrow> T \<in> set (names_list ks) \<Longrightarrow> sub_list T ks \<noteq> []"
proof (induction T t and T ks rule: prune_prune_list.induct)
  case (4 T k ks)
  then show ?case using names_name [of k] by (cases "name_of k = T") (auto simp: sub_names_root)
qed auto

section \<open>A kill command\<close>

text \<open>A name short enough for the messages that are built with it.\<close>

definition kill_name :: "string \<Rightarrow> bool" where
  "kill_name T \<longleftrightarrow> sword T \<and> length T \<le> 100"

lemma split_words_kill:
  "kill_name T \<Longrightarrow> split_words (''kill '' @ T @ '' Y'') = Some [''kill'', T, ''Y'']"
  using words3 [of "''kill''" T "''Y''"] by (simp add: split_words_def kill_name_def word_def)

text \<open>A message that does not carry the mark \<open>N\<close> kills every service it reaches.\<close>

definition deadly :: "string \<Rightarrow> string \<Rightarrow> bool" where
  "deadly T msg \<longleftrightarrow> (\<exists>q r. split_words msg = Some (''kill'' # T # q # r) \<and> q \<noteq> ''N'' \<and> length q < 3)"

lemma deadly_Y: "split_words msg = Some [''kill'', T, ''Y''] \<Longrightarrow> deadly T msg"
  by (simp add: deadly_def)

lemma child_die_spec:
  assumes T: "kill_name T"
  shows "all_live t \<Longrightarrow> deadly T msg \<Longrightarrow>
    child rnd p msg t = Some (intTostr (int (length (names t))), Dead (name_of t), [])"
proof (induction t arbitrary: msg)
  case (Live n sec cn pt ks)
  have loop: "ask_die (child rnd p) m js num = Some (num + int (length (names_list js)), [])"
    if "set js \<subseteq> set ks" "deadly T m" for m js num
    using that
  proof (induction js arbitrary: num)
    case (Cons k js)
    then have "child rnd p m k = Some (intTostr (int (length (names k))), Dead (name_of k), [])"
      using Live.IH Live.prems by auto
    with Cons show ?case by simp
  qed simp
  have m: "deadly T (''kill '' @ T @ '' Y'')" by (rule deadly_Y [OF split_words_kill [OF T]])
  have fits: "strcpy MAX_CMD_LEN (''kill '' @ T @ '' Y'') = Some (''kill '' @ T @ '' Y'')"
    using T by (simp add: strcpy_def MAX_CMD_LEN_def kill_name_def)
  obtain q r where msg: "split_words msg = Some (''kill'' # T # q # r)" "q \<noteq> ''N''" "length q < 3"
    using Live.prems(2) by (auto simp: deadly_def)
  then have "strcpy 3 q = Some q" by (simp add: strcpy_def)
  with fits msg(2) loop [OF subset_refl m, of 0] loop [OF subset_refl Live.prems(2), of 0] Live.prems(1) show ?case
    by (auto simp: msg(1) nth_word_def child_kill_def add.commute)
qed simp

lemma ask_die_spec:
  assumes "kill_name T" and "\<And>k. k \<in> set ks \<Longrightarrow> all_live k" and "deadly T m"
  shows "ask_die (child rnd p) m ks num = Some (num + int (length (names_list ks)), [])"
  using assms(2) by (induction ks arbitrary: num) (simp_all add: child_die_spec [OF assms(1) _ assms(3)])

text \<open>The contract of a child for a kill command, and the loops of a service and of the manager.\<close>

definition kill_answer :: "string \<Rightarrow> service \<Rightarrow> string reply" where
  "kill_answer T t = Some (intTostr (int (length (sub_names T t))), if name_of t = T then Dead T else prune T t,
      map (\<lambda>n. received n (''kill '' @ T)) (visited T (names t)))"

fun kill_until :: "(string \<Rightarrow> service \<Rightarrow> string reply) \<Rightarrow> string \<Rightarrow> string \<Rightarrow> service list \<Rightarrow> int \<Rightarrow> string
    \<Rightarrow> (int \<times> string \<times> bool \<times> service list \<times> string list) option" where
  "kill_until rpc m target [] num reply = Some (num, reply, False, [], [])"
| "kill_until rpc m target (k # ks) num reply = do {
     (reply, k', out) \<leftarrow> rpc m k;
     num \<leftarrow> Some (num + atoi reply);
     (if num > 0 then Some (num, reply, name_of k = target, k' # ks, out)
      else do {
        (num, reply, hit, ks', out') \<leftarrow> kill_until rpc m target ks num reply;
        Some (num, reply, hit, k' # ks', out @ out') }) }"

locale kill_link =
  fixes rpc :: "string \<Rightarrow> service \<Rightarrow> string reply" and msg T :: string and S :: "service set"
  assumes live: "k \<in> S \<Longrightarrow> all_live k"
    and answer: "k \<in> S \<Longrightarrow> rpc msg k = kill_answer T k"
begin

lemma answer_cases:
  assumes "k \<in> S"
  shows "T \<in> set (names k) \<Longrightarrow> 0 < length (sub_names T k)"
    and "T \<notin> set (names k) \<Longrightarrow> sub_names T k = [] \<and> prune T k = k \<and> name_of k \<noteq> T"
  using sub_names_positive(1) no_subtree(1) names_name live [OF assms] by fastforce+

text \<open>The loop of the manager ends with the child that was changed or is dead.\<close>

lemma kill_until_spec:
  "set ks \<subseteq> S \<Longrightarrow> \<exists>js hit r'. kill_until rpc msg T ks 0 r = Some (int (length (sub_list T ks)), r', hit, js,
      map (\<lambda>n. received n (''kill '' @ T)) (visited T (names_list ks))) \<and>
      (T \<in> set (names_list ks) \<longrightarrow> atoi r' = int (length (sub_list T ks))) \<and>
      (if hit then deleteNode T js c else (js, c)) =
        (prune_list T ks, c - int (length ks) + int (length (prune_list T ks)))"
proof (induction ks arbitrary: c r)
  case (Cons k ks)
  then have k: "k \<in> S" by simp
  show ?case
  proof (cases "T \<in> set (names k)")
    case True
    with answer_cases(1) [OF k] answer [OF k] show ?thesis by (auto simp: visited_append kill_answer_def)
  next
    case False
    note none = answer_cases(2) [OF k False]
    have "set ks \<subseteq> S" using Cons.prems by simp
    from Cons.IH [OF this, of "intTostr 0" c] obtain js hit r' where
      IH: "kill_until rpc msg T ks 0 (intTostr 0) = Some (int (length (sub_list T ks)), r', hit, js,
        map (\<lambda>n. received n (''kill '' @ T)) (visited T (names_list ks)))"
      "T \<in> set (names_list ks) \<longrightarrow> atoi r' = int (length (sub_list T ks))"
      "(if hit then deleteNode T js c else (js, c)) =
        (prune_list T ks, c - int (length ks) + int (length (prune_list T ks)))"
      by blast
    from False answer [OF k] none IH show ?thesis
      by (intro exI [of _ "k # js"] exI [of _ hit] exI [of _ r'])
        (auto simp: visited_append visited_all kill_answer_def split: if_splits)
  qed
qed (auto intro: exI [of _ False])

text \<open>The loop of a service does the same.\<close>

lemma ask_kill_until:
  "set ks \<subseteq> S \<Longrightarrow> ask_kill rpc msg T ks 0 =
     map_option (\<lambda>(num, r, hit, js, out). (num, hit, js, out)) (kill_until rpc msg T ks 0 r)"
proof (induction ks arbitrary: r)
  case (Cons k ks)
  then have k: "k \<in> S" and ks: "set ks \<subseteq> S" by simp_all
  show ?case
  proof (cases "T \<in> set (names k)")
    case True
    with answer_cases(1) [OF k] answer [OF k] show ?thesis by (auto simp: kill_answer_def)
  next
    case False
    with answer_cases(2) [OF k] answer [OF k] Cons.IH [OF ks, of "intTostr 0"] show ?thesis
      by (cases "kill_until rpc msg T ks 0 (intTostr 0)") (auto simp: kill_answer_def)
  qed
qed simp

end

lemma child_kill_spec:
  assumes T: "kill_name T" and msg: "split_words msg = Some [''kill'', T, ''N'']"
  shows "all_live t \<Longrightarrow> child rnd p msg t = kill_answer T t"
proof (induction t)
  case (Live n sec cn pt ks)
  have "kill_link (child rnd p) msg T (set ks)" using Live by unfold_locales auto
  note loops = kill_link.kill_until_spec [OF this subset_refl] kill_link.ask_kill_until [OF this subset_refl]
  obtain ks' hit where L: "ask_kill (child rnd p) msg T ks 0 = Some (int (length (sub_list T ks)), hit, ks',
      map (\<lambda>n. received n (''kill '' @ T)) (visited T (names_list ks)))"
    "(if hit then deleteNode T ks' cn else (ks', cn)) =
        (prune_list T ks, cn - int (length ks) + int (length (prune_list T ks)))"
    using loops(1) [of "''0''" cn] loops(2) [of "''0''"] by auto
  have "all_live k" if "k \<in> set ks" for k using that Live.prems by simp
  then have "ask_die (child rnd p) (''kill '' @ T @ '' Y'') ks 0 = Some (int (length (names_list ks)), [])"
    using ask_die_spec [OF T _ deadly_Y [OF split_words_kill [OF T]]] by fastforce
  moreover have "strcpy MAX_CMD_LEN (''kill '' @ T @ '' Y'') = Some (''kill '' @ T @ '' Y'')"
    using T by (simp add: strcpy_def MAX_CMD_LEN_def kill_name_def)
  ultimately have own: "n = T \<Longrightarrow> child rnd p msg (Live n sec cn pt ks) =
      Some (intTostr (1 + int (length (names_list ks))), Dead T, [received T (''kill '' @ T)])"
    using Live.prems by (simp add: msg nth_word_def child_kill_def strcpy_def add.commute)
  show ?case
  proof (cases "n = T")
    case True
    then show ?thesis using own by (simp add: kill_answer_def)
  next
    case False
    then show ?thesis using L Live.prems
      by (auto simp: msg nth_word_def child_kill_def strcpy_def kill_answer_def split: if_splits)
  qed
qed simp

lemma split_kill_N: "sword T \<Longrightarrow> split_words ((''kill '' @ T) @ '' N'') = Some [''kill'', T, ''N'']"
  using words3 [of "''kill''" T "''N''"] by (simp add: split_words_def word_def)

interpretation kill: kill_link "child rnd p" "(''kill '' @ T) @ '' N''" T "{k. all_live k \<and> kill_name T}"
  for rnd p T
  by unfold_locales
    (simp_all add: child_kill_spec [OF _ split_kill_N] kill_name_def del: append_Cons append_Nil append_assoc child.simps)

end
