(* ===== verification/Svc_Manager.thy ===== *)
theory Svc_Manager
  imports Svc_Spec
begin

text \<open>
  The manager, the root of the tree: it reads a line of the input, splits it into words and
  carries the command out with its children. \<open>manager_cmd\<close> is a turn of its loop; for \<open>exchange\<close>
  it ends when the request has reached the services, the rest is in the theory of the exchange.
\<close>

section \<open>Reading a line\<close>

text \<open>At most 127 characters are kept; the character that ends the loop is lost.\<close>

fun read_cmd :: "nat \<Rightarrow> string \<Rightarrow> string \<times> string" where
  "read_cmd m [] = ([], [])"
| "read_cmd m (c # cs) = (if m < MAX_CMD_LEN - 1 \<and> c \<noteq> CHR 0x0A
     then (case read_cmd (m + 1) cs of (w, r) \<Rightarrow> (c # w, r)) else ([], cs))"

lemma read_cmd_line:
  "CHR 0x0A \<notin> set l \<Longrightarrow> m + length l < MAX_CMD_LEN \<Longrightarrow> read_cmd m (l @ CHR 0x0A # rest) = (l, rest)"
  by (induction l arbitrary: m) auto

section \<open>The commands\<close>

definition manager_spawn :: "(nat \<Rightarrow> nat) \<Rightarrow> nat \<Rightarrow> string \<Rightarrow> string list
    \<Rightarrow> string \<Rightarrow> 64 word \<Rightarrow> int \<Rightarrow> party \<Rightarrow> service list \<Rightarrow> (service \<times> string list) option" where
  "manager_spawn rnd p command ws n sec cn pt ks = do {
     a1 \<leftarrow> nth_word ws 1;
     (if a1 = n then do {
        a2 \<leftarrow> nth_word ws 2;
        (reply, ks', out) \<leftarrow> spawn_child rnd p a2 ks;
        Some (Live n sec (cn + 1) pt ks', out @ (if reply = ''Y'' then [spawned n a2]
          else [''kk'' @ reply @ ''kk'', ''NO RECIEVE: SPAWN '' @ a1 @ '' '' @ a2])) }
      else do {
        (reply, ks', out) \<leftarrow> ask_spawn (child rnd p) command ks ''N'';
        (if reply = ''N'' then Some (Live n sec cn pt ks', out @ [not_exist a1])
         else if reply = ''Y'' then do {
           a2 \<leftarrow> nth_word ws 2;
           Some (Live n sec cn pt ks', out @ [spawned a1 a2]) }
         else Some (Live n sec cn pt ks', out @ [''NOOO: kk'' @ reply @ ''kk ''])) }) }"

definition manager_kill :: "(nat \<Rightarrow> nat) \<Rightarrow> nat \<Rightarrow> string \<Rightarrow> string list
    \<Rightarrow> string \<Rightarrow> 64 word \<Rightarrow> int \<Rightarrow> party \<Rightarrow> service list \<Rightarrow> (service \<times> string list) option" where
  "manager_kill rnd p command ws n sec cn pt ks = do {
     message \<leftarrow> strcpy MAX_CMD_LEN (command @ '' N'');
     a1 \<leftarrow> nth_word ws 1;
     (if a1 = n then do {
        m \<leftarrow> strcpy MAX_CMD_LEN (''kill '' @ a1 @ ''  Y'');
        (num, out) \<leftarrow> ask_die (child rnd p) m ks 0;
        Some (Dead n, out @ [killed n num]) }
      else do {
        (num, reply, hit, ks', out) \<leftarrow> kill_until (child rnd p) message a1 ks 0 ''0'';
        (ks', cn') \<leftarrow> Some (if hit then deleteNode a1 ks' cn else (ks', cn));
        Some (Live n sec cn' pt ks', out @ [if num = 0 then not_exist a1 else killed a1 (atoi reply - 1)]) }) }"

definition manager_exchange :: "(nat \<Rightarrow> nat) \<Rightarrow> nat \<Rightarrow> string list
    \<Rightarrow> string \<Rightarrow> 64 word \<Rightarrow> int \<Rightarrow> party \<Rightarrow> service list \<Rightarrow> (service \<times> string list) option" where
  "manager_exchange rnd p ws n sec cn pt ks = do {
     a1 \<leftarrow> nth_word ws 1;
     a2 \<leftarrow> nth_word ws 2;
     q5 \<leftarrow> Some (''exchange '' @ a1 @ '' '' @ a2 @ '' '');
     (gnum, ks', out) \<leftarrow> ask_exchange (child rnd p) q5 ks (if a1 = n \<or> a2 = n then 1 else 0);
     Some (Live n sec cn (if a1 = n \<or> a2 = n then First else pt) ks', out) }"

text \<open>A line without words makes the manager read the pointer before the first of its array.\<close>

fun manager_cmd :: "(nat \<Rightarrow> nat) \<Rightarrow> nat \<Rightarrow> string \<Rightarrow> service \<Rightarrow> (service \<times> string list) option" where
  "manager_cmd rnd p command (Dead n) = None"
| "manager_cmd rnd p command (Live n sec cn pt ks) = do {
     ws \<leftarrow> split_words command;
     a0 \<leftarrow> nth_word ws 0;
     (t, out) \<leftarrow> (if a0 = ''spawn'' then manager_spawn rnd p command ws n sec cn pt ks
       else if a0 = ''kill'' then manager_kill rnd p command ws n sec cn pt ks
       else if a0 = ''exchange'' then manager_exchange rnd p ws n sec cn pt ks
       else Some (Live n sec cn pt ks, []));
     Some (t, received n command # out) }"

text \<open>The manager at its start.\<close>

definition manager_start :: "(nat \<Rightarrow> nat) \<Rightarrow> nat \<Rightarrow> service \<times> string list" where
  "manager_start rnd p = (Live ''Manager'' (of_nat (rnd p)) 0 Ready [], [started ''Manager'' p (of_nat (rnd p))])"

section \<open>What the commands do\<close>

lemma split_kill: "sword T \<Longrightarrow> split_words (''kill '' @ T) = Some [''kill'', T]"
  using words2 [of "''kill''" T] by (simp add: split_words_def word_def)

lemma tokens_blank_word: "sword w \<Longrightarrow> tokens {CHR '' ''} (w @ ''  Y'') = [w, ''Y'']"
  using tokens_word [of "{CHR '' ''}" w "CHR '' ''" "'' Y''"] tokens_skip [of "CHR '' ''" "{CHR '' ''}" "''Y''"]
    tokens_word_end [of "{CHR '' ''}" "''Y''"]
  by (simp add: word_def)

text \<open>The two spaces that the manager writes are one separator for the children.\<close>

lemma split_kill_Y: "sword T \<Longrightarrow> split_words (''kill '' @ T @ ''  Y'') = Some [''kill'', T, ''Y'']"
  using tokens_word [of "{CHR '' ''}" "''kill''" "CHR '' ''" "T @ ''  Y''"] tokens_blank_word [of T]
  by (simp add: split_words_def word_def)

lemma manager_spawn_spec:
  assumes P: "sword P" and C: "fit_name C" and t: "all_live t" and new: "room P C t"
    and cmd: "command = ''spawn '' @ P @ '' '' @ C"
  shows "manager_cmd rnd p command t = Some
    (if P \<in> set (names t)
     then (add_under P (newborn rnd p C) t,
       map (\<lambda>n. received n command) (visited P (names t)) @ [birth rnd p C, spawned P C])
     else (t, map (\<lambda>n. received n command) (names t) @ [not_exist P]))"
proof -
  have split: "split_words command = Some [''spawn'', P, C]"
    unfolding cmd by (rule split_spawn [OF P]) (use C in \<open>simp add: fit_name_def\<close>)
  obtain n sec cn pt ks where tree: "t = Live n sec cn pt ks" using t by (cases t) auto
  show ?thesis
  proof (cases "n = P")
    case True
    with new spawn_child_spec [OF C] show ?thesis unfolding tree by (simp add: split nth_word_def manager_spawn_def)
  next
    case False
    have "set (asked P ks) \<subseteq> {k. all_live k \<and> room P C k \<and> sword P \<and> fit_name C}"
      using t new False P C asked_subset [of P ks] unfolding tree by (auto intro: asked_room)
    note loop = spawn.ask_spawn_spec [OF this, of rnd p "''N''", folded cmd]
    with False show ?thesis unfolding tree by (simp add: split nth_word_def manager_spawn_def)
  qed
qed

lemma manager_kill_spec:
  assumes T: "kill_name T" and t: "all_live t" and cmd: "command = ''kill '' @ T"
  shows "manager_cmd rnd p command t = Some
    (if name_of t = T then (Dead T, [received T command, killed T (int (length (names t)) - 1)])
     else if T \<in> set (names t)
     then (prune T t, map (\<lambda>n. received n command) (visited T (names t)) @ [killed T (int (length (sub_names T t)) - 1)])
     else (t, map (\<lambda>n. received n command) (names t) @ [not_exist T]))"
proof -
  have w: "sword T" "length T \<le> 100" using T by (simp_all add: kill_name_def)
  have split: "split_words command = Some [''kill'', T]" unfolding cmd by (rule split_kill [OF w(1)])
  have fits: "strcpy MAX_CMD_LEN (command @ '' N'') = Some (command @ '' N'')"
    "strcpy MAX_CMD_LEN (''kill '' @ T @ ''  Y'') = Some (''kill '' @ T @ ''  Y'')"
    using w(2) by (simp_all add: cmd strcpy_def MAX_CMD_LEN_def)
  obtain n sec cn pt ks where tree: "t = Live n sec cn pt ks" using t by (cases t) auto
  have ks: "\<And>k. k \<in> set ks \<Longrightarrow> all_live k" using t tree by auto
  have die: "ask_die (child rnd p) (''kill '' @ T @ ''  Y'') ks 0 = Some (int (length (names_list ks)), [])"
    using ask_die_spec [OF T _ deadly_Y [OF split_kill_Y [OF w(1)]], where ks = ks and rnd = rnd and p = p and num = 0] ks by simp
  obtain js hit r' where L: "kill_until (child rnd p) (command @ '' N'') T ks 0 ''0'' =
      Some (int (length (sub_list T ks)), r', hit, js, map (\<lambda>n. received n command) (visited T (names_list ks)))"
    "T \<in> set (names_list ks) \<longrightarrow> atoi r' = int (length (sub_list T ks))"
    "(if hit then deleteNode T js cn else (js, cn)) = (prune_list T ks, cn - int (length ks) + int (length (prune_list T ks)))"
    using kill.kill_until_spec [of ks T rnd p "''0''" cn] T ks unfolding cmd by blast
  note [simp] = split nth_word_def manager_kill_def fits
  show ?thesis
  proof (cases "n = T")
    case True
    with die fits(2) show ?thesis unfolding tree by simp
  next
    case n: False
    show ?thesis
    proof (cases "T \<in> set (names_list ks)")
      case True
      then have "sub_list T ks \<noteq> []" using sub_names_positive(2) ks by blast
      with n True L show ?thesis unfolding tree by (auto simp: case_prod_unfold prod_eq_iff split: if_splits)
    next
      case False
      with n no_subtree(2) [OF False] L show ?thesis
        unfolding tree by (auto simp: case_prod_unfold prod_eq_iff visited_all split: if_splits)
    qed
  qed
qed

end
