(* ===== verification/Svc_Request.thy ===== *)
theory Svc_Request
  imports Svc_Manager
begin

text \<open>
  The request of an exchange on its way through the tree: which services it visits, which answer it
  brings back, and that it finds the two parties in the order of the visit.
\<close>

section \<open>The parties and the visited services\<close>

definition hits :: "string \<Rightarrow> string \<Rightarrow> string list \<Rightarrow> string list" where
  "hits A B ns = filter (\<lambda>n. n = A \<or> n = B) ns"

text \<open>All services up to the party that makes the number of parties two, when \<open>g\<close> are found before.\<close>

fun reached :: "string \<Rightarrow> string \<Rightarrow> nat \<Rightarrow> string list \<Rightarrow> string list" where
  "reached A B g [] = []"
| "reached A B g (n # ns) = n # (if n = A \<or> n = B
     then (if g = 0 then reached A B 1 ns else []) else reached A B g ns)"

text \<open>The parts the parties take.\<close>

fun parts :: "string \<Rightarrow> string \<Rightarrow> nat \<Rightarrow> string list \<Rightarrow> (string \<times> party) list" where
  "parts A B g [] = []"
| "parts A B g (n # ns) = (if n = A \<or> n = B
     then (n, if g = 0 then First else Second) # parts A B (g + 1) ns else parts A B g ns)"

primrec paint :: "(string \<Rightarrow> party option) \<Rightarrow> service \<Rightarrow> service" where
  "paint m (Live n sec cn pt ks) = Live n sec cn (case m n of None \<Rightarrow> pt | Some q \<Rightarrow> q) (map (paint m) ks)"
| "paint m (Dead n) = Dead n"

lemma hits_append [simp]: "hits A B (xs @ ys) = hits A B xs @ hits A B ys"
  by (simp add: hits_def)

lemma hits_Cons [simp]: "hits A B [] = []" "hits A B (n # ns) = (if n = A \<or> n = B then [n] else []) @ hits A B ns"
  by (simp_all add: hits_def)

lemma set_hits: "set (hits A B ns) = set ns \<inter> {A, B}"
  by (auto simp: hits_def)

lemma reached_append:
  "g < 2 \<Longrightarrow> g + length (hits A B xs) < 2 \<Longrightarrow> reached A B g (xs @ ys) = xs @ reached A B (g + length (hits A B xs)) ys"
  "g < 2 \<Longrightarrow> \<not> g + length (hits A B xs) < 2 \<Longrightarrow> reached A B g (xs @ ys) = reached A B g xs"
  by (induction xs arbitrary: g) auto

lemma reached_all: "g < 2 \<Longrightarrow> g + length (hits A B xs) < 2 \<Longrightarrow> reached A B g xs = xs"
  using reached_append(1) [of g A B xs "[]"] by simp

lemma parts_append: "parts A B g (xs @ ys) = parts A B g xs @ parts A B (g + length (hits A B xs)) ys"
  by (induction xs arbitrary: g) auto

lemma parts_dom: "fst ` set (parts A B g ns) = set ns \<inter> {A, B}"
  by (induction ns arbitrary: g) auto

lemma parts_none: "map_of (parts A B g ns) n = None \<longleftrightarrow> n \<notin> set ns \<or> n \<noteq> A \<and> n \<noteq> B"
  using parts_dom [of A B g ns] by (auto simp: map_of_eq_None_iff)

lemma parts_side:
  "n \<notin> set ys \<Longrightarrow> map_of (parts A B g (xs @ ys)) n = map_of (parts A B g xs) n"
  "n \<notin> set xs \<Longrightarrow> map_of (parts A B g (xs @ ys)) n = map_of (parts A B (g + length (hits A B xs)) ys) n"
proof -
  show "n \<notin> set ys \<Longrightarrow> map_of (parts A B g (xs @ ys)) n = map_of (parts A B g xs) n"
    using parts_none [of A B "g + length (hits A B xs)" ys n] by (simp add: parts_append map_add_def split: option.split)
  show "n \<notin> set xs \<Longrightarrow> map_of (parts A B g (xs @ ys)) n = map_of (parts A B (g + length (hits A B xs)) ys) n"
    using parts_none [of A B g xs n] by (simp add: parts_append map_add_def split: option.split)
qed

lemma paint_cong: "(\<And>n. n \<in> set (names t) \<Longrightarrow> m n = m' n) \<Longrightarrow> paint m t = paint m' t"
  "(\<And>n. n \<in> set (names_list ks) \<Longrightarrow> m n = m' n) \<Longrightarrow> map (paint m) ks = map (paint m') ks"
  by (induction t and ks rule: names_names_list.induct) auto

lemma paint_none: "(\<And>n. n \<in> set (names t) \<Longrightarrow> m n = None) \<Longrightarrow> paint m t = t"
  "(\<And>n. n \<in> set (names_list ks) \<Longrightarrow> m n = None) \<Longrightarrow> map (paint m) ks = ks"
  by (induction t and ks rule: names_names_list.induct) auto


section \<open>The request\<close>

text \<open>Names short enough for all buffers of an exchange.\<close>

definition party_name :: "string \<Rightarrow> bool" where
  "party_name A \<longleftrightarrow> sword A \<and> length A < MAX_SERVICE_NAME_LEN"

definition request_text :: "string \<Rightarrow> string \<Rightarrow> string" where
  "request_text A B = ''exchange '' @ A @ '' '' @ B"

lemma split_request:
  assumes "party_name A" and "party_name B"
  shows "split_words (request_text A B @ CHR '' '' # intTostr g) = Some [''exchange'', A, B, intTostr g]"
  using words4 [of "''exchange''" A B "intTostr g"] assms intTostr_word [of g]
  by (simp add: split_words_def party_name_def request_text_def word_def)

lemma request_fits:
  assumes "party_name A" and "party_name B" and "g < 2"
  shows "strcpy MAX_CMD_LEN (request_text A B @ CHR '' '' # intTostr (int g)) = Some (request_text A B @ CHR '' '' # intTostr (int g))"
  using assms intTostr_length [of "int g"]
  by (simp add: strcpy_def MAX_CMD_LEN_def party_name_def request_text_def MAX_SERVICE_NAME_LEN_def)

definition after_request :: "string \<Rightarrow> string \<Rightarrow> nat \<Rightarrow> service \<Rightarrow> string reply" where
  "after_request A B g t = Some (intTostr (int (g + length (hits A B (names t)))),
     paint (map_of (parts A B g (names t))) t,
     map (\<lambda>n. received n (request_text A B)) (reached A B g (names t)))"

text \<open>The loops over the children, for any way to ask them that answers like this.\<close>

locale request_link =
  fixes rpc :: "string \<Rightarrow> service \<Rightarrow> string reply" and A B :: string and S :: "service set"
  assumes parties: "k \<in> S \<Longrightarrow> party_name A \<and> party_name B"
    and answer: "k \<in> S \<Longrightarrow> g < 2 \<Longrightarrow> g + length (hits A B (names k)) \<le> 2 \<Longrightarrow>
      rpc (request_text A B @ '' '' @ intTostr (int g)) k = after_request A B g k"
begin

lemma fits: "k \<in> S \<Longrightarrow> g < 2 \<Longrightarrow>
    strcpy MAX_CMD_LEN (request_text A B @ CHR '' '' # intTostr (int g)) = Some (request_text A B @ CHR '' '' # intTostr (int g))"
  using parties request_fits by blast

lemma ask_exchange_spec:
  assumes "set ks \<subseteq> S" and "distinct (names_list ks)" and "g < 2" and "g + length (hits A B (names_list ks)) \<le> 2"
  shows "ask_exchange rpc (request_text A B @ '' '') ks (int g) = Some
    (int (g + length (hits A B (names_list ks))), map (paint (map_of (parts A B g (names_list ks)))) ks,
     map (\<lambda>n. received n (request_text A B)) (reached A B g (names_list ks)))"
  using assms
proof (induction ks arbitrary: g)
  case (Cons k ks)
  let ?h = "length (hits A B (names k))" and ?m = "map_of (parts A B g (names_list (k # ks)))"
  have dist: "set (names k) \<inter> set (names_list ks) = {}" "distinct (names_list ks)" using Cons.prems by auto
  have rpc: "rpc (request_text A B @ '' '' @ intTostr (int g)) k = after_request A B g k"
    using Cons.prems by (intro answer) auto
  have k: "k \<in> S" using Cons.prems(1) by simp
  have pk: "paint ?m k = paint (map_of (parts A B g (names k))) k"
    unfolding names_list.simps using dist(1) by (intro paint_cong(1) parts_side(1)) blast
  have pks: "map (paint ?m) ks = map (paint (map_of (parts A B (g + ?h) (names_list ks)))) ks"
    unfolding names_list.simps using dist(1) by (intro paint_cong(2) parts_side(2)) blast
  show ?case
  proof (cases "g + ?h = 2")
    case True
    have "length (hits A B (names_list ks)) \<le> 0"
      using True Cons.prems(4) unfolding names_list.simps hits_append length_append by linarith
    then have none: "hits A B (names_list ks) = []" by simp
    then have "set (names_list ks) \<inter> {A, B} = {}" by (metis set_hits list.set(1))
    then have "map (paint (map_of (parts A B (g + ?h) (names_list ks)))) ks = ks"
      by (intro paint_none(2)) (auto simp: parts_none)
    then have "map (paint ?m) ks = ks" using pks by metis
    with True none rpc pk Cons.prems(3) show ?thesis
      by (simp add: fits [OF k] after_request_def reached_append(2))
  next
    case False
    then have g: "g + ?h < 2" using Cons.prems(4) by simp
    have "ask_exchange rpc (request_text A B @ '' '') ks (int (g + ?h)) = Some
      (int (g + ?h + length (hits A B (names_list ks))), map (paint (map_of (parts A B (g + ?h) (names_list ks)))) ks,
       map (\<lambda>n. received n (request_text A B)) (reached A B (g + ?h) (names_list ks)))"
      using Cons.prems g dist(2) by (intro Cons.IH) auto
    with False g rpc pk pks Cons.prems(3) show ?thesis
      by (simp add: fits [OF k] after_request_def reached_append(1) add.assoc reached_all)
  qed
qed simp

lemma ask_second_spec:
  assumes "set ks \<subseteq> S" and "\<And>k. k \<in> set ks \<Longrightarrow> length (hits A B (names k)) \<le> 1"
  shows "ask_second rpc (request_text A B @ '' '' @ intTostr (int 1)) ks (int 1) =
    ask_exchange rpc (request_text A B @ '' '') ks (int 1)"
  using assms
proof (induction ks)
  case (Cons k ks)
  then have k: "k \<in> S" by simp
  have "hits A B (names k) = [] \<or> length (hits A B (names k)) = 1"
    using Cons.prems(2) [of k] by (cases "hits A B (names k)") auto
  with Cons fits [OF k, of 1] answer [OF k, of 1] show ?case
    by (auto simp: after_request_def)
qed simp

end

lemma hits_part: "k \<in> set ks \<Longrightarrow> length (hits A B (names k)) \<le> length (hits A B (names_list ks))"
  by (induction ks) auto

lemma distinct_part:
  assumes "k \<in> set ks" and "distinct (names_list ks)"
  shows "distinct (names k)"
  using assms by (induction ks) auto

lemma child_request:
  assumes "party_name A" and "party_name B" and "pt \<noteq> Behind"
  shows "child rnd p (request_text A B @ CHR '' '' # intTostr g) (Live n sec cn pt ks) =
    (if n = A \<or> n = B then
       (if g + 1 = 2 then Some (intTostr 2, Live n sec cn Second ks, [received n (request_text A B)])
        else do {
          m \<leftarrow> strcpy MAX_CMD_LEN (request_text A B @ CHR '' '' # intTostr (g + 1));
          (gnum, ks', out) \<leftarrow> ask_second (child rnd p) m ks (g + 1);
          Some (intTostr gnum, Live n sec cn First ks', received n (request_text A B) # out) })
     else do {
       (gnum, ks', out) \<leftarrow> ask_exchange (child rnd p) (request_text A B @ '' '') ks g;
       Some (intTostr gnum, Live n sec cn pt ks', received n (request_text A B) # out) })"
proof -
  have "child_exchange f [''exchange'', A, B, c] n sec cn pt ks =
      (if n = A \<or> n = B then exchange_target1 f (request_text A B) c n sec cn pt ks
       else exchange_relay f (request_text A B) c n sec cn pt ks)" for f c
    unfolding request_text_def by (simp add: nth_word_def child_exchange_alt)
  then show ?thesis using assms(3) by (simp add: split_request [OF assms(1,2)] nth_word_def exchange_branches)
qed

lemma child_exchange_spec:
  assumes AB: "party_name A" "party_name B"
  shows "all_live t \<Longrightarrow> distinct (names t) \<Longrightarrow> g < 2 \<Longrightarrow> g + length (hits A B (names t)) \<le> 2 \<Longrightarrow>
    child rnd p (request_text A B @ '' '' @ intTostr (int g)) t = after_request A B g t"
proof (induction t arbitrary: g)
  case (Live n sec cn pt ks)
  have awake: "pt \<noteq> Behind" using Live.prems(1) by simp
  have dist: "n \<notin> set (names_list ks)" "distinct (names_list ks)" using Live.prems by auto
  have sub: "distinct (names k) \<and> all_live k" if "k \<in> set ks" for k
    using distinct_part [OF that dist(2)] Live.prems(1) that by simp
  have IH: "child rnd p (request_text A B @ '' '' @ intTostr (int h)) k = after_request A B h k"
    if "k \<in> set ks" "h < 2" "h + length (hits A B (names k)) \<le> 2" for k h
    using Live.IH [OF that(1), of h] sub [OF that(1)] that by simp
  have link: "request_link (child rnd p) A B (set ks)"
    using AB IH by unfold_locales auto
  note ask = request_link.ask_exchange_spec [OF link subset_refl dist(2)]
  note fits = request_fits [OF AB]
  show ?case
  proof (cases "n = A \<or> n = B")
    case no: False
    then have "map_of (parts A B g (names_list ks)) n = None" by (simp add: parts_none)
    with no show ?thesis
      using Live.prems ask [of g]
      by (simp add: child_request [OF AB awake] after_request_def del: child.simps)
  next
    case hit: True
    show ?thesis
    proof (cases "g = 0")
      case False
      then have one: "g = 1" using Live.prems(3) by simp
      have "length (hits A B (names (Live n sec cn pt ks))) = 1 + length (hits A B (names_list ks))" using hit by simp
      then have "length (hits A B (names_list ks)) = 0" using Live.prems(4) one by linarith
      with one have g: "g = 1" "hits A B (names_list ks) = []" by simp_all
      then have "set (names_list ks) \<inter> {A, B} = {}" by (metis set_hits list.set(1))
      then have "map (paint (map_of (parts A B 1 (n # names_list ks)))) ks = ks"
        using dist(1) by (intro paint_none(2)) (auto simp: parts_none)
      with g hit show ?thesis
        by (simp add: child_request [OF AB awake] after_request_def parts_none del: child.simps)
    next
      case True
      have few: "length (hits A B (names_list ks)) \<le> 1" using Live.prems(4) hit by auto
      then have "length (hits A B (names k)) \<le> 1" if "k \<in> set ks" for k
        using hits_part [OF that, of A B] by linarith
      then have "ask_second (child rnd p) (request_text A B @ '' '' @ intTostr (int 1)) ks (int 1) =
          ask_exchange (child rnd p) (request_text A B @ '' '') ks (int 1)"
        by (intro request_link.ask_second_spec [OF link subset_refl]) simp
      moreover have "map (paint (map_of (parts A B 0 (n # names_list ks)))) ks =
          map (paint (map_of (parts A B 1 (names_list ks)))) ks"
        using dist(1) hit by (intro paint_cong(2)) auto
      ultimately show ?thesis
        using True hit few ask [of 1] fits [of 1]
        by (simp add: child_request [OF AB awake] after_request_def parts_none del: child.simps)
    qed
  qed
qed simp

interpretation request: request_link "child rnd p" A B
    "{k. all_live k \<and> distinct (names k) \<and> party_name A \<and> party_name B}" for rnd p A B
  by unfold_locales (simp_all add: child_exchange_spec del: append_Cons append_Nil child.simps)

end
