(* ===== verification/Svc_Exchange.thy ===== *)
theory Svc_Exchange
  imports Svc_Request "HOL-Library.Multiset"
begin

text \<open>
  The second half of an exchange: the two parties pass their secrets through two named pipes while
  the manager waits, in any interleaving. The first party is the one the request visited first; it
  reads before it writes. To open a pipe is two actions, since it waits for the other end; a write
  without a reader, a read at the end of the file and an attempt to open a pipe that is
  removed are actions that cannot be done.
\<close>

section \<open>Pipes and actions\<close>

record named_pipe =
  reader_seen :: bool
  reader :: bool
  writer_seen :: bool
  writer :: bool
  buffer :: "string option"

datatype chan = To_first | To_second

datatype act =
    Wait_files | Open_rd chan | Wait_writer chan | Read chan | Close_rd chan
  | Open_wr chan | Wait_reader chan | Write chan | Close_wr chan
  | Acquire | Unlink party | Wait_gone | Remove_fifos | Announce string string

record endpoint =
  me :: string
  peer :: string
  key :: "64 word"
  tm :: "string option"

record shared =
  pipe :: "chan \<Rightarrow> named_pipe"
  file_first :: bool
  file_second :: bool
  fifos :: bool
  lines :: "string list"

text \<open>A secret passes as text: it is narrowed to an \<open>int\<close> for \<open>intTostr\<close> and widened from \<open>atoi\<close>.\<close>

definition to_text :: "64 word \<Rightarrow> string" where
  "to_text s = intTostr (sint (ucast s :: 32 word))"

definition from_text :: "string \<Rightarrow> 64 word" where
  "from_text t = scast (word_of_int (atoi t) :: 32 word)"

definition acquired :: "string \<Rightarrow> string \<Rightarrow> 64 word \<Rightarrow> string" where
  "acquired a b s = a @ '' has acquired a new secret from '' @ b @ '', value: '' @ nat_str (unat s)"

definition set_pipe :: "chan \<Rightarrow> (named_pipe \<Rightarrow> named_pipe) \<Rightarrow> shared \<Rightarrow> shared" where
  "set_pipe c f sh = sh\<lparr>pipe := (pipe sh)(c := f (pipe sh c))\<rparr>"

fun do_act :: "act \<Rightarrow> endpoint \<Rightarrow> shared \<Rightarrow> (endpoint \<times> shared) option" where
  "do_act Wait_files e sh = (if file_first sh \<and> file_second sh then Some (e, sh) else None)"
| "do_act (Open_rd c) e sh = (if fifos sh
     then Some (e, set_pipe c (\<lambda>f. f\<lparr>reader_seen := True, reader := True\<rparr>) sh) else None)"
| "do_act (Wait_writer c) e sh = (if writer_seen (pipe sh c) then Some (e, sh) else None)"
| "do_act (Read c) e sh = (case buffer (pipe sh c) of
     None \<Rightarrow> None | Some m \<Rightarrow> Some (e\<lparr>tm := Some m\<rparr>, set_pipe c (\<lambda>f. f\<lparr>buffer := None\<rparr>) sh))"
| "do_act (Close_rd c) e sh = Some (e, set_pipe c (\<lambda>f. f\<lparr>reader := False\<rparr>) sh)"
| "do_act (Open_wr c) e sh = (if fifos sh
     then Some (e, set_pipe c (\<lambda>f. f\<lparr>writer_seen := True, writer := True\<rparr>) sh) else None)"
| "do_act (Wait_reader c) e sh = (if reader_seen (pipe sh c) then Some (e, sh) else None)"
| "do_act (Write c) e sh = (if reader (pipe sh c)
     then Some (e, set_pipe c (\<lambda>f. f\<lparr>buffer := Some (to_text (key e))\<rparr>) sh) else None)"
| "do_act (Close_wr c) e sh = Some (e, set_pipe c (\<lambda>f. f\<lparr>writer := False\<rparr>) sh)"
| "do_act Acquire e sh = (case tm e of None \<Rightarrow> None | Some t \<Rightarrow>
     Some (e\<lparr>key := from_text t\<rparr>, sh\<lparr>lines := lines sh @ [acquired (me e) (peer e) (from_text t)]\<rparr>))"
| "do_act (Unlink q) e sh = Some (e, if q = First then sh\<lparr>file_first := False\<rparr> else sh\<lparr>file_second := False\<rparr>)"
| "do_act Wait_gone e sh = (if \<not> file_first sh \<and> \<not> file_second sh then Some (e, sh) else None)"
| "do_act Remove_fifos e sh = Some (e, sh\<lparr>fifos := False\<rparr>)"
| "do_act (Announce a b) e sh = Some (e, sh\<lparr>lines := lines sh @ [exchanged a b]\<rparr>)"

section \<open>The programs\<close>

text \<open>
  Both parties and the manager as lists of actions, for the command \<open>exchange a b\<close>. When the manager
  is the first party (\<open>boss\<close>) it has no file, removes the pipes itself, and waits for nobody.
\<close>

definition first_prog :: "bool \<Rightarrow> string \<Rightarrow> string \<Rightarrow> act list" where
  "first_prog boss a b = [Wait_files, Open_rd To_first, Wait_writer To_first, Read To_first, Close_rd To_first,
     Open_wr To_second, Wait_reader To_second, Write To_second, Close_wr To_second, Acquire]
     @ (if boss then [Remove_fifos, Announce a b] else [Unlink First])"

definition second_prog :: "act list" where
  "second_prog = [Open_wr To_first, Wait_reader To_first, Write To_first, Close_wr To_first,
     Open_rd To_second, Wait_writer To_second, Read To_second, Close_rd To_second, Acquire, Unlink Second]"

definition manager_prog :: "bool \<Rightarrow> string \<Rightarrow> string \<Rightarrow> act list" where
  "manager_prog boss a b = (if boss then [] else [Wait_gone, Remove_fifos, Announce a b])"

section \<open>Interleaved runs\<close>

record exch =
  pc_first :: nat
  pc_second :: nat
  pc_manager :: nat
  end_first :: endpoint
  end_second :: endpoint
  common :: shared

inductive exch_step :: "bool \<Rightarrow> string \<Rightarrow> string \<Rightarrow> exch \<Rightarrow> exch \<Rightarrow> bool" for boss a b where
  first_acts: "\<lbrakk>pc_first x < length (first_prog boss a b);
     do_act (first_prog boss a b ! pc_first x) (end_first x) (common x) = Some (e, sh)\<rbrakk>
     \<Longrightarrow> exch_step boss a b x (x\<lparr>pc_first := Suc (pc_first x), end_first := e, common := sh\<rparr>)"
| second_acts: "\<lbrakk>pc_second x < length second_prog;
     do_act (second_prog ! pc_second x) (end_second x) (common x) = Some (e, sh)\<rbrakk>
     \<Longrightarrow> exch_step boss a b x (x\<lparr>pc_second := Suc (pc_second x), end_second := e, common := sh\<rparr>)"
| manager_acts: "\<lbrakk>pc_manager x < length (manager_prog boss a b);
     do_act (manager_prog boss a b ! pc_manager x) (end_first x) (common x) = Some (e, sh)\<rbrakk>
     \<Longrightarrow> exch_step boss a b x (x\<lparr>pc_manager := Suc (pc_manager x), common := sh\<rparr>)"

text \<open>
  The start: both files are there (a boss has none). A first party that found the other among its
  own children, and a boss, do not wait for the files: they start behind that loop (\<open>spin\<close> is false).
\<close>

definition exch_start :: "bool \<Rightarrow> bool \<Rightarrow> string \<Rightarrow> 64 word \<Rightarrow> string \<Rightarrow> 64 word \<Rightarrow> exch" where
  "exch_start boss spin n1 s1 n2 s2 = \<lparr>pc_first = (if spin then 0 else 1), pc_second = 0, pc_manager = 0,
     end_first = \<lparr>me = n1, peer = n2, key = s1, tm = None\<rparr>,
     end_second = \<lparr>me = n2, peer = n1, key = s2, tm = None\<rparr>,
     common = \<lparr>pipe = (\<lambda>_. \<lparr>reader_seen = False, reader = False, writer_seen = False, writer = False, buffer = None\<rparr>),
       file_first = \<not> boss, file_second = True, fifos = True, lines = []\<rparr>\<rparr>"

definition exch_done :: "bool \<Rightarrow> exch \<Rightarrow> bool" where
  "exch_done boss x \<longleftrightarrow> pc_first x = (if boss then 12 else 11) \<and> pc_second x = 10 \<and> pc_manager x = (if boss then 0 else 3)"

section \<open>The invariant\<close>

text \<open>How far each process can be, given the others, and what the shared state is at each point.\<close>

definition order_ok :: "bool \<Rightarrow> nat \<Rightarrow> nat \<Rightarrow> nat \<Rightarrow> bool" where
  "order_ok boss i j m \<longleftrightarrow> i \<le> (if boss then 12 else 11) \<and> j \<le> 10 \<and> m \<le> (if boss then 0 else 3) \<and>
     (3 \<le> i \<longrightarrow> 1 \<le> j) \<and> (4 \<le> i \<longrightarrow> 3 \<le> j) \<and> (7 \<le> i \<longrightarrow> 5 \<le> j) \<and>
     (2 \<le> j \<longrightarrow> 2 \<le> i) \<and> (6 \<le> j \<longrightarrow> 6 \<le> i) \<and> (7 \<le> j \<longrightarrow> 8 \<le> i) \<and>
     (1 \<le> m \<longrightarrow> i = 11 \<and> j = 10) \<and> (boss \<longrightarrow> 1 \<le> i)"

definition pipes_ok :: "64 word \<Rightarrow> 64 word \<Rightarrow> nat \<Rightarrow> nat \<Rightarrow> (chan \<Rightarrow> named_pipe) \<Rightarrow> bool" where
  "pipes_ok s1 s2 i j p \<longleftrightarrow>
     p To_first = \<lparr>reader_seen = 2 \<le> i, reader = 2 \<le> i \<and> i \<le> 4, writer_seen = 1 \<le> j, writer = 1 \<le> j \<and> j \<le> 3,
       buffer = (if 3 \<le> j \<and> i < 4 then Some (to_text s2) else None)\<rparr> \<and>
     p To_second = \<lparr>reader_seen = 5 \<le> j, reader = 5 \<le> j \<and> j \<le> 7, writer_seen = 6 \<le> i, writer = 6 \<le> i \<and> i \<le> 8,
       buffer = (if 8 \<le> i \<and> j < 7 then Some (to_text s1) else None)\<rparr>"

definition ends_ok :: "string \<Rightarrow> 64 word \<Rightarrow> string \<Rightarrow> 64 word \<Rightarrow> nat \<Rightarrow> nat \<Rightarrow> endpoint \<Rightarrow> endpoint \<Rightarrow> bool" where
  "ends_ok n1 s1 n2 s2 i j e1 e2 \<longleftrightarrow>
     e1 = \<lparr>me = n1, peer = n2, key = (if 10 \<le> i then from_text (to_text s2) else s1),
       tm = (if 4 \<le> i then Some (to_text s2) else None)\<rparr> \<and>
     e2 = \<lparr>me = n2, peer = n1, key = (if 9 \<le> j then from_text (to_text s1) else s2),
       tm = (if 7 \<le> j then Some (to_text s1) else None)\<rparr>"

definition shared_ok :: "bool \<Rightarrow> nat \<Rightarrow> nat \<Rightarrow> nat \<Rightarrow> shared \<Rightarrow> bool" where
  "shared_ok boss i j m sh \<longleftrightarrow> file_first sh = (\<not> boss \<and> i < 11) \<and> file_second sh = (j < 10) \<and>
     fifos sh = (if boss then i < 11 else m < 2)"

definition lines_ok :: "bool \<Rightarrow> string \<Rightarrow> string \<Rightarrow> string \<Rightarrow> 64 word \<Rightarrow> string \<Rightarrow> 64 word \<Rightarrow> nat \<Rightarrow> nat \<Rightarrow> nat \<Rightarrow> string list \<Rightarrow> bool" where
  "lines_ok boss a b n1 s1 n2 s2 i j m ls \<longleftrightarrow> mset ls =
     (if 10 \<le> i then {#acquired n1 n2 (from_text (to_text s2))#} else {#}) +
     (if 9 \<le> j then {#acquired n2 n1 (from_text (to_text s1))#} else {#}) +
     (if 12 \<le> i \<or> 3 \<le> m then {#exchanged a b#} else {#}) \<and>
     (3 \<le> m \<longrightarrow> ls \<noteq> [] \<and> last ls = exchanged a b)"

definition exch_inv :: "bool \<Rightarrow> string \<Rightarrow> string \<Rightarrow> string \<Rightarrow> 64 word \<Rightarrow> string \<Rightarrow> 64 word \<Rightarrow> exch \<Rightarrow> bool" where
  "exch_inv boss a b n1 s1 n2 s2 x \<longleftrightarrow>
     order_ok boss (pc_first x) (pc_second x) (pc_manager x) \<and>
     pipes_ok s1 s2 (pc_first x) (pc_second x) (pipe (common x)) \<and>
     ends_ok n1 s1 n2 s2 (pc_first x) (pc_second x) (end_first x) (end_second x) \<and>
     shared_ok boss (pc_first x) (pc_second x) (pc_manager x) (common x) \<and>
     lines_ok boss a b n1 s1 n2 s2 (pc_first x) (pc_second x) (pc_manager x) (lines (common x))"

lemmas exch_inv_defs = exch_inv_def order_ok_def pipes_ok_def ends_ok_def shared_ok_def lines_ok_def

lemma below_12_boss: "i < (if boss then 12 else 11) \<Longrightarrow> i = 0 \<or> i = 1 \<or> i = 2 \<or> i = 3 \<or> i = 4 \<or> i = 5 \<or> i = 6 \<or>
    i = 7 \<or> i = 8 \<or> i = 9 \<or> i = 10 \<and> boss \<or> i = 10 \<and> \<not> boss \<or> i = (11::nat) \<and> boss"
  by (simp split: if_splits, arith+)

lemma below_12: "i < 12 \<Longrightarrow> i = 0 \<or> i = 1 \<or> i = 2 \<or> i = 3 \<or> i = 4 \<or> i = 5 \<or> i = 6 \<or> i = 7 \<or> i = 8 \<or>
    i = 9 \<or> i = 10 \<or> i = (11::nat)"
  by arith

lemma exch_start_inv: "(boss \<longrightarrow> \<not> spin) \<Longrightarrow> exch_inv boss a b n1 s1 n2 s2 (exch_start boss spin n1 s1 n2 s2)"
  by (auto simp: exch_inv_defs exch_start_def)

text \<open>The actions by number, and what it takes to do one.\<close>

lemma first_prog_at:
  "first_prog boss a b ! 0 = Wait_files" "first_prog boss a b ! Suc 0 = Open_rd To_first"
  "first_prog boss a b ! 2 = Wait_writer To_first" "first_prog boss a b ! 3 = Read To_first"
  "first_prog boss a b ! 4 = Close_rd To_first" "first_prog boss a b ! 5 = Open_wr To_second"
  "first_prog boss a b ! 6 = Wait_reader To_second" "first_prog boss a b ! 7 = Write To_second"
  "first_prog boss a b ! 8 = Close_wr To_second" "first_prog boss a b ! 9 = Acquire"
  "boss \<Longrightarrow> first_prog boss a b ! 10 = Remove_fifos" "\<not> boss \<Longrightarrow> first_prog boss a b ! 10 = Unlink First"
  "boss \<Longrightarrow> first_prog boss a b ! 11 = Announce a b"
  "length (first_prog boss a b) = (if boss then 12 else 11)"
  by (simp_all add: first_prog_def)

lemma second_prog_at:
  "second_prog ! 0 = Open_wr To_first" "second_prog ! Suc 0 = Wait_reader To_first"
  "second_prog ! 2 = Write To_first" "second_prog ! 3 = Close_wr To_first"
  "second_prog ! 4 = Open_rd To_second" "second_prog ! 5 = Wait_writer To_second"
  "second_prog ! 6 = Read To_second" "second_prog ! 7 = Close_rd To_second"
  "second_prog ! 8 = Acquire" "second_prog ! 9 = Unlink Second" "length second_prog = 10"
  by (simp_all add: second_prog_def)

lemma manager_prog_at:
  "\<not> boss \<Longrightarrow> manager_prog boss a b ! 0 = Wait_gone" "\<not> boss \<Longrightarrow> manager_prog boss a b ! Suc 0 = Remove_fifos"
  "\<not> boss \<Longrightarrow> manager_prog boss a b ! 2 = Announce a b"
  "length (manager_prog boss a b) = (if boss then 0 else 3)"
  by (simp_all add: manager_prog_def)

lemma do_act_Some:
  "do_act Wait_files e sh = Some r \<longleftrightarrow> file_first sh \<and> file_second sh \<and> r = (e, sh)"
  "do_act (Open_rd c) e sh = Some r \<longleftrightarrow> fifos sh \<and> r = (e, set_pipe c (\<lambda>f. f\<lparr>reader_seen := True, reader := True\<rparr>) sh)"
  "do_act (Wait_writer c) e sh = Some r \<longleftrightarrow> writer_seen (pipe sh c) \<and> r = (e, sh)"
  "do_act (Read c) e sh = Some r \<longleftrightarrow> (\<exists>m. buffer (pipe sh c) = Some m \<and>
     r = (e\<lparr>tm := Some m\<rparr>, set_pipe c (\<lambda>f. f\<lparr>buffer := None\<rparr>) sh))"
  "do_act (Open_wr c) e sh = Some r \<longleftrightarrow> fifos sh \<and> r = (e, set_pipe c (\<lambda>f. f\<lparr>writer_seen := True, writer := True\<rparr>) sh)"
  "do_act (Wait_reader c) e sh = Some r \<longleftrightarrow> reader_seen (pipe sh c) \<and> r = (e, sh)"
  "do_act (Write c) e sh = Some r \<longleftrightarrow> reader (pipe sh c) \<and>
     r = (e, set_pipe c (\<lambda>f. f\<lparr>buffer := Some (to_text (key e))\<rparr>) sh)"
  "do_act Acquire e sh = Some r \<longleftrightarrow> (\<exists>t. tm e = Some t \<and>
     r = (e\<lparr>key := from_text t\<rparr>, sh\<lparr>lines := lines sh @ [acquired (me e) (peer e) (from_text t)]\<rparr>))"
  "do_act Wait_gone e sh = Some r \<longleftrightarrow> \<not> file_first sh \<and> \<not> file_second sh \<and> r = (e, sh)"
  "do_act (Close_rd c) e sh = Some r \<longleftrightarrow> r = (e, set_pipe c (\<lambda>f. f\<lparr>reader := False\<rparr>) sh)"
  "do_act (Close_wr c) e sh = Some r \<longleftrightarrow> r = (e, set_pipe c (\<lambda>f. f\<lparr>writer := False\<rparr>) sh)"
  "do_act (Unlink q) e sh = Some r \<longleftrightarrow>
     r = (e, if q = First then sh\<lparr>file_first := False\<rparr> else sh\<lparr>file_second := False\<rparr>)"
  "do_act Remove_fifos e sh = Some r \<longleftrightarrow> r = (e, sh\<lparr>fifos := False\<rparr>)"
  "do_act (Announce a b) e sh = Some r \<longleftrightarrow> r = (e, sh\<lparr>lines := lines sh @ [exchanged a b]\<rparr>)"
  by (auto split: option.splits)

declare do_act.simps [simp del]

lemmas act_defs = first_prog_at second_prog_at manager_prog_at do_act_Some set_pipe_def

lemma if_Some: "(if c then Some v else None) = Some w \<longleftrightarrow> c \<and> v = w"
  by simp

lemma first_step_inv:
  assumes i: "i < length (first_prog boss a b)" and act: "do_act (first_prog boss a b ! i) e1 sh = Some (e, sh')"
    and ord: "order_ok boss i j m" and pip: "pipes_ok s1 s2 i j (pipe sh)" and en: "ends_ok n1 s1 n2 s2 i j e1 e2"
    and shr: "shared_ok boss i j m sh" and lin: "lines_ok boss a b n1 s1 n2 s2 i j m (lines sh)"
  shows "order_ok boss (Suc i) j m" and "pipes_ok s1 s2 (Suc i) j (pipe sh')" and "ends_ok n1 s1 n2 s2 (Suc i) j e e2"
    and "shared_ok boss (Suc i) j m sh'" and "lines_ok boss a b n1 s1 n2 s2 (Suc i) j m (lines sh')"
proof -
  note cases = below_12_boss [OF i [unfolded first_prog_at(14)]]
  have m: "m = 0" using i ord by (auto simp: order_ok_def first_prog_at split: if_splits)
  from cases act ord pip m show "order_ok boss (Suc i) j m"
    by (elim disjE) (auto simp: act_defs order_ok_def pipes_ok_def if_Some)
  from cases act ord pip en show "pipes_ok s1 s2 (Suc i) j (pipe sh')"
    by (elim disjE) (auto simp: act_defs order_ok_def pipes_ok_def ends_ok_def if_Some)
  from cases act ord pip en show "ends_ok n1 s1 n2 s2 (Suc i) j e e2"
    by (elim disjE) (auto simp: act_defs pipes_ok_def ends_ok_def if_Some)
  from cases act shr m show "shared_ok boss (Suc i) j m sh'"
    by (elim disjE) (auto simp: act_defs shared_ok_def)
  from cases act en lin m show "lines_ok boss a b n1 s1 n2 s2 (Suc i) j m (lines sh')"
    by (elim disjE) (auto simp: act_defs lines_ok_def ends_ok_def if_Some)
qed


lemma second_step_inv:
  assumes j: "j < length second_prog" and act: "do_act (second_prog ! j) e2 sh = Some (e, sh')"
    and ord: "order_ok boss i j m" and pip: "pipes_ok s1 s2 i j (pipe sh)" and en: "ends_ok n1 s1 n2 s2 i j e1 e2"
    and shr: "shared_ok boss i j m sh" and lin: "lines_ok boss a b n1 s1 n2 s2 i j m (lines sh)"
  shows "order_ok boss i (Suc j) m" and "pipes_ok s1 s2 i (Suc j) (pipe sh')" and "ends_ok n1 s1 n2 s2 i (Suc j) e1 e"
    and "shared_ok boss i (Suc j) m sh'" and "lines_ok boss a b n1 s1 n2 s2 i (Suc j) m (lines sh')"
proof -
  have "j < 12" using j by (simp add: second_prog_at)
  note cases = below_12 [OF this]
  have m: "m = 0" using j ord by (auto simp: order_ok_def second_prog_at)
  from cases act j ord pip m show "order_ok boss i (Suc j) m"
    by (elim disjE) (auto simp: act_defs order_ok_def pipes_ok_def if_Some)
  from cases act j ord pip en show "pipes_ok s1 s2 i (Suc j) (pipe sh')"
    by (elim disjE) (auto simp: act_defs order_ok_def pipes_ok_def ends_ok_def if_Some)
  from cases act j pip en show "ends_ok n1 s1 n2 s2 i (Suc j) e1 e"
    by (elim disjE) (auto simp: act_defs pipes_ok_def ends_ok_def if_Some)
  from cases act j shr m show "shared_ok boss i (Suc j) m sh'"
    by (elim disjE) (auto simp: act_defs shared_ok_def)
  from cases act j en lin m show "lines_ok boss a b n1 s1 n2 s2 i (Suc j) m (lines sh')"
    by (elim disjE) (auto simp: act_defs lines_ok_def ends_ok_def if_Some)
qed

lemma manager_step_inv:
  assumes m: "m < length (manager_prog boss a b)" and act: "do_act (manager_prog boss a b ! m) e1 sh = Some (e, sh')"
    and ord: "order_ok boss i j m" and pip: "pipes_ok s1 s2 i j (pipe sh)"
    and shr: "shared_ok boss i j m sh" and lin: "lines_ok boss a b n1 s1 n2 s2 i j m (lines sh)"
  shows "order_ok boss i j (Suc m)" and "pipes_ok s1 s2 i j (pipe sh')"
    and "shared_ok boss i j (Suc m) sh'" and "lines_ok boss a b n1 s1 n2 s2 i j (Suc m) (lines sh')"
proof -
  have boss: "\<not> boss" and "m = 0 \<or> m = 1 \<or> m = 2" using m by (auto simp: manager_prog_at split: if_splits)
  then have act': "m = 0 \<and> sh' = sh \<and> \<not> file_first sh \<and> \<not> file_second sh \<or> m = 1 \<and> sh' = sh\<lparr>fifos := False\<rparr> \<or>
      m = 2 \<and> sh' = sh\<lparr>lines := lines sh @ [exchanged a b]\<rparr>"
    using act by (elim disjE) (simp_all add: manager_prog_at do_act_Some)
  have ij: "i \<le> 11" using ord boss by (simp add: order_ok_def)
  from act' consider "m = 0" "sh' = sh" "\<not> file_first sh" "\<not> file_second sh" | "m = 1" "sh' = sh\<lparr>fifos := False\<rparr>"
    | "m = 2" "sh' = sh\<lparr>lines := lines sh @ [exchanged a b]\<rparr>" by blast
  note cs = this
  show "order_ok boss i j (Suc m)"
    by (cases rule: cs) (use ord shr boss in \<open>simp_all add: order_ok_def shared_ok_def\<close>)
  show "pipes_ok s1 s2 i j (pipe sh')" by (cases rule: cs) (use pip in simp_all)
  show "shared_ok boss i j (Suc m) sh'" by (cases rule: cs) (use shr boss in \<open>simp_all add: shared_ok_def\<close>)
  show "lines_ok boss a b n1 s1 n2 s2 i j (Suc m) (lines sh')"
    by (cases rule: cs) (use lin ij in \<open>simp_all add: lines_ok_def\<close>)
qed

lemma exch_step_inv: "exch_step boss a b x y \<Longrightarrow> exch_inv boss a b n1 s1 n2 s2 x \<Longrightarrow> exch_inv boss a b n1 s1 n2 s2 y"
proof (induction rule: exch_step.induct)
  case (first_acts x e sh)
  note inv = first_acts(3) [unfolded exch_inv_def]
  show ?case unfolding exch_inv_def
    using inv by (simp, intro conjI first_step_inv [OF first_acts(1,2)]) blast+
next
  case (second_acts x e sh)
  note inv = second_acts(3) [unfolded exch_inv_def]
  show ?case unfolding exch_inv_def
    using inv by (simp, intro conjI second_step_inv [OF second_acts(1,2)]) blast+
next
  case (manager_acts x e sh)
  note inv = manager_acts(3) [unfolded exch_inv_def]
  show ?case unfolding exch_inv_def
    using inv by (simp, intro conjI manager_step_inv [OF manager_acts(1,2)]) blast+
qed

interpretation exch: transition_invariant "exch_step boss a b"
    "\<lambda>x. \<exists>spin. (boss \<longrightarrow> \<not> spin) \<and> x = exch_start boss spin n1 s1 n2 s2" "exch_inv boss a b n1 s1 n2 s2"
  for boss a b n1 s1 n2 s2
  by unfold_locales (auto intro: exch_start_inv exch_step_inv)

section \<open>No run gets stuck, and every run ends\<close>

lemma first_ready:
  assumes inv: "exch_inv boss a b n1 s1 n2 s2 x" and i: "pc_first x < length (first_prog boss a b)"
    and "pc_first x = 2 \<longrightarrow> 1 \<le> pc_second x" and "pc_first x = 3 \<longrightarrow> 3 \<le> pc_second x"
    and "pc_first x = 6 \<longrightarrow> 5 \<le> pc_second x"
  shows "\<exists>y. exch_step boss a b x y"
proof -
  let ?i = "pc_first x" and ?sh = "common x"
  note cases = below_12_boss [OF i [unfolded first_prog_at(14)]]
  have boss: "?i = 0 \<longrightarrow> \<not> boss" using inv by (auto simp: exch_inv_def order_ok_def)
  from inv have "order_ok boss ?i (pc_second x) (pc_manager x)" "pipes_ok s1 s2 ?i (pc_second x) (pipe ?sh)"
    "tm (end_first x) = (if 4 \<le> ?i then Some (to_text s2) else None)" "shared_ok boss ?i (pc_second x) (pc_manager x) ?sh"
    by (simp_all add: exch_inv_def ends_ok_def)
  with cases boss assms(3-5) have "\<exists>r. do_act (first_prog boss a b ! ?i) (end_first x) ?sh = Some r"
    by (elim disjE) (auto simp: act_defs order_ok_def pipes_ok_def shared_ok_def)
  then show ?thesis using exch_step.first_acts [OF i] by (metis surj_pair)
qed

lemma second_ready:
  assumes inv: "exch_inv boss a b n1 s1 n2 s2 x" and j: "pc_second x < length second_prog"
    and "pc_second x = 1 \<longrightarrow> 2 \<le> pc_first x" and "pc_second x = 5 \<longrightarrow> 6 \<le> pc_first x"
    and "pc_second x = 6 \<longrightarrow> 8 \<le> pc_first x"
  shows "\<exists>y. exch_step boss a b x y"
proof -
  let ?j = "pc_second x" and ?sh = "common x"
  have "?j < 12" using j by (simp add: second_prog_at)
  note cases = below_12 [OF this]
  from inv have "order_ok boss (pc_first x) ?j (pc_manager x)" "pipes_ok s1 s2 (pc_first x) ?j (pipe ?sh)"
    "tm (end_second x) = (if 7 \<le> ?j then Some (to_text s1) else None)" "shared_ok boss (pc_first x) ?j (pc_manager x) ?sh"
    by (simp_all add: exch_inv_def ends_ok_def)
  with cases j assms(3-5) have "\<exists>r. do_act (second_prog ! ?j) (end_second x) ?sh = Some r"
    by (elim disjE) (auto simp: act_defs order_ok_def pipes_ok_def shared_ok_def)
  then show ?thesis using exch_step.second_acts [OF j] by (metis surj_pair)
qed

lemma manager_ready:
  assumes inv: "exch_inv boss a b n1 s1 n2 s2 x" and m: "pc_manager x < length (manager_prog boss a b)"
    and "pc_first x = 11" and "pc_second x = 10"
  shows "\<exists>y. exch_step boss a b x y"
proof -
  have "\<not> boss" "pc_manager x = 0 \<or> pc_manager x = 1 \<or> pc_manager x = 2"
    using m by (auto simp: manager_prog_at split: if_splits)
  moreover have "\<not> file_first (common x)" "\<not> file_second (common x)"
    using inv assms(3,4) by (simp_all add: exch_inv_def shared_ok_def)
  ultimately have "\<exists>r. do_act (manager_prog boss a b ! pc_manager x) (end_first x) (common x) = Some r"
    by (auto simp: manager_prog_at do_act_Some)
  then show ?thesis using exch_step.manager_acts [OF m] by (metis surj_pair)
qed

lemma exch_progress:
  assumes inv: "exch_inv boss a b n1 s1 n2 s2 x" and "\<not> exch_done boss x"
  shows "\<exists>y. exch_step boss a b x y"
proof (rule ccontr)
  assume no: "\<not> (\<exists>y. exch_step boss a b x y)"
  have ord: "order_ok boss (pc_first x) (pc_second x) (pc_manager x)" using inv by (simp add: exch_inv_def)
  let ?i = "pc_first x" and ?j = "pc_second x" and ?m = "pc_manager x"
  have F: "(if boss then 12 else 11) \<le> ?i \<or> ?i = 2 \<and> ?j < 1 \<or> ?i = 3 \<and> ?j < 3 \<or> ?i = 6 \<and> ?j < 5"
    using first_ready [OF inv] no unfolding first_prog_at(14)
    by - (rule ccontr, simp only: de_Morgan_disj de_Morgan_conj not_le not_less, blast)
  have S: "10 \<le> ?j \<or> ?j = 1 \<and> ?i < 2 \<or> ?j = 5 \<and> ?i < 6 \<or> ?j = 6 \<and> ?i < 8"
    using second_ready [OF inv] no unfolding second_prog_at(11)
    by - (rule ccontr, simp only: de_Morgan_disj de_Morgan_conj not_le not_less, blast)
  have M: "\<not> (?m < (if boss then 0 else 3) \<and> ?i = 11 \<and> ?j = 10)"
    using manager_ready [OF inv] no unfolding manager_prog_at(4) by blast
  from F S ord have "(if boss then 12 else 11) \<le> ?i \<and> 10 \<le> ?j"
    unfolding order_ok_def by (cases boss; elim disjE) simp_all
  with M ord assms(2) show False
    by (cases boss) (auto simp: order_ok_def exch_done_def)
qed

lemma exch_step_count:
  "exch_step boss a b x y \<Longrightarrow> pc_first y + pc_second y + pc_manager y = Suc (pc_first x + pc_second x + pc_manager x)"
  by (auto elim: exch_step.cases)

lemma exch_run_count:
  "(exch_step boss a b ^^ k) x y \<Longrightarrow> pc_first y + pc_second y + pc_manager y = k + pc_first x + pc_second x + pc_manager x"
  by (induction k arbitrary: y) (auto dest!: exch_step_count)

lemma relpow_reach: "(r ^^ k) x y \<Longrightarrow> reach r x y"
  by (induction k arbitrary: y) (auto intro: reach_step)

text \<open>A secret of 31 bits survives the way through the text.\<close>

lemma secret_text:
  assumes "unat s < 2 ^ 31"
  shows "from_text (to_text s) = s"
proof -
  have "int (unat s) < int (2 ^ 31)" using assms by (simp only: of_nat_less_iff)
  then have s: "0 \<le> uint s" "uint s < 2 ^ 31" by (simp_all add: uint_nat del: of_nat_unat)
  then have "uint (ucast s :: 32 word) = uint s" by (simp add: unsigned_ucast_eq take_bit_int_eq_self)
  moreover have "signed_take_bit 31 (uint s) = uint s"
    using s by (intro signed_take_bit_int_eq_self) linarith+
  ultimately have "sint (ucast s :: 32 word) = uint s" by (simp add: sint_uint)
  moreover have "from_text (to_text s) = scast (ucast s :: 32 word)" by (simp add: from_text_def to_text_def)
  ultimately show ?thesis by (simp add: scast_eq)
qed

lemma exch_done_result:
  assumes inv: "exch_inv boss a b n1 s1 n2 s2 x" and "exch_done boss x" and "unat s1 < 2 ^ 31" and "unat s2 < 2 ^ 31"
  shows "key (end_first x) = s2 \<and> key (end_second x) = s1 \<and>
    mset (lines (common x)) = {#acquired n1 n2 s2, acquired n2 n1 s1, exchanged a b#} \<and>
    \<not> fifos (common x) \<and> \<not> file_first (common x) \<and> \<not> file_second (common x)"
  using assms(2) inv secret_text [OF assms(3)] secret_text [OF assms(4)]
  by (cases boss) (simp_all add: exch_inv_def exch_done_def ends_ok_def lines_ok_def shared_ok_def)

end
