(* ===== verification/Svc_Session.thy ===== *)
theory Svc_Session
  imports Svc_Exchange
begin

text \<open>
  A session with the manager: the complete commands, an exchange with its two halves included, the
  invariant of the tree, and what each command does to the names and the secrets.
\<close>

section \<open>Secrets\<close>

fun secrets :: "service \<Rightarrow> (string \<times> 64 word) list" and secrets_list :: "service list \<Rightarrow> (string \<times> 64 word) list" where
  "secrets (Live n sec cn pt ks) = (n, sec) # secrets_list ks"
| "secrets (Dead n) = []"
| "secrets_list [] = []"
| "secrets_list (k # ks) = secrets k @ secrets_list ks"

text \<open>The parties the request has left behind, and the end of the exchange.\<close>

fun marked :: "party \<Rightarrow> service \<Rightarrow> (string \<times> 64 word) list"
  and marked_list :: "party \<Rightarrow> service list \<Rightarrow> (string \<times> 64 word) list" where
  "marked q (Live n sec cn pt ks) = (if pt = q then [(n, sec)] else []) @ marked_list q ks"
| "marked q (Dead n) = []"
| "marked_list q [] = []"
| "marked_list q (k # ks) = marked q k @ marked_list q ks"

primrec settle :: "64 word \<Rightarrow> 64 word \<Rightarrow> service \<Rightarrow> service" where
  "settle u v (Live n sec cn pt ks) =
     Live n (case pt of First \<Rightarrow> u | Second \<Rightarrow> v | _ \<Rightarrow> sec) cn Ready (map (settle u v) ks)"
| "settle u v (Dead n) = Dead n"

section \<open>A command from its line to its end\<close>

text \<open>
  The first party waits for the files unless it is the manager or found the other party among its
  own descendants. An exchange for which the request found no second party has no end.
\<close>

inductive manager_step :: "(nat \<Rightarrow> nat) \<Rightarrow> nat \<Rightarrow> string \<Rightarrow> service \<Rightarrow> service \<Rightarrow> string list \<Rightarrow> bool"
  for rnd p command t where
  plain: "\<lbrakk>manager_cmd rnd p command t = Some (t', out);
     split_words command = Some (a0 # ws); a0 \<noteq> ''exchange''\<rbrakk>
     \<Longrightarrow> manager_step rnd p command t t' out"
| exchange: "\<lbrakk>manager_cmd rnd p command t = Some (t1, out);
     split_words command = Some (''exchange'' # a # b # ws);
     marked First t1 = [(n1, s1)]; marked Second t1 = [(n2, s2)]; {n1, n2} = {a, b}; n1 \<noteq> n2;
     boss = (n1 = name_of t); spin = (\<not> boss \<and> n2 \<notin> set (sub_names n1 t));
     reach (exch_step boss a b) (exch_start boss spin n1 s1 n2 s2) x; exch_done boss x\<rbrakk>
     \<Longrightarrow> manager_step rnd p command t
       (settle (key (end_first x)) (key (end_second x)) t1) (out @ lines (common x))"

inductive_cases manager_stepE: "manager_step rnd p command t t' out"

section \<open>The invariant of the tree\<close>

fun svc_ok :: "service \<Rightarrow> bool" where
  "svc_ok (Live n sec cn pt ks) \<longleftrightarrow> pt = Ready \<and> unat sec < 2 ^ 31 \<and> cn = int (length ks) \<and> (\<forall>k \<in> set ks. svc_ok k)"
| "svc_ok (Dead n) \<longleftrightarrow> False"

definition tree_ok :: "service \<Rightarrow> bool" where
  "tree_ok t \<longleftrightarrow> svc_ok t \<and> distinct (names t)"

lemma svc_ok_live: "svc_ok t \<Longrightarrow> all_live t"
  by (induction t) auto

lemma map_fst_secrets: "map fst (secrets t) = names t" "map fst (secrets_list ks) = names_list ks"
  by (induction t and ks rule: secrets_secrets_list.induct) auto

lemma add_under_ok:
  "svc_ok t \<Longrightarrow> svc_ok new \<Longrightarrow> svc_ok (add_under P new t)"
  "\<forall>k \<in> set ks. svc_ok k \<Longrightarrow> svc_ok new \<Longrightarrow>
     (\<forall>k \<in> set (add_list P new ks). svc_ok k) \<and> length (add_list P new ks) = length ks"
  by (induction P new t and P new ks rule: add_under_add_list.induct) auto

lemma names_list_append: "names_list (xs @ ys) = names_list xs @ names_list ys"
  by (induction xs) auto

lemma add_under_names:
  "P \<in> set (names t) \<Longrightarrow> \<exists>xs ys. names t = xs @ ys \<and> names (add_under P new t) = xs @ names new @ ys"
  "P \<in> set (names_list ks) \<Longrightarrow>
     \<exists>xs ys. names_list ks = xs @ ys \<and> names_list (add_list P new ks) = xs @ names new @ ys"
proof (induction P new t and P new ks rule: add_under_add_list.induct)
  case (1 P new n sec cn pt ks)
  show ?case
  proof (cases "n = P")
    case True
    then show ?thesis
      by (intro exI [of _ "n # names_list ks"] exI [of _ "[]"]) (simp add: names_list_append)
  next
    case False
    with 1 obtain xs ys where "names_list ks = xs @ ys" "names_list (add_list P new ks) = xs @ names new @ ys"
      by auto
    with False show ?thesis by (intro exI [of _ "n # xs"] exI [of _ ys]) simp
  qed
next
  case (4 P new k ks)
  show ?case
  proof (cases "P \<in> set (names k)")
    case True
    with 4 obtain xs ys where "names k = xs @ ys" "names (add_under P new k) = xs @ names new @ ys" by auto
    with True show ?thesis by (intro exI [of _ xs] exI [of _ "ys @ names_list ks"]) simp
  next
    case False
    with 4 obtain xs ys where "names_list ks = xs @ ys" "names_list (add_list P new ks) = xs @ names new @ ys"
      by auto
    with False show ?thesis by (intro exI [of _ "names k @ xs"] exI [of _ ys]) simp
  qed
qed auto

lemma prune_ok:
  "svc_ok t \<Longrightarrow> svc_ok (prune T t)"
  "\<forall>k \<in> set ks. svc_ok k \<Longrightarrow> \<forall>k \<in> set (prune_list T ks). svc_ok k"
  by (induction T t and T ks rule: prune_prune_list.induct) auto

lemma newborn_ok: "rnd p < 2 ^ 31 \<Longrightarrow> svc_ok (newborn rnd p C)"
  by (simp add: newborn_def unat_of_nat)

text \<open>A spawn keeps the names unique exactly if the name is new, a kill always.\<close>

lemma distinct_spawn:
  assumes "P \<in> set (names t)"
  shows "distinct (names (add_under P (newborn rnd p C) t)) \<longleftrightarrow> distinct (names t) \<and> C \<notin> set (names t)"
proof -
  obtain xs ys where "names t = xs @ ys" "names (add_under P (newborn rnd p C) t) = xs @ [C] @ ys"
    using add_under_names(1) [OF assms, of "newborn rnd p C"] by (auto simp: newborn_def)
  then show ?thesis by auto
qed

lemma distinct_kill:
  assumes t: "svc_ok t" "distinct (names t)" and T: "name_of t \<noteq> T"
  shows "distinct (names (prune T t))"
proof (cases "T \<in> set (names t)")
  case True
  from names_prune [OF svc_ok_live [OF t(1)] True T] obtain xs ys where
    "names t = xs @ sub_names T t @ ys" "names (prune T t) = xs @ ys" by blast
  with t(2) show ?thesis by auto
next
  case False
  with no_subtree(1) t show ?thesis by simp
qed

section \<open>An exchange\<close>

lemma manager_request:
  assumes "party_name A" and "party_name B"
  shows "manager_cmd rnd p (request_text A B) (Live n sec cn pt ks) = do {
    (gnum, ks', out) \<leftarrow> ask_exchange (child rnd p) (request_text A B @ '' '') ks (if A = n \<or> B = n then 1 else 0);
    Some (Live n sec cn (if A = n \<or> B = n then First else pt) ks', received n (request_text A B) # out) }"
proof -
  have split: "split_words (request_text A B) = Some [''exchange'', A, B]"
    using words3 [of "''exchange''" A B] assms by (simp add: split_words_def party_name_def request_text_def word_def)
  have q5: "''exchange '' @ A @ '' '' @ B @ '' '' = request_text A B @ '' ''" by (simp add: request_text_def)
  show ?thesis
    by (simp add: split q5 nth_word_def manager_exchange_def del: append_Cons append_Nil)
      (simp add: Option.bind_assoc case_prod_unfold)
qed

lemma manager_request_spec:
  assumes AB: "party_name A" "party_name B" and live: "all_live t" and dist: "distinct (names t)"
  shows "manager_cmd rnd p (request_text A B) t = Some (paint (map_of (parts A B 0 (names t))) t,
    map (\<lambda>n. received n (request_text A B)) (reached A B 0 (names t)))"
proof -
  obtain n sec cn pt ks where t: "t = Live n sec cn pt ks" using live by (cases t) auto
  have ks: "n \<notin> set (names_list ks)" "distinct (names_list ks)" "\<And>k. k \<in> set ks \<Longrightarrow> all_live k"
    using live dist t by auto
  let ?g = "if n = A \<or> n = B then 1 else 0 :: nat"
  have "distinct (hits A B (names t))" using dist by (simp add: hits_def)
  then have "length (hits A B (names t)) = card (set (names t) \<inter> {A, B})" by (metis distinct_card set_hits)
  also have "\<dots> \<le> card {A, B}" by (intro card_mono) auto
  also have "\<dots> \<le> 2" by (simp add: card_insert_if)
  finally have two: "?g + length (hits A B (names_list ks)) \<le> 2" by (simp add: t split: if_splits)
  have S: "set ks \<subseteq> {k. all_live k \<and> distinct (names k) \<and> party_name A \<and> party_name B}"
    using AB ks(3) distinct_part [OF _ ks(2)] by auto
  have ask: "ask_exchange (child rnd p) (request_text A B @ '' '') ks (int ?g) = Some
    (int (?g + length (hits A B (names_list ks))), map (paint (map_of (parts A B ?g (names_list ks)))) ks,
     map (\<lambda>n. received n (request_text A B)) (reached A B ?g (names_list ks)))"
    by (rule request.ask_exchange_spec [OF S ks(2) _ two]) auto
  have "map (paint (map_of (parts A B 0 (n # names_list ks)))) ks = map (paint (map_of (parts A B ?g (names_list ks)))) ks"
    using ks(1) by (intro paint_cong(2)) auto
  moreover have "map_of (parts A B 0 (names_list ks)) n = None" using ks(1) by (simp add: parts_none)
  ultimately show ?thesis
    using ask by (cases "n = A \<or> n = B") (auto simp: t manager_request [OF AB] simp del: manager_cmd.simps)
qed

lemma parts_hits:
  "parts A B (Suc g) ns = map (\<lambda>n. (n, Second)) (hits A B ns)"
  "parts A B 0 ns = (case hits A B ns of [] \<Rightarrow> [] | x # xs \<Rightarrow> (x, First) # map (\<lambda>n. (n, Second)) xs)"
proof -
  show S: "parts A B (Suc g) ns = map (\<lambda>n. (n, Second)) (hits A B ns)" for g ns
    by (induction ns arbitrary: g) auto
  show "parts A B 0 ns = (case hits A B ns of [] \<Rightarrow> [] | x # xs \<Rightarrow> (x, First) # map (\<lambda>n. (n, Second)) xs)"
    by (induction ns) (auto simp: S)
qed

lemma hits_two:
  assumes "distinct ns" and "A \<in> set ns" and "B \<in> set ns" and "A \<noteq> B"
  shows "\<exists>x y. hits A B ns = [x, y] \<and> {x, y} = {A, B} \<and> x \<noteq> y"
proof -
  have d: "distinct (hits A B ns)" using assms(1) by (simp add: hits_def)
  have s: "set (hits A B ns) = {A, B}" using assms by (auto simp: set_hits)
  have "length (hits A B ns) = card {A, B}" using distinct_card [OF d] s by simp
  then have "length (hits A B ns) = 2" using assms(4) by simp
  then obtain x y where "hits A B ns = [x, y]"
    by (metis One_nat_def Suc_1 length_0_conv length_Suc_conv)
  with d s show ?thesis by (intro exI [of _ x] exI [of _ y]) auto
qed

lemma marked_paint:
  "svc_ok t \<Longrightarrow> q \<noteq> Ready \<Longrightarrow> marked q (paint m t) = filter (\<lambda>(n, s). m n = Some q) (secrets t)"
  "\<forall>k \<in> set ks. svc_ok k \<Longrightarrow> q \<noteq> Ready \<Longrightarrow>
     marked_list q (map (paint m) ks) = filter (\<lambda>(n, s). m n = Some q) (secrets_list ks)"
  by (induction t and ks rule: secrets_secrets_list.induct) (auto split: option.splits)

definition after_swap :: "(string \<Rightarrow> party option) \<Rightarrow> 64 word \<Rightarrow> 64 word \<Rightarrow> string \<times> 64 word \<Rightarrow> string \<times> 64 word" where
  "after_swap m u v ns = (fst ns, case m (fst ns) of Some First \<Rightarrow> u | Some Second \<Rightarrow> v | _ \<Rightarrow> snd ns)"

lemma settle_paint:
  "svc_ok t \<Longrightarrow> secrets (settle u v (paint m t)) = map (after_swap m u v) (secrets t)"
  "\<forall>k \<in> set ks. svc_ok k \<Longrightarrow>
     secrets_list (map (settle u v) (map (paint m) ks)) = map (after_swap m u v) (secrets_list ks)"
  by (induction t and ks rule: secrets_secrets_list.induct)
    (auto simp: after_swap_def split: option.splits party.splits)

lemma settle_ok: "svc_ok t \<Longrightarrow> unat u < 2 ^ 31 \<Longrightarrow> unat v < 2 ^ 31 \<Longrightarrow> svc_ok (settle u v (paint m t))"
  by (induction t) (auto split: option.splits party.splits)

lemma exch_completes:
  "exch_inv boss a b n1 s1 n2 s2 x \<Longrightarrow> \<exists>y. reach (exch_step boss a b) x y \<and> exch_done boss y"
proof (induction "25 - (pc_first x + pc_second x + pc_manager x)" arbitrary: x rule: less_induct)
  case less
  show ?case
  proof (cases "exch_done boss x")
    case False
    from exch_progress [OF less.prems False] obtain y where y: "exch_step boss a b x y" by blast
    have inv: "exch_inv boss a b n1 s1 n2 s2 y" by (rule exch_step_inv [OF y less.prems])
    then have "pc_first y + pc_second y + pc_manager y \<le> 25"
      by (auto simp: exch_inv_def order_ok_def split: if_splits)
    then have "25 - (pc_first y + pc_second y + pc_manager y) < 25 - (pc_first x + pc_second x + pc_manager x)"
      using exch_step_count [OF y] by linarith
    from less.hyps [OF this inv] obtain z where "reach (exch_step boss a b) y z" "exch_done boss z" by blast
    moreover have "reach (exch_step boss a b) x y" using reach_step [of "exch_step boss a b" x x y] y by simp
    ultimately show ?thesis using reach_trans by metis
  qed auto
qed

lemma filter_key: "distinct (map fst l) \<Longrightarrow> map_of l x = Some s \<Longrightarrow> filter (\<lambda>(n, s). n = x) l = [(x, s)]"
proof (induction l)
  case (Cons e l)
  have "filter (\<lambda>(n, s). n = x) l = []" if "x \<notin> set (map fst l)"
    using that by (force simp: filter_empty_conv)
  with Cons show ?case by (cases e) (auto split: if_splits)
qed simp

definition swapped :: "string \<Rightarrow> string \<Rightarrow> (string \<times> 64 word) list \<Rightarrow> (string \<times> 64 word) list" where
  "swapped A B l = map (\<lambda>(n, s). (n, if n = A then the (map_of l B) else if n = B then the (map_of l A) else s)) l"

lemma secrets_small:
  "svc_ok t \<Longrightarrow> e \<in> set (secrets t) \<Longrightarrow> unat (snd e) < 2 ^ 31"
  "\<forall>k \<in> set ks. svc_ok k \<Longrightarrow> e \<in> set (secrets_list ks) \<Longrightarrow> unat (snd e) < 2 ^ 31"
  by (induction t and ks rule: secrets_secrets_list.induct) auto

text \<open>The request finds the two parties, each with its secret.\<close>

lemma exchange_request:
  assumes t: "tree_ok t" and AB: "party_name A" "party_name B" "A \<noteq> B" "A \<in> set (names t)" "B \<in> set (names t)"
  obtains x y sx sy t1 where "{x, y} = {A, B}" "x \<noteq> y" "map_of (secrets t) x = Some sx" "map_of (secrets t) y = Some sy"
    "t1 = paint (map_of [(x, First), (y, Second)]) t" "marked First t1 = [(x, sx)]" "marked Second t1 = [(y, sy)]"
    "\<And>rnd p. manager_cmd rnd p (request_text A B) t = Some (t1, map (\<lambda>n. received n (request_text A B)) (reached A B 0 (names t)))"
proof -
  have ok: "svc_ok t" "all_live t" "distinct (names t)" using t svc_ok_live by (auto simp: tree_ok_def)
  obtain x y where xy: "hits A B (names t) = [x, y]" "{x, y} = {A, B}" "x \<noteq> y"
    using hits_two [OF ok(3) AB(4,5,3)] by blast
  have "x \<in> fst ` set (secrets t)" "y \<in> fst ` set (secrets t)"
    using xy(2) AB(4,5) map_fst_secrets(1) [of t] by (auto simp flip: set_map)
  then obtain sx sy where s: "map_of (secrets t) x = Some sx" "map_of (secrets t) y = Some sy"
    by (metis map_of_eq_None_iff not_None_eq)
  let ?m = "map_of [(x, First), (y, Second)]"
  have m: "?m n = Some First \<longleftrightarrow> n = x" "?m n = Some Second \<longleftrightarrow> n = y" for n using xy(3) by auto
  have "distinct (map fst (secrets t))" using ok(3) by (simp add: map_fst_secrets)
  then have "marked First (paint ?m t) = [(x, sx)]" "marked Second (paint ?m t) = [(y, sy)]"
    by (simp_all add: marked_paint(1) [OF ok(1)] m filter_key s del: map_of.simps)
  moreover have "parts A B 0 (names t) = [(x, First), (y, Second)]" by (simp add: parts_hits xy(1))
  then have "manager_cmd rnd p (request_text A B) t =
      Some (paint ?m t, map (\<lambda>n. received n (request_text A B)) (reached A B 0 (names t)))" for rnd p
    using manager_request_spec [OF AB(1,2) ok(2,3)] by simp
  ultimately show thesis using that xy(2,3) s by blast
qed

lemma split_exchange:
  assumes "party_name A" and "party_name B"
  shows "split_words (request_text A B) = Some [''exchange'', A, B]"
  using words3 [of "''exchange''" A B] assms by (simp add: split_words_def party_name_def request_text_def word_def)

lemma exchange_possible:
  assumes "tree_ok t" and "party_name A" "party_name B" "A \<noteq> B" "A \<in> set (names t)" "B \<in> set (names t)"
  shows "\<exists>t' out. manager_step rnd p (request_text A B) t t' out"
proof -
  obtain x y sx sy t1 where r: "{x, y} = {A, B}" "x \<noteq> y" "marked First t1 = [(x, sx)]" "marked Second t1 = [(y, sy)]"
    "manager_cmd rnd p (request_text A B) t = Some (t1, map (\<lambda>n. received n (request_text A B)) (reached A B 0 (names t)))"
    by (rule exchange_request [OF assms]) blast
  let ?boss = "x = name_of t" and ?spin = "\<not> x = name_of t \<and> y \<notin> set (sub_names x t)"
  have "exch_inv ?boss A B x sx y sy (exch_start ?boss ?spin x sx y sy)" by (rule exch_start_inv) simp
  then obtain e where "reach (exch_step ?boss A B) (exch_start ?boss ?spin x sx y sy) e" "exch_done ?boss e"
    using exch_completes by blast
  from manager_step.exchange [OF r(5) split_exchange [OF assms(2,3)] r(3,4,1,2) refl refl this] show ?thesis by blast
qed

lemma request_end:
  assumes "manager_step rnd p command t t' out" and split: "split_words command = Some [''exchange'', A, B]"
    and cmd: "manager_cmd rnd p command t = Some (t1, out1)"
    and marks: "marked First t1 = [(x, sx)]" "marked Second t1 = [(y, sy)]"
  shows "\<exists>e. reach (exch_step (x = name_of t) A B)
      (exch_start (x = name_of t) (x \<noteq> name_of t \<and> y \<notin> set (sub_names x t)) x sx y sy) e \<and>
    exch_done (x = name_of t) e \<and> t' = settle (key (end_first e)) (key (end_second e)) t1 \<and> out = out1 @ lines (common e)"
  using assms(1)
proof cases
  case (plain a0 ws)
  with split show ?thesis by simp
next
  case (exchange t1' out' a b ws n1 s1 n2 s2 boss spin e)
  have "t1' = t1" "out' = out1" "a = A" "b = B" using exchange(3,4) cmd split by simp_all
  moreover from this have "n1 = x" "s1 = sx" "n2 = y" "s2 = sy" using exchange(5,6) marks by simp_all
  ultimately show ?thesis using exchange by blast
qed

lemma exchange_result:
  assumes t: "tree_ok t" and AB: "party_name A" "party_name B" "A \<noteq> B" "A \<in> set (names t)" "B \<in> set (names t)"
    and step: "manager_step rnd p (request_text A B) t t' out"
  shows "secrets t' = swapped A B (secrets t)" and "tree_ok t'"
    and "mset out = mset (map (\<lambda>n. received n (request_text A B)) (reached A B 0 (names t))) +
      {#acquired A B (the (map_of (secrets t) B)), acquired B A (the (map_of (secrets t) A)), exchanged A B#}"
proof -
  have ok: "svc_ok t" "distinct (names t)" using t by (auto simp: tree_ok_def)
  obtain x y sx sy t1 where r: "{x, y} = {A, B}" "x \<noteq> y" "map_of (secrets t) x = Some sx" "map_of (secrets t) y = Some sy"
    "t1 = paint (map_of [(x, First), (y, Second)]) t" "marked First t1 = [(x, sx)]" "marked Second t1 = [(y, sy)]"
    "manager_cmd rnd p (request_text A B) t = Some (t1, map (\<lambda>n. received n (request_text A B)) (reached A B 0 (names t)))"
    by (rule exchange_request [OF t AB]) blast
  have small: "unat sx < 2 ^ 31" "unat sy < 2 ^ 31"
    using secrets_small(1) [OF ok(1) map_of_SomeD] r(3,4) by fastforce+
  obtain e where e: "reach (exch_step (x = name_of t) A B)
      (exch_start (x = name_of t) (x \<noteq> name_of t \<and> y \<notin> set (sub_names x t)) x sx y sy) e"
    "exch_done (x = name_of t) e" "t' = settle (key (end_first e)) (key (end_second e)) t1"
    "out = map (\<lambda>n. received n (request_text A B)) (reached A B 0 (names t)) @ lines (common e)"
    using request_end [OF step split_exchange [OF AB(1,2)] r(8,6,7)] by blast
  have "exch_inv (x = name_of t) A B x sx y sy
      (exch_start (x = name_of t) (x \<noteq> name_of t \<and> y \<notin> set (sub_names x t)) x sx y sy)"
    by (rule exch_start_inv) simp
  then have "exch_inv (x = name_of t) A B x sx y sy e" by (rule exch.reach_inv_from [OF e(1)])
  from exch_done_result [OF this e(2) small] have fin: "key (end_first e) = sy" "key (end_second e) = sx"
    "mset (lines (common e)) = {#acquired x y sy, acquired y x sx, exchanged A B#}" by auto
  let ?m = "map_of [(x, First), (y, Second)]"
  have "after_swap ?m sy sx ns = (fst ns, if fst ns = A then the (map_of (secrets t) B)
      else if fst ns = B then the (map_of (secrets t) A) else snd ns)" for ns
    using r(1-4) by (auto simp: after_swap_def doubleton_eq_iff)
  then show sec: "secrets t' = swapped A B (secrets t)"
    using settle_paint(1) [OF ok(1), of sy sx ?m] by (simp add: e(3) fin r(5) swapped_def case_prod_unfold)
  then have "names t' = names t"
    unfolding map_fst_secrets(1) [symmetric] by (simp add: swapped_def case_prod_unfold comp_def)
  moreover have "svc_ok t'" using settle_ok [OF ok(1) small(2,1)] by (simp add: e(3) fin r(5))
  ultimately show "tree_ok t'" using ok(2) by (simp add: tree_ok_def)
  from r(1,2) consider "x = A" "y = B" | "x = B" "y = A" by (auto simp: doubleton_eq_iff)
  then show "mset out = mset (map (\<lambda>n. received n (request_text A B)) (reached A B 0 (names t))) +
      {#acquired A B (the (map_of (secrets t) B)), acquired B A (the (map_of (secrets t) A)), exchanged A B#}"
    by cases (use r(3,4) in \<open>simp_all add: e(4) fin(3) add_mset_commute\<close>)
qed

section \<open>Sessions\<close>

text \<open>
  Well-formed commands: the names are words that fit, a parent does not get two children of one name,
  the parties of an exchange exist and all names are unique when there is one.
\<close>

datatype request = Spawn string string | Kill string | Exchange string string

fun req_text :: "request \<Rightarrow> string" where
  "req_text (Spawn P C) = ''spawn '' @ P @ '' '' @ C"
| "req_text (Kill T) = ''kill '' @ T"
| "req_text (Exchange A B) = request_text A B"

fun req_ok :: "service \<Rightarrow> request \<Rightarrow> bool" where
  "req_ok t (Spawn P C) \<longleftrightarrow> sword P \<and> length P \<le> 100 \<and> fit_name C \<and> room P C t"
| "req_ok t (Kill T) \<longleftrightarrow> kill_name T"
| "req_ok t (Exchange A B) \<longleftrightarrow> party_name A \<and> party_name B \<and> A \<noteq> B \<and> A \<in> set (names t) \<and> B \<in> set (names t) \<and>
     distinct (names t)"

lemma req_text_fits: "req_ok t r \<Longrightarrow> length (req_text r) < MAX_CMD_LEN"
  by (cases r) (auto simp: fit_name_def kill_name_def party_name_def request_text_def MAX_CMD_LEN_def
      MAX_SERVICE_NAME_LEN_def)

inductive session :: "(nat \<Rightarrow> nat) \<Rightarrow> service \<Rightarrow> bool" for rnd where
  start: "session rnd (fst (manager_start rnd p))"
| command: "\<lbrakk>session rnd t; req_ok t r; manager_step rnd p (req_text r) t t' out\<rbrakk> \<Longrightarrow> session rnd t'"

lemma split_req: "req_ok t r \<Longrightarrow> split_words (req_text r) = (case r of
    Spawn P C \<Rightarrow> Some [''spawn'', P, C] | Kill T \<Rightarrow> Some [''kill'', T] | Exchange A B \<Rightarrow> Some [''exchange'', A, B])"
  by (cases r) (auto simp: split_spawn split_kill split_exchange fit_name_def kill_name_def simp del: append_Cons append_Nil)

text \<open>Spawn and kill are determined by \<open>manager_cmd\<close>.\<close>

lemma plain_step:
  assumes "split_words command = Some (a0 # ws)" and "a0 \<noteq> ''exchange''"
  shows "manager_step rnd p command t t' out \<longleftrightarrow> manager_cmd rnd p command t = Some (t', out)"
proof
  assume "manager_step rnd p command t t' out"
  then show "manager_cmd rnd p command t = Some (t', out)"
    by cases (use assms in auto)
qed (rule manager_step.plain [OF _ assms])

text \<open>
  What a command does to the names: they stay unique unless a service is spawned, under a service that
  is there, with a name that is taken.
\<close>

lemma req_step:
  assumes t: "svc_ok t" and r: "req_ok t r" and rnd: "rnd p < 2 ^ 31"
    and step: "manager_step rnd p (req_text r) t t' out"
  shows "if r = Kill (name_of t) then t' = Dead (name_of t) else svc_ok t' \<and> name_of t' = name_of t"
    and "distinct (names t) \<Longrightarrow> distinct (names t') \<longleftrightarrow>
      \<not> (\<exists>P C. r = Spawn P C \<and> P \<in> set (names t) \<and> C \<in> set (names t))"
proof -
  have live: "all_live t" by (rule svc_ok_live [OF t])
  have "(if r = Kill (name_of t) then t' = Dead (name_of t) else svc_ok t' \<and> name_of t' = name_of t) \<and>
    (distinct (names t) \<longrightarrow> distinct (names t') =
      (\<not> (\<exists>P C. r = Spawn P C \<and> P \<in> set (names t) \<and> C \<in> set (names t))))"
  proof (cases r)
    case (Spawn P C)
    have "manager_cmd rnd p (req_text r) t = Some (t', out)"
      using step plain_step [OF split_req [OF r, unfolded Spawn request.case]] Spawn by simp
    then have "t' = (if P \<in> set (names t) then add_under P (newborn rnd p C) t else t)"
      using manager_spawn_spec [OF _ _ live _ refl, of P C rnd p] r Spawn by (auto split: if_splits)
    moreover have "name_of (add_under P new t) = name_of t" for new by (cases t) auto
    ultimately show ?thesis
      using add_under_ok(1) [OF t newborn_ok [of rnd p C]] rnd distinct_spawn [of P t rnd p C] t Spawn by auto
  next
    case (Kill T)
    have "manager_cmd rnd p (req_text r) t = Some (t', out)"
      using step plain_step [OF split_req [OF r, unfolded Kill request.case]] Kill by simp
    then have "t' = (if name_of t = T then Dead T else if T \<in> set (names t) then prune T t else t)"
      using manager_kill_spec [OF _ live refl, of T rnd p] r Kill by (auto split: if_splits)
    moreover have "name_of (prune T t) = name_of t" by (cases t) auto
    ultimately show ?thesis using prune_ok(1) [OF t, of T] distinct_kill [OF t, of T] t Kill by auto
  next
    case (Exchange A B)
    then have AB: "party_name A" "party_name B" "A \<noteq> B" "A \<in> set (names t)" "B \<in> set (names t)"
      and t': "tree_ok t" and "manager_step rnd p (request_text A B) t t' out" using r step t by (auto simp: tree_ok_def)
    note res = exchange_result [OF t' AB this(7)]
    have "names t' = names t"
      using res(1) unfolding map_fst_secrets(1) [symmetric] by (simp add: swapped_def case_prod_unfold comp_def)
    moreover have "all_live t'" using res(2) svc_ok_live by (auto simp: tree_ok_def)
    ultimately have "names t' = names t \<and> name_of t' = name_of t" using live names_name by (metis list.inject)
    with res(2) Exchange show ?thesis by (simp add: tree_ok_def)
  qed
  then show "if r = Kill (name_of t) then t' = Dead (name_of t) else svc_ok t' \<and> name_of t' = name_of t"
    and "distinct (names t) \<Longrightarrow> distinct (names t') \<longleftrightarrow>
      \<not> (\<exists>P C. r = Spawn P C \<and> P \<in> set (names t) \<and> C \<in> set (names t))" by blast+
qed

text \<open>A command that is not an exchange is carried out, one way only.\<close>

lemma plain_answered:
  assumes t: "svc_ok t" and r: "req_ok t r" and plain: "\<And>A B. r \<noteq> Exchange A B"
  shows "\<exists>t' out. manager_cmd rnd p (req_text r) t = Some (t', out)"
proof (cases r)
  case (Spawn P C)
  with manager_spawn_spec [OF _ _ svc_ok_live [OF t] _ refl, of P C rnd p] r show ?thesis by auto
next
  case (Kill T)
  with manager_kill_spec [OF _ svc_ok_live [OF t] refl, of T rnd p] r show ?thesis by auto
qed (use plain in blast)

text \<open>
  An exchange is carried out: the request finds the parties, and every run of the parties and the
  manager from there ends, within 24 steps, with the command done.
\<close>

lemma exchange_answered:
  assumes t: "svc_ok t" and r: "req_ok t (Exchange A B)"
  shows "\<exists>t1 out n1 s1 n2 s2. manager_cmd rnd p (request_text A B) t = Some (t1, out) \<and>
    marked First t1 = [(n1, s1)] \<and> marked Second t1 = [(n2, s2)] \<and>
    (\<forall>k x. (exch_step (n1 = name_of t) A B ^^ k)
        (exch_start (n1 = name_of t) (n1 \<noteq> name_of t \<and> n2 \<notin> set (sub_names n1 t)) n1 s1 n2 s2) x \<longrightarrow>
      k \<le> 24 \<and> (if exch_done (n1 = name_of t) x
        then manager_step rnd p (request_text A B) t
          (settle (key (end_first x)) (key (end_second x)) t1) (out @ lines (common x))
        else \<exists>y. exch_step (n1 = name_of t) A B x y))"
proof -
  have AB: "party_name A" "party_name B" "A \<noteq> B" "A \<in> set (names t)" "B \<in> set (names t)" and t': "tree_ok t"
    using r t by (auto simp: tree_ok_def)
  obtain x y sx sy t1 where q: "{x, y} = {A, B}" "x \<noteq> y" "marked First t1 = [(x, sx)]" "marked Second t1 = [(y, sy)]"
    "manager_cmd rnd p (request_text A B) t = Some (t1, map (\<lambda>n. received n (request_text A B)) (reached A B 0 (names t)))"
    by (rule exchange_request [OF t' AB]) blast
  let ?boss = "x = name_of t" and ?spin = "\<not> x = name_of t \<and> y \<notin> set (sub_names x t)"
  have run: "k \<le> 24 \<and> (if exch_done ?boss e
      then manager_step rnd p (request_text A B) t (settle (key (end_first e)) (key (end_second e)) t1)
        (map (\<lambda>n. received n (request_text A B)) (reached A B 0 (names t)) @ lines (common e))
      else \<exists>z. exch_step ?boss A B e z)"
    if "(exch_step ?boss A B ^^ k) (exch_start ?boss ?spin x sx y sy) e" for k e
  proof -
    note reached = relpow_reach [OF that]
    have inv: "exch_inv ?boss A B x sx y sy e"
      by (rule exch.reach_inv_from [OF reached exch_start_inv]) simp
    then have "pc_first e + pc_second e + pc_manager e \<le> 24"
      by (auto simp: exch_inv_def order_ok_def split: if_splits)
    then have "k \<le> 24" using exch_run_count [OF that] by linarith
    with exch_progress [OF inv] manager_step.exchange [OF q(5) split_exchange [OF AB(1,2)] q(3,4,1,2) refl refl reached]
    show ?thesis by auto
  qed
  with q(3-5) show ?thesis by blast
qed

lemma session_inv:
  assumes "session rnd t" and "\<And>p. rnd p < 2 ^ 31"
  shows "t = Dead ''Manager'' \<or> svc_ok t \<and> name_of t = ''Manager''"
  using assms(1)
proof induction
  case (start p)
  have "svc_ok (fst (manager_start rnd p))"
    using assms(2) [of p] by (simp add: manager_start_def unat_of_nat take_bit_nat_eq_self)
  then show ?case by (simp add: manager_start_def)
next
  case (command t r p t' out)
  have "manager_cmd rnd p (req_text r) t \<noteq> None" using command(3) by cases auto
  then have "t \<noteq> Dead ''Manager''" by auto
  with command(4) have t: "svc_ok t" "name_of t = ''Manager''" by auto
  from req_step(1) [OF t(1) command(2) assms(2) command(3)] t(2) show ?case by (auto split: if_splits)
qed

end
