(* ===== verification/Svc_Protocol.thy ===== *)
theory Svc_Protocol
  imports Svc_Exchange
begin

text \<open>
  An exchange with its request: the messages that ask the parties and their replies, the files the
  parties create, and then the passing of the secrets of \<open>Svc_Exchange\<close>, all interleaved. The
  services on the way between the manager and a party only pass messages on and are left out. The
  theory shows that the request can be taken as one step before the pipes are used.
\<close>

section \<open>Messages and programs\<close>

text \<open>
  How the parties stand: below different children of some service, the second below the first, or
  the manager is the first party itself. Who asks the second party depends on it.
\<close>

datatype layout = Apart | Nested | Boss

datatype mail = Ask_first | Reply_first | Ask_second | Reply_second

datatype pact = Fopen party | Send mail | Recv mail | Do act

record proto =
  at_first :: nat
  at_second :: nat
  at_manager :: nat
  p_first :: endpoint
  p_second :: endpoint
  p_common :: shared
  mails :: "mail set"

fun do_pact :: "pact \<Rightarrow> endpoint \<Rightarrow> shared \<Rightarrow> mail set \<Rightarrow> (endpoint \<times> shared \<times> mail set) option" where
  "do_pact (Fopen q) e sh ms = Some (e, if q = First then sh\<lparr>file_first := True\<rparr> else sh\<lparr>file_second := True\<rparr>, ms)"
| "do_pact (Send x) e sh ms = Some (e, sh, insert x ms)"
| "do_pact (Recv x) e sh ms = (if x \<in> ms then Some (e, sh, ms - {x}) else None)"
| "do_pact (Do a) e sh ms = (case do_act a e sh of None \<Rightarrow> None | Some (e, sh) \<Rightarrow> Some (e, sh, ms))"

text \<open>
  The first party that stands apart replies before it waits for the files. One that asked the
  second itself reads at once, and replies only after it has printed its line.
\<close>

definition first_full :: "layout \<Rightarrow> string \<Rightarrow> string \<Rightarrow> pact list" where
  "first_full l a b = (case l of
     Apart \<Rightarrow> [Recv Ask_first, Fopen First, Send Reply_first] @ map Do (first_prog False a b)
   | Nested \<Rightarrow> [Recv Ask_first, Fopen First, Send Ask_second, Recv Reply_second] @
       map Do (butlast (tl (first_prog False a b))) @ [Send Reply_first, Do (Unlink First)]
   | Boss \<Rightarrow> [Send Ask_second, Recv Reply_second] @ map Do (tl (first_prog True a b)))"

definition second_full :: "pact list" where
  "second_full = [Recv Ask_second, Fopen Second, Send Reply_second] @ map Do second_prog"

definition manager_full :: "layout \<Rightarrow> string \<Rightarrow> string \<Rightarrow> pact list" where
  "manager_full l a b = (case l of
     Apart \<Rightarrow> [Send Ask_first, Recv Reply_first, Send Ask_second, Recv Reply_second] @ map Do (manager_prog False a b)
   | Nested \<Rightarrow> [Send Ask_first, Recv Reply_first] @ map Do (manager_prog False a b)
   | Boss \<Rightarrow> [])"

inductive proto_step :: "layout \<Rightarrow> string \<Rightarrow> string \<Rightarrow> proto \<Rightarrow> proto \<Rightarrow> bool" for l a b where
  first_moves: "\<lbrakk>at_first z < length (first_full l a b);
     do_pact (first_full l a b ! at_first z) (p_first z) (p_common z) (mails z) = Some (e, sh, ms)\<rbrakk>
     \<Longrightarrow> proto_step l a b z (z\<lparr>at_first := Suc (at_first z), p_first := e, p_common := sh, mails := ms\<rparr>)"
| second_moves: "\<lbrakk>at_second z < length second_full;
     do_pact (second_full ! at_second z) (p_second z) (p_common z) (mails z) = Some (e, sh, ms)\<rbrakk>
     \<Longrightarrow> proto_step l a b z (z\<lparr>at_second := Suc (at_second z), p_second := e, p_common := sh, mails := ms\<rparr>)"
| manager_moves: "\<lbrakk>at_manager z < length (manager_full l a b);
     do_pact (manager_full l a b ! at_manager z) (p_first z) (p_common z) (mails z) = Some (e, sh, ms)\<rbrakk>
     \<Longrightarrow> proto_step l a b z (z\<lparr>at_manager := Suc (at_manager z), p_common := sh, mails := ms\<rparr>)"

text \<open>The start: the manager has made the pipes, there are no files and no messages.\<close>

definition proto_start :: "string \<Rightarrow> 64 word \<Rightarrow> string \<Rightarrow> 64 word \<Rightarrow> proto" where
  "proto_start n1 s1 n2 s2 = \<lparr>at_first = 0, at_second = 0, at_manager = 0,
     p_first = \<lparr>me = n1, peer = n2, key = s1, tm = None\<rparr>,
     p_second = \<lparr>me = n2, peer = n1, key = s2, tm = None\<rparr>,
     p_common = \<lparr>pipe = (\<lambda>_. \<lparr>reader_seen = False, reader = False, writer_seen = False, writer = False, buffer = None\<rparr>),
       file_first = False, file_second = False, fifos = True, lines = []\<rparr>,
     mails = {}\<rparr>"

definition proto_done :: "layout \<Rightarrow> proto \<Rightarrow> bool" where
  "proto_done l z \<longleftrightarrow> at_first z = (case l of Apart \<Rightarrow> 14 | Nested \<Rightarrow> 15 | Boss \<Rightarrow> 13) \<and> at_second z = 13 \<and>
     at_manager z = (case l of Apart \<Rightarrow> 7 | Nested \<Rightarrow> 5 | Boss \<Rightarrow> 0)"

section \<open>The exchange inside\<close>

text \<open>What a state is once the request is forgotten: both files count as created from the start.\<close>

definition core_first :: "layout \<Rightarrow> nat \<Rightarrow> nat" where
  "core_first l i = (case l of Apart \<Rightarrow> i - 3
     | Nested \<Rightarrow> if i \<le> 4 then 1 else if i \<le> 13 then i - 3 else i - 4
     | Boss \<Rightarrow> if i \<le> 2 then 1 else i - 1)"

definition core_manager :: "layout \<Rightarrow> nat \<Rightarrow> nat" where
  "core_manager l k = (case l of Apart \<Rightarrow> k - 4 | Nested \<Rightarrow> k - 2 | Boss \<Rightarrow> 0)"

definition core_common :: "layout \<Rightarrow> proto \<Rightarrow> shared" where
  "core_common l z = (p_common z)\<lparr>file_first := (if at_first z < 2 then l \<noteq> Boss else file_first (p_common z)),
     file_second := (if at_second z < 2 then True else file_second (p_common z))\<rparr>"

definition core :: "layout \<Rightarrow> proto \<Rightarrow> exch" where
  "core l z = \<lparr>pc_first = core_first l (at_first z), pc_second = at_second z - 3,
     pc_manager = core_manager l (at_manager z), end_first = p_first z, end_second = p_second z,
     common = core_common l z\<rparr>"

lemma core_start: "core l (proto_start n1 s1 n2 s2) = exch_start (l = Boss) (l = Apart) n1 s1 n2 s2"
  by (cases l) (simp_all add: core_def core_first_def core_manager_def core_common_def proto_start_def exch_start_def)

section \<open>The invariant of the request\<close>

text \<open>Where each process can be, and which messages are under way.\<close>

fun under_way :: "layout \<Rightarrow> nat \<Rightarrow> nat \<Rightarrow> nat \<Rightarrow> mail \<Rightarrow> bool" where
  "under_way Apart i j k Ask_first \<longleftrightarrow> 1 \<le> k \<and> i = 0"
| "under_way Apart i j k Reply_first \<longleftrightarrow> 3 \<le> i \<and> k < 2"
| "under_way Apart i j k Ask_second \<longleftrightarrow> 3 \<le> k \<and> j = 0"
| "under_way Apart i j k Reply_second \<longleftrightarrow> 3 \<le> j \<and> k < 4"
| "under_way Nested i j k Ask_first \<longleftrightarrow> 1 \<le> k \<and> i = 0"
| "under_way Nested i j k Reply_first \<longleftrightarrow> 14 \<le> i \<and> k < 2"
| "under_way Nested i j k Ask_second \<longleftrightarrow> 3 \<le> i \<and> j = 0"
| "under_way Nested i j k Reply_second \<longleftrightarrow> 3 \<le> j \<and> i < 4"
| "under_way Boss i j k Ask_second \<longleftrightarrow> 1 \<le> i \<and> j = 0"
| "under_way Boss i j k Reply_second \<longleftrightarrow> 3 \<le> j \<and> i < 2"
| "under_way Boss i j k _ \<longleftrightarrow> False"

fun places_ok :: "layout \<Rightarrow> nat \<Rightarrow> nat \<Rightarrow> nat \<Rightarrow> bool" where
  "places_ok Apart i j k \<longleftrightarrow> i \<le> 14 \<and> j \<le> 13 \<and> k \<le> 7 \<and> (1 \<le> i \<longrightarrow> 1 \<le> k) \<and> (2 \<le> k \<longrightarrow> 3 \<le> i) \<and>
     (1 \<le> j \<longrightarrow> 3 \<le> k) \<and> (4 \<le> k \<longrightarrow> 3 \<le> j) \<and> (4 \<le> i \<longrightarrow> 2 \<le> j)"
| "places_ok Nested i j k \<longleftrightarrow> i \<le> 15 \<and> j \<le> 13 \<and> k \<le> 5 \<and> (1 \<le> i \<longrightarrow> 1 \<le> k) \<and> (2 \<le> k \<longrightarrow> 14 \<le> i) \<and>
     (1 \<le> j \<longrightarrow> 3 \<le> i) \<and> (4 \<le> i \<longrightarrow> 3 \<le> j)"
| "places_ok Boss i j k \<longleftrightarrow> i \<le> 13 \<and> j \<le> 13 \<and> k = 0 \<and> (1 \<le> j \<longrightarrow> 1 \<le> i) \<and> (2 \<le> i \<longrightarrow> 3 \<le> j)"

definition mail_ok :: "layout \<Rightarrow> nat \<Rightarrow> nat \<Rightarrow> nat \<Rightarrow> mail set \<Rightarrow> bool" where
  "mail_ok l i j k ms \<longleftrightarrow> places_ok l i j k \<and> (\<forall>x. x \<in> ms \<longleftrightarrow> under_way l i j k x)"

lemma mail_all: "(\<forall>x. P x) \<longleftrightarrow> P Ask_first \<and> P Reply_first \<and> P Ask_second \<and> P Reply_second"
  by (metis mail.exhaust)

definition proto_inv :: "layout \<Rightarrow> proto \<Rightarrow> bool" where
  "proto_inv l z \<longleftrightarrow> mail_ok l (at_first z) (at_second z) (at_manager z) (mails z) \<and>
     (l = Boss \<or> at_first z < 2 \<longrightarrow> \<not> file_first (p_common z)) \<and>
     (at_second z < 2 \<longrightarrow> \<not> file_second (p_common z))"

lemma first_full_at:
  "first_full Apart a b ! 0 = Recv Ask_first" "first_full Apart a b ! Suc 0 = Fopen First"
  "first_full Apart a b ! 2 = Send Reply_first"
  "3 \<le> i \<Longrightarrow> i < 14 \<Longrightarrow> first_full Apart a b ! i = Do (first_prog False a b ! (i - 3))"
  "first_full Nested a b ! 0 = Recv Ask_first" "first_full Nested a b ! Suc 0 = Fopen First"
  "first_full Nested a b ! 2 = Send Ask_second" "first_full Nested a b ! 3 = Recv Reply_second"
  "4 \<le> i \<Longrightarrow> i < 13 \<Longrightarrow> first_full Nested a b ! i = Do (first_prog False a b ! (i - 3))"
  "first_full Nested a b ! 13 = Send Reply_first" "first_full Nested a b ! 14 = Do (first_prog False a b ! 10)"
  "first_full Boss a b ! 0 = Send Ask_second" "first_full Boss a b ! Suc 0 = Recv Reply_second"
  "2 \<le> i \<Longrightarrow> i < 13 \<Longrightarrow> first_full Boss a b ! i = Do (first_prog True a b ! (i - 1))"
  "length (first_full l a b) = (case l of Apart \<Rightarrow> 14 | Nested \<Rightarrow> 15 | Boss \<Rightarrow> 13)"
  by (auto simp: first_full_def first_prog_def nth_Cons' numeral_2_eq_2 numeral_3_eq_3 split: layout.split)

lemma second_full_at:
  "second_full ! 0 = Recv Ask_second" "second_full ! Suc 0 = Fopen Second" "second_full ! 2 = Send Reply_second"
  "3 \<le> j \<Longrightarrow> j < 13 \<Longrightarrow> second_full ! j = Do (second_prog ! (j - 3))" "length second_full = 13"
  by (auto simp: second_full_def second_prog_def nth_Cons' numeral_2_eq_2)

lemma manager_full_at:
  "manager_full Apart a b ! 0 = Send Ask_first" "manager_full Apart a b ! Suc 0 = Recv Reply_first"
  "manager_full Apart a b ! 2 = Send Ask_second" "manager_full Apart a b ! 3 = Recv Reply_second"
  "4 \<le> k \<Longrightarrow> k < 7 \<Longrightarrow> manager_full Apart a b ! k = Do (manager_prog False a b ! (k - 4))"
  "manager_full Nested a b ! 0 = Send Ask_first" "manager_full Nested a b ! Suc 0 = Recv Reply_first"
  "2 \<le> k \<Longrightarrow> k < 5 \<Longrightarrow> manager_full Nested a b ! k = Do (manager_prog False a b ! (k - 2))"
  "length (manager_full l a b) = (case l of Apart \<Rightarrow> 7 | Nested \<Rightarrow> 5 | Boss \<Rightarrow> 0)"
  by (auto simp: manager_full_def manager_prog_def nth_Cons' numeral_2_eq_2 numeral_3_eq_3 split: layout.split)

section \<open>Every step is a step of the exchange, or none\<close>

lemma do_act_files:
  "do_act x e sh = Some (e', sh') \<Longrightarrow> (file_first sh' \<longrightarrow> file_first sh) \<and> (file_second sh' \<longrightarrow> file_second sh)"
  by (cases x) (auto simp: act_defs)

lemma do_pact_Do:
  "do_pact (Do x) e sh ms = Some (e', sh', ms') \<longleftrightarrow> do_act x e sh = Some (e', sh') \<and> ms' = ms"
  by (auto split: option.splits)

lemma core_common_same:
  assumes "proto_inv l z" and "l = Boss \<or> 2 \<le> at_first z" and "2 \<le> at_second z"
  shows "core_common l z = p_common z"
  using assms by (auto simp: core_common_def proto_inv_def)

lemma mail_okD:
  assumes "mail_ok l i j k ms"
  shows "l = Apart \<Longrightarrow> 4 \<le> i \<Longrightarrow> 2 \<le> j" and "l = Nested \<Longrightarrow> 4 \<le> i \<Longrightarrow> 2 \<le> j" and "l = Boss \<Longrightarrow> 2 \<le> i \<Longrightarrow> 2 \<le> j"
    and "1 \<le> j \<Longrightarrow> l = Boss \<or> 2 \<le> i" and "l = Apart \<Longrightarrow> 4 \<le> k \<Longrightarrow> 2 \<le> i \<and> 2 \<le> j"
    and "l = Nested \<Longrightarrow> 2 \<le> k \<Longrightarrow> 2 \<le> i \<and> 2 \<le> j"
  using assms by (cases l; auto simp: mail_ok_def)+

lemmas request_simps = first_full_at second_full_at manager_full_at proto_inv_def mail_ok_def mail_all core_common_def

text \<open>The first party: which part of its program it is in.\<close>

lemma first_at_cases:
  assumes "i < length (first_full l a b)"
  obtains (Msg) "core_first l (Suc i) = core_first l i" "\<And>x. first_full l a b ! i \<noteq> Do x"
  | (Act) "core_first l (Suc i) = Suc (core_first l i)" "first_full l a b ! i = Do (first_prog (l = Boss) a b ! core_first l i)"
    "core_first l i < length (first_prog (l = Boss) a b)" "l = Apart \<and> 3 \<le> i \<or> l = Nested \<and> 4 \<le> i \<and> i \<noteq> 13 \<or> l = Boss \<and> 2 \<le> i"
proof (cases l)
  case Apart
  then consider "i = 0" | "i = 1" | "i = 2" | "3 \<le> i" "i < 14" using assms by (simp add: first_full_at(15)) linarith
  then show thesis
    using Msg Act by cases (auto simp: Apart first_full_at core_first_def first_prog_at(14) Suc_diff_le)
next
  case Nested
  then consider "i = 0" | "i = 1" | "i = 2" | "i = 3" | "4 \<le> i" "i < 13" | "i = 13" | "i = 14"
    using assms by (simp add: first_full_at(15)) linarith
  moreover have "core_first Nested j = j - 3" if "4 \<le> j" "j \<le> 13" for j
    using that by (simp add: core_first_def)
  ultimately show thesis
    using Msg Act by cases (auto simp: Nested first_full_at core_first_def first_prog_at(14) Suc_diff_le)
next
  case Boss
  then consider "i = 0" | "i = 1" | "2 \<le> i" "i < 13" using assms by (simp add: first_full_at(15)) linarith
  then show thesis
    using Msg Act by cases (auto simp: Boss first_full_at core_first_def first_prog_at(14) Suc_diff_le)
qed

text \<open>A message or a new file: the exchange inside does not move.\<close>

lemma first_message:
  assumes inv: "proto_inv l z" and i: "at_first z < length (first_full l a b)"
    and act: "do_pact (first_full l a b ! at_first z) (p_first z) (p_common z) (mails z) = Some (e, sh, ms)"
    and msg: "\<And>x. first_full l a b ! at_first z \<noteq> Do x"
  defines "z' \<equiv> z\<lparr>at_first := Suc (at_first z), p_first := e, p_common := sh, mails := ms\<rparr>"
  shows "proto_inv l z' \<and> core_common l z' = core_common l z \<and> e = p_first z"
proof (cases l)
  case Apart
  with i have "at_first z < 14" by (simp add: first_full_at(15))
  with msg Apart have "at_first z = 0 \<or> at_first z = 1 \<or> at_first z = 2" using first_full_at(4) [of "at_first z"] by fastforce
  then show ?thesis using inv act
    by (elim disjE) (auto simp: Apart z'_def request_simps split: if_splits)
next
  case Nested
  with i have "at_first z < 15" by (simp add: first_full_at(15))
  then have "at_first z < 4 \<or> at_first z < 13 \<and> 4 \<le> at_first z \<or> at_first z = 13 \<or> at_first z = 14" by linarith
  with msg Nested have "at_first z < 4 \<or> at_first z = 13" using first_full_at(9) [of "at_first z" a b] first_full_at(11) [of a b] by fastforce
  then have "at_first z = 0 \<or> at_first z = 1 \<or> at_first z = 2 \<or> at_first z = 3 \<or> at_first z = 13" by linarith
  then show ?thesis using inv act
    by (elim disjE) (auto simp: Nested z'_def request_simps split: if_splits)
next
  case Boss
  with i have "at_first z < 13" by (simp add: first_full_at(15))
  with msg Boss have "at_first z = 0 \<or> at_first z = 1" using first_full_at(14) [of "at_first z"] by fastforce
  then show ?thesis using inv act
    by (elim disjE) (auto simp: Boss z'_def request_simps split: if_splits)
qed

lemma first_moves_core:
  assumes inv: "proto_inv l z" and i: "at_first z < length (first_full l a b)"
    and act: "do_pact (first_full l a b ! at_first z) (p_first z) (p_common z) (mails z) = Some (e, sh, ms)"
  defines "z' \<equiv> z\<lparr>at_first := Suc (at_first z), p_first := e, p_common := sh, mails := ms\<rparr>"
  shows "proto_inv l z' \<and> (core l z' = core l z \<or> exch_step (l = Boss) a b (core l z) (core l z'))"
  using i
proof (cases rule: first_at_cases)
  case Msg
  from first_message [OF inv i act Msg(2)] Msg(1) show ?thesis
    by (auto simp: core_def z'_def)
next
  case Act
  let ?i = "at_first z" and ?j = "at_second z"
  have mail: "mail_ok l ?i ?j (at_manager z) (mails z)" using inv by (simp add: proto_inv_def)
  from act Act(2) have do: "do_act (first_prog (l = Boss) a b ! core_first l ?i) (p_first z) (p_common z) = Some (e, sh)"
    and ms: "ms = mails z" by (simp_all add: do_pact_Do del: do_pact.simps)
  have j: "2 \<le> ?j"
  proof (rule ccontr)
    assume no: "\<not> 2 \<le> ?j"
    have l: "l = Apart" using mail_okD(2,3) [OF mail] Act(4) no by auto
    moreover have "?i = 3" using mail_okD(1) [OF mail l] Act(4) no l by (cases "4 \<le> ?i") auto
    ultimately have "file_second (p_common z)" using do by (simp add: core_first_def act_defs)
    with inv no show False by (simp add: proto_inv_def)
  qed
  have i2: "2 \<le> ?i" using Act(4) by auto
  have same: "core_common l z = p_common z" using inv i2 j by (intro core_common_same) auto
  have "core_common l z' = sh" using i2 j by (simp add: core_common_def z'_def)
  then have "core l z' = (core l z)\<lparr>pc_first := Suc (core_first l ?i), end_first := e, common := sh\<rparr>"
    using Act(1) by (simp add: core_def z'_def)
  moreover have "exch_step (l = Boss) a b (core l z) ((core l z)\<lparr>pc_first := Suc (pc_first (core l z)), end_first := e, common := sh\<rparr>)"
    by (rule exch_step.first_acts) (use Act(3) do same in \<open>simp_all add: core_def\<close>)
  ultimately have "exch_step (l = Boss) a b (core l z) (core l z')" by (simp add: core_def)
  moreover have "mail_ok l (Suc ?i) ?j (at_manager z) (mails z)"
    using mail Act(4) i j by (cases l) (auto simp: request_simps)
  then have "proto_inv l z'"
    using inv j i2 do_act_files [OF do] ms by (auto simp: proto_inv_def z'_def)
  ultimately show ?thesis by blast
qed

lemma second_moves_core:
  assumes inv: "proto_inv l z" and j: "at_second z < length second_full"
    and act: "do_pact (second_full ! at_second z) (p_second z) (p_common z) (mails z) = Some (e, sh, ms)"
  defines "z' \<equiv> z\<lparr>at_second := Suc (at_second z), p_second := e, p_common := sh, mails := ms\<rparr>"
  shows "proto_inv l z' \<and> (core l z' = core l z \<or> exch_step (l = Boss) a b (core l z) (core l z'))"
proof (cases "at_second z < 3")
  case True
  then have "at_second z = 0 \<or> at_second z = 1 \<or> at_second z = 2" by linarith
  then have "proto_inv l z' \<and> core_common l z' = core_common l z \<and> e = p_second z" using inv act
    by (cases l; elim disjE) (auto simp: z'_def request_simps split: if_splits)
  with True show ?thesis by (auto simp: core_def z'_def)
next
  case False
  let ?i = "at_first z" and ?j = "at_second z"
  have mail: "mail_ok l ?i ?j (at_manager z) (mails z)" using inv by (simp add: proto_inv_def)
  have at: "second_full ! ?j = Do (second_prog ! (?j - 3))" using False j by (simp add: second_full_at)
  from act have do: "do_act (second_prog ! (?j - 3)) (p_second z) (p_common z) = Some (e, sh)" and ms: "ms = mails z"
    unfolding at by (simp_all add: do_pact_Do del: do_pact.simps)
  have i: "l = Boss \<or> 2 \<le> ?i" using mail_okD(4) [OF mail] False by simp
  have same: "core_common l z = p_common z" using inv i False by (intro core_common_same) auto
  have boss: "l = Boss \<Longrightarrow> \<not> file_first sh" using inv do_act_files [OF do] by (auto simp: proto_inv_def)
  then have "core_common l z' = sh" using i False by (auto simp: core_common_def z'_def)
  then have "core l z' = (core l z)\<lparr>pc_second := Suc (?j - 3), end_second := e, common := sh\<rparr>"
    using False by (simp add: core_def z'_def Suc_diff_le)
  moreover have "exch_step (l = Boss) a b (core l z) ((core l z)\<lparr>pc_second := Suc (pc_second (core l z)), end_second := e, common := sh\<rparr>)"
    by (rule exch_step.second_acts) (use j False do same in \<open>simp_all add: core_def second_full_at(5) second_prog_at(11)\<close>)
  ultimately have "exch_step (l = Boss) a b (core l z) (core l z')" by (simp add: core_def)
  moreover have "mail_ok l ?i (Suc ?j) (at_manager z) (mails z)"
    using mail False j by (cases l) (auto simp: request_simps)
  then have "proto_inv l z'"
    using inv i False do_act_files [OF do] ms by (auto simp: proto_inv_def z'_def)
  ultimately show ?thesis by blast
qed

lemma manager_moves_core:
  assumes inv: "proto_inv l z" and k: "at_manager z < length (manager_full l a b)"
    and act: "do_pact (manager_full l a b ! at_manager z) (p_first z) (p_common z) (mails z) = Some (e, sh, ms)"
  defines "z' \<equiv> z\<lparr>at_manager := Suc (at_manager z), p_common := sh, mails := ms\<rparr>"
  shows "proto_inv l z' \<and> (core l z' = core l z \<or> exch_step (l = Boss) a b (core l z) (core l z'))"
proof (cases "l = Apart \<and> at_manager z < 4 \<or> l = Nested \<and> at_manager z < 2")
  case True
  then have "l = Apart \<and> at_manager z = 0 \<or> l = Apart \<and> at_manager z = 1 \<or> l = Apart \<and> at_manager z = 2 \<or>
    l = Apart \<and> at_manager z = 3 \<or> l = Nested \<and> at_manager z = 0 \<or> l = Nested \<and> at_manager z = 1" by linarith
  then have "proto_inv l z' \<and> core_common l z' = core_common l z \<and> core_manager l (Suc (at_manager z)) = core_manager l (at_manager z)"
    using inv act by (elim disjE conjE) (auto simp: z'_def request_simps core_manager_def split: if_splits)
  with True show ?thesis by (auto simp: core_def z'_def)
next
  case False
  let ?i = "at_first z" and ?j = "at_second z" and ?k = "at_manager z"
  have l: "l = Apart \<and> 4 \<le> ?k \<or> l = Nested \<and> 2 \<le> ?k" using False k by (cases l) (auto simp: manager_full_at(9))
  have mail: "mail_ok l ?i ?j ?k (mails z)" using inv by (simp add: proto_inv_def)
  have at: "manager_full l a b ! ?k = Do (manager_prog (l = Boss) a b ! core_manager l ?k)"
    using l k by (auto simp: manager_full_at core_manager_def)
  have core: "core_manager l (Suc ?k) = Suc (core_manager l ?k)" "core_manager l ?k < length (manager_prog (l = Boss) a b)"
    using l k by (auto simp: core_manager_def manager_full_at(9) manager_prog_at Suc_diff_le)
  from act have do: "do_act (manager_prog (l = Boss) a b ! core_manager l ?k) (p_first z) (p_common z) = Some (e, sh)"
    and ms: "ms = mails z"
    unfolding at by (simp_all add: do_pact_Do del: do_pact.simps)
  have ij: "2 \<le> ?i" "2 \<le> ?j" using mail_okD(5,6) [OF mail] l by auto
  have same: "core_common l z = p_common z" using inv ij by (intro core_common_same) auto
  have "core_common l z' = sh" using ij by (auto simp: core_common_def z'_def)
  then have "core l z' = (core l z)\<lparr>pc_manager := Suc (core_manager l ?k), common := sh\<rparr>"
    using core by (simp add: core_def z'_def)
  moreover have "exch_step (l = Boss) a b (core l z) ((core l z)\<lparr>pc_manager := Suc (pc_manager (core l z)), common := sh\<rparr>)"
    by (rule exch_step.manager_acts [of _ _ _ _ e]) (use core do same in \<open>simp_all add: core_def\<close>)
  ultimately have "exch_step (l = Boss) a b (core l z) (core l z')" by (simp add: core_def)
  moreover have "mail_ok l ?i ?j (Suc ?k) (mails z)"
    using mail l k by (auto simp: request_simps)
  then have "proto_inv l z'"
    using inv ij l do_act_files [OF do] ms by (auto simp: proto_inv_def z'_def)
  ultimately show ?thesis by blast
qed

lemma proto_step_core:
  assumes "proto_inv l z" and "proto_step l a b z z'"
  shows "proto_inv l z' \<and> (core l z' = core l z \<or> exch_step (l = Boss) a b (core l z) (core l z'))"
  using assms(2,1) by cases (auto dest: first_moves_core second_moves_core manager_moves_core)

lemma proto_start_inv: "proto_inv l (proto_start n1 s1 n2 s2)"
  by (cases l) (auto simp: proto_start_def request_simps)

interpretation proto: transition_invariant "proto_step l a b" "\<lambda>z. \<exists>n1 s1 n2 s2. z = proto_start n1 s1 n2 s2" "proto_inv l"
  for l a b
  by unfold_locales (auto simp: proto_start_inv dest: proto_step_core)

text \<open>A run of the whole is, with the request forgotten, a run of the exchange.\<close>

lemma proto_reach_core:
  assumes "reach (proto_step l a b) (proto_start n1 s1 n2 s2) z"
  shows "reach (exch_step (l = Boss) a b) (exch_start (l = Boss) (l = Apart) n1 s1 n2 s2) (core l z)"
  using assms
proof (induction rule: reach.induct)
  case reach_init
  then show ?case by (simp add: core_start)
next
  case (reach_step z z')
  have "proto_inv l z" by (rule proto.reach_inv [OF _ reach_step(1)]) blast
  from proto_step_core [OF this reach_step(2)] reach_step(3) show ?case
    by (metis reach.reach_step)
qed

lemma proto_reach_inv:
  assumes "reach (proto_step l a b) (proto_start n1 s1 n2 s2) z"
  shows "proto_inv l z" and "exch_inv (l = Boss) a b n1 s1 n2 s2 (core l z)"
proof -
  show "proto_inv l z" by (rule proto.reach_inv [OF _ assms]) blast
  show "exch_inv (l = Boss) a b n1 s1 n2 s2 (core l z)"
    by (rule exch.reach_inv_from [OF proto_reach_core [OF assms] exch_start_inv]) auto
qed

section \<open>No run gets stuck, and every run ends\<close>

lemma proto_can:
  shows first_can: "at_first z < length (first_full l a b) \<Longrightarrow>
      do_pact (first_full l a b ! at_first z) (p_first z) (p_common z) (mails z) \<noteq> None \<Longrightarrow> \<exists>z'. proto_step l a b z z'"
    and second_can: "at_second z < length second_full \<Longrightarrow>
      do_pact (second_full ! at_second z) (p_second z) (p_common z) (mails z) \<noteq> None \<Longrightarrow> \<exists>z'. proto_step l a b z z'"
    and manager_can: "at_manager z < length (manager_full l a b) \<Longrightarrow>
      do_pact (manager_full l a b ! at_manager z) (p_first z) (p_common z) (mails z) \<noteq> None \<Longrightarrow> \<exists>z'. proto_step l a b z z'"
  by (auto intro: proto_step.intros)

text \<open>The request is over when the last message that this layout waits for is received.\<close>

definition request_over :: "layout \<Rightarrow> proto \<Rightarrow> bool" where
  "request_over l z \<longleftrightarrow> (case l of Apart \<Rightarrow> 4 \<le> at_manager z
     | Nested \<Rightarrow> 4 \<le> at_first z \<and> at_first z \<noteq> 13 \<and> (2 \<le> at_manager z \<or> at_first z < 13)
     | Boss \<Rightarrow> 2 \<le> at_first z)"

lemma second_asked:
  assumes inv: "proto_inv l z" and "at_second z < 3" and "at_second z = 0 \<longrightarrow> Ask_second \<in> mails z"
  shows "\<exists>z'. proto_step l a b z z'"
proof (rule second_can)
  show "at_second z < length second_full" using assms(2) by (simp add: second_full_at)
  from assms(2) consider "at_second z = 0" | "at_second z = 1" | "at_second z = 2" by linarith
  then show "do_pact (second_full ! at_second z) (p_second z) (p_common z) (mails z) \<noteq> None"
    by cases (use assms(3) in \<open>simp_all add: second_full_at\<close>)
qed

lemma request_moves:
  assumes inv: "proto_inv l z" and "\<not> request_over l z"
  shows "\<exists>z'. proto_step l a b z z'"
proof (rule ccontr)
  assume no: "\<not> ?thesis"
  let ?i = "at_first z" and ?j = "at_second z" and ?k = "at_manager z"
  have S: "\<not> (?j < 3 \<and> (?j = 0 \<longrightarrow> Ask_second \<in> mails z))" using second_asked [OF inv, of a b] no by metis
  note F = first_can [of z l a b] and M = manager_can [of z l a b]
  show False
  proof (cases l)
    case Apart
    with assms(2) have "?k = 0 \<or> ?k = 1 \<or> ?k = 2 \<or> ?k = 3" by (auto simp: request_over_def)
    moreover have "?i = 0 \<or> ?i = 1 \<or> ?i = 2 \<or> 3 \<le> ?i" by linarith
    ultimately show False using F M S no inv unfolding Apart
      by (elim disjE) (auto simp: request_simps)
  next
    case Nested
    with inv have "?k \<le> 5" "2 \<le> ?k \<longrightarrow> 14 \<le> ?i" "?i \<le> 15" by (auto simp: proto_inv_def mail_ok_def)
    with assms(2) Nested have "?i = 0 \<or> ?i = 1 \<or> ?i = 2 \<or> ?i = 3 \<or> ?i = 13 \<or> 14 \<le> ?i \<and> ?k < 2"
      by (auto simp: request_over_def)
    moreover have "?k = 0 \<or> ?k = 1 \<or> 2 \<le> ?k" by linarith
    ultimately show False using F M S no inv unfolding Nested
      by (elim disjE conjE) (auto simp: request_simps)
  next
    case Boss
    with assms(2) have "?i = 0 \<or> ?i = 1" by (auto simp: request_over_def)
    then show False using F S no inv unfolding Boss
      by (elim disjE) (auto simp: request_simps)
  qed
qed

lemma request_overD:
  assumes inv: "proto_inv l z" and over: "request_over l z"
  shows "3 \<le> at_second z" and "core_common l z = p_common z"
    and "core_first l (at_first z) < length (first_prog (l = Boss) a b) \<Longrightarrow> at_first z < length (first_full l a b) \<and>
      first_full l a b ! at_first z = Do (first_prog (l = Boss) a b ! core_first l (at_first z))"
    and "exch_done (l = Boss) (core l z) \<Longrightarrow> proto_done l z"
proof -
  have mail: "mail_ok l (at_first z) (at_second z) (at_manager z) (mails z)" using inv by (simp add: proto_inv_def)
  show j: "3 \<le> at_second z"
    using mail over by (cases l) (auto simp: mail_ok_def request_over_def)
  have "l = Boss \<or> 2 \<le> at_first z" using mail over by (cases l) (auto simp: mail_ok_def request_over_def)
  with j inv show "core_common l z = p_common z" by (intro core_common_same) auto
  show "at_first z < length (first_full l a b) \<and> first_full l a b ! at_first z = Do (first_prog (l = Boss) a b ! core_first l (at_first z))"
    if "core_first l (at_first z) < length (first_prog (l = Boss) a b)"
  proof (cases l)
    case Apart
    with that mail over show ?thesis
      by (auto simp: request_over_def core_first_def first_full_at first_prog_at(14) mail_ok_def)
  next
    case Nested
    with that mail over have "at_first z < 15" "4 \<le> at_first z" "at_first z \<noteq> 13"
      by (auto simp: request_over_def core_first_def first_prog_at(14) mail_ok_def split: if_splits)
    moreover from this have "at_first z < 13 \<or> at_first z = 14" by linarith
    moreover have "core_first Nested m = m - 3" if "4 \<le> m" "m < 13" for m using that by (simp add: core_first_def)
    moreover have "core_first Nested 14 = 10" by (simp add: core_first_def)
    ultimately show ?thesis unfolding Nested by (auto simp: first_full_at)
  next
    case Boss
    with that over show ?thesis
      by (auto simp: request_over_def core_first_def first_full_at first_prog_at(14) split: if_splits)
  qed
  show "proto_done l z" if "exch_done (l = Boss) (core l z)"
    using that over mail
    by (cases l) (auto simp: request_over_def proto_done_def exch_done_def core_def core_first_def core_manager_def mail_ok_def split: if_splits)
qed

lemma passing_moves:
  assumes inv: "proto_inv l z" and ex: "exch_inv (l = Boss) a b n1 s1 n2 s2 (core l z)"
    and over: "request_over l z" and "\<not> proto_done l z"
  shows "\<exists>z'. proto_step l a b z z'"
proof -
  note R = request_overD [OF inv over]
  obtain y where "exch_step (l = Boss) a b (core l z) y" using exch_progress [OF ex] R(4) assms(4) by blast
  then show ?thesis
  proof cases
    case (first_acts e sh)
    then have do: "do_act (first_prog (l = Boss) a b ! core_first l (at_first z)) (p_first z) (p_common z) = Some (e, sh)"
      and i: "core_first l (at_first z) < length (first_prog (l = Boss) a b)" by (simp_all add: core_def R(2))
    show ?thesis by (rule first_can) (use R(3) [OF i] do in simp_all)
  next
    case (second_acts e sh)
    then have do: "do_act (second_prog ! (at_second z - 3)) (p_second z) (p_common z) = Some (e, sh)"
      and j: "at_second z < 13" by (simp_all add: core_def R(2) second_prog_at(11))
    show ?thesis by (rule second_can) (use j R(1) do in \<open>simp_all add: second_full_at\<close>)
  next
    case (manager_acts e sh)
    let ?k = "at_manager z"
    from manager_acts have m: "l \<noteq> Boss" "core_manager l ?k < 3"
      and do: "do_act (manager_prog False a b ! core_manager l ?k) (p_first z) (p_common z) = Some (e, sh)"
      by (auto simp: core_def R(2) manager_prog_at(4) split: if_splits)
    have "2 \<le> ?k" if l: "l = Nested"
    proof (rule ccontr)
      assume k: "\<not> 2 \<le> ?k"
      with l over have "at_first z < 13" "4 \<le> at_first z" by (auto simp: request_over_def)
      with ex l have "file_first (p_common z)"
        by (auto simp: exch_inv_def shared_ok_def core_def core_first_def core_common_def)
      with do k l show False by (auto simp: core_manager_def manager_prog_at do_act_Some)
    qed
    with m over have "?k < length (manager_full l a b) \<and> manager_full l a b ! ?k = Do (manager_prog False a b ! core_manager l ?k)"
      by (cases l) (auto simp: request_over_def core_manager_def manager_full_at)
    with do show ?thesis by (intro manager_can) simp_all
  qed
qed

lemma proto_progress:
  assumes "reach (proto_step l a b) (proto_start n1 s1 n2 s2) z" and "\<not> proto_done l z"
  shows "\<exists>z'. proto_step l a b z z'"
  using request_moves passing_moves proto_reach_inv [OF assms(1)] assms(2) by metis

lemma proto_done_core:
  assumes "proto_inv l z" and "proto_done l z"
  shows "exch_done (l = Boss) (core l z) \<and> mails z = {} \<and> core_common l z = p_common z"
proof -
  have "\<not> under_way l (at_first z) (at_second z) (at_manager z) x" for x
    using assms(2) by (cases l; cases x) (simp_all add: proto_done_def)
  with assms(1) have "mails z = {}" by (auto simp: proto_inv_def mail_ok_def)
  with assms show ?thesis
    by (cases l) (auto simp: proto_done_def exch_done_def core_def core_first_def core_manager_def core_common_def)
qed

text \<open>Every step counts one, so a run has at most 34 steps.\<close>

lemma proto_step_count:
  "proto_step l a b z z' \<Longrightarrow> at_first z' + at_second z' + at_manager z' = Suc (at_first z + at_second z + at_manager z)"
  by (auto elim: proto_step.cases)

lemma proto_run_count:
  "(proto_step l a b ^^ n) z z' \<Longrightarrow> at_first z' + at_second z' + at_manager z' = n + at_first z + at_second z + at_manager z"
  by (induction n arbitrary: z') (auto dest!: proto_step_count)

lemma proto_places: "proto_inv l z \<Longrightarrow> at_first z + at_second z + at_manager z \<le> 34"
  by (cases l) (auto simp: proto_inv_def mail_ok_def)

lemma proto_run_bound:
  assumes "(proto_step l a b ^^ n) (proto_start n1 s1 n2 s2) z"
  shows "n \<le> 34"
proof -
  have "proto_inv l z" by (rule proto_reach_inv [OF relpow_reach [OF assms]])
  from proto_places [OF this] proto_run_count [OF assms] show ?thesis by simp
qed

text \<open>So every run can be carried on to the end.\<close>

lemma proto_completes:
  assumes "reach (proto_step l a b) (proto_start n1 s1 n2 s2) z"
  shows "\<exists>n z'. (proto_step l a b ^^ n) z z' \<and> proto_done l z'"
  using assms
proof (induction "34 - (at_first z + at_second z + at_manager z)" arbitrary: z rule: less_induct)
  case less
  show ?case
  proof (cases "proto_done l z")
    case True
    then show ?thesis using relpowp_0_I by metis
  next
    case False
    with proto_progress [OF less(2)] obtain z1 where st: "proto_step l a b z z1" by blast
    have r1: "reach (proto_step l a b) (proto_start n1 s1 n2 s2) z1" using less(2) st by (rule reach_step)
    then have "at_first z1 + at_second z1 + at_manager z1 \<le> 34"
      using proto_reach_inv(1) proto_places by metis
    with proto_step_count [OF st] less(1) [OF _ r1] show ?thesis
      using st relpowp_Suc_I2 by (metis (no_types, lifting) diff_less_mono2 lessI less_le_trans Suc_le_eq)
  qed
qed

end
