(* ===== verification/Svc_Pipes.thy ===== *)
theory Svc_Pipes
  imports Prelude
begin

text \<open>
  The descriptors of the service processes: what \<open>MySpawn\<close> does with the table of open files, so
  that a child finds the pipes to its parent at the descriptors 3 and 4 (\<open>PARENT_READ_FD\<close>,
  \<open>PARENT_WRITE_FD\<close>), and \<open>deleteNode\<close>, which closes the ends of a child. A table is what the
  kernel keeps for a process; \<open>fork\<close> copies it and \<open>exec\<close> closes what is marked close-on-exec. The
  theory shows that a pipe connects exactly one parent with one child.
\<close>

section \<open>The interface of a table of open files\<close>

locale file_table =
  fixes get :: "'t \<Rightarrow> nat \<Rightarrow> 'e option"
    and put :: "nat \<Rightarrow> 'e option \<Rightarrow> 't \<Rightarrow> 't"
    and lowest :: "'t \<Rightarrow> nat"
  assumes get_put: "get (put n x t) m = (if m = n then x else get t m)"
    and lowest_free: "get t (lowest t) = None"
    and lowest_least: "m < lowest t \<Longrightarrow> get t m \<noteq> None"
begin

lemma lowest_eq: "\<lbrakk>get t n = None; \<And>m. m < n \<Longrightarrow> get t m \<noteq> None\<rbrakk> \<Longrightarrow> lowest t = n"
  by (metis lowest_free lowest_least linorder_neqE_nat)

lemma lowest_above: "(\<And>m. m < n \<Longrightarrow> get t m \<noteq> None) \<Longrightarrow> n \<le> lowest t"
  by (metis lowest_free leI)

lemma lowest_new: "get t n \<noteq> None \<Longrightarrow> lowest t \<noteq> n"
  using lowest_free by metis

text \<open>Two descriptors taken one after the other, as a pipe needs them.\<close>

definition take_two :: "'e \<Rightarrow> 'e \<Rightarrow> 't \<Rightarrow> nat \<times> nat \<times> 't" where
  "take_two x y t = (let a = lowest t; t = put a (Some x) t; b = lowest t in (a, b, put b (Some y) t))"

lemma take_two:
  assumes "take_two x y t = (a, b, t')" and "\<And>m. m < n \<Longrightarrow> get t m \<noteq> None"
  shows "n \<le> a \<and> a < b \<and> get t a = None \<and> get t b = None \<and>
    (\<forall>m. get t' m = (if m = a then Some x else if m = b then Some y else get t m))"
proof -
  let ?t = "put (lowest t) (Some x) t"
  from assms(1) have a: "a = lowest t" and b: "b = lowest ?t" and t': "t' = put b (Some y) ?t"
    by (auto simp: take_two_def Let_def)
  have "get ?t m \<noteq> None" if "m < Suc a" for m
    using that lowest_least [of m t] by (auto simp: get_put a less_Suc_eq)
  then have "a < b" using lowest_above [of "Suc a" ?t] b by simp
  moreover have "get t b = None"
    using lowest_free [of ?t] \<open>a < b\<close> by (simp add: get_put a flip: b)
  ultimately show ?thesis
    using lowest_above [of n t] assms(2) lowest_free [of t] by (auto simp: a t' get_put)
qed

text \<open>When the first two free descriptors are known.\<close>

lemma take_two_at:
  assumes "take_two x y t = (a, b, t')" and "\<And>m. m < n \<Longrightarrow> get t m \<noteq> None"
    and "get t n = None" and "get t (Suc n) = None"
  shows "a = n \<and> b = Suc n"
proof -
  have a: "lowest t = n" using assms(2,3) by (intro lowest_eq)
  have "lowest (put n (Some x) t) = Suc n"
    using assms(2,4) by (intro lowest_eq) (auto simp: get_put less_Suc_eq)
  with assms(1) a show ?thesis by (auto simp: take_two_def Let_def)
qed

end

section \<open>Tables as lists\<close>

datatype obj = Terminal nat | Rd nat | Wr nat

record entry =
  target :: obj
  cloexec :: bool

type_synonym table = "entry option list"

definition get_fd :: "table \<Rightarrow> nat \<Rightarrow> entry option" where
  "get_fd t n = (if n < length t then t ! n else None)"

definition put_fd :: "nat \<Rightarrow> entry option \<Rightarrow> table \<Rightarrow> table" where
  "put_fd n x t = (if n < length t then t[n := x] else t @ replicate (n - length t) None @ [x])"

fun lowest_fd :: "table \<Rightarrow> nat" where
  "lowest_fd [] = 0"
| "lowest_fd (None # t) = 0"
| "lowest_fd (Some e # t) = Suc (lowest_fd t)"

lemma get_put_fd: "get_fd (put_fd n x t) m = (if m = n then x else get_fd t m)"
  by (auto simp: get_fd_def put_fd_def nth_append nth_Cons' nth_list_update)

interpretation fds: file_table get_fd put_fd lowest_fd
proof unfold_locales
  show "get_fd t (lowest_fd t) = None" for t
    by (induction t rule: lowest_fd.induct) (auto simp: get_fd_def)
  show "get_fd t m \<noteq> None" if "m < lowest_fd t" for t m
    using that
  proof (induction t arbitrary: m rule: lowest_fd.induct)
    case (3 e t)
    show ?case
    proof (cases m)
      case (Suc k)
      with 3 have "get_fd t k \<noteq> None" by simp
      with Suc show ?thesis by (simp add: get_fd_def split: if_splits)
    qed (simp add: get_fd_def)
  qed simp_all
qed (rule get_put_fd)

section \<open>System calls\<close>

definition pipe2 :: "nat \<Rightarrow> table \<Rightarrow> nat \<times> nat \<times> table" where
  "pipe2 p t = (let a = lowest_fd t; t = put_fd a (Some \<lparr>target = Rd p, cloexec = True\<rparr>) t; b = lowest_fd t
     in (a, b, put_fd b (Some \<lparr>target = Wr p, cloexec = True\<rparr>) t))"

definition close :: "nat \<Rightarrow> table \<Rightarrow> table" where
  "close n t = put_fd n None t"

definition dup2 :: "nat \<Rightarrow> nat \<Rightarrow> table \<Rightarrow> table" where
  "dup2 a b t = (case get_fd t a of None \<Rightarrow> t
     | Some e \<Rightarrow> if a = b then t else put_fd b (Some (e\<lparr>cloexec := False\<rparr>)) t)"

fun exec :: "table \<Rightarrow> table" where
  "exec [] = []"
| "exec (None # t) = None # exec t"
| "exec (Some e # t) = (if cloexec e then None else Some e) # exec t"

text \<open>
  \<open>MySpawn\<close>, with the numbers of the three new pipes from \<open>p\<close> on: the tables of the parent and of the
  new program, and the descriptors the parent keeps in \<open>read_fd\<close> and \<open>write_fd\<close>.
\<close>

definition spawn_fds :: "nat \<Rightarrow> table \<Rightarrow> table \<times> table \<times> nat \<times> nat" where
  "spawn_fds p t = (let
     (fake0, fake1, t) = pipe2 p t;
     (from0, from1, t) = pipe2 (p + 1) t;
     (to0, to1, t) = pipe2 (p + 2) t;
     t = close fake0 t;
     t = close fake1 t;
     child = close from0 (close to1 t);
     child = dup2 to0 3 child;
     child = dup2 from1 4 child;
     parent = close from1 (close to0 t)
   in (parent, exec child, from0, to1))"

lemma get_fd_calls:
  "get_fd (close n t) m = (if m = n then None else get_fd t m)"
  "get_fd (dup2 a b t) m = (case get_fd t a of None \<Rightarrow> get_fd t m
     | Some e \<Rightarrow> if a = b then get_fd t m else if m = b then Some (e\<lparr>cloexec := False\<rparr>) else get_fd t m)"
  "get_fd (exec t) m = (case get_fd t m of None \<Rightarrow> None | Some e \<Rightarrow> if cloexec e then None else Some e)"
proof -
  show "get_fd (exec t) m = (case get_fd t m of None \<Rightarrow> None | Some e \<Rightarrow> if cloexec e then None else Some e)"
  proof (induction t arbitrary: m rule: exec.induct)
    case (2 t)
    show ?case using 2 [of "m - 1"] by (cases m) (auto simp: get_fd_def)
  next
    case (3 e t)
    show ?case using 3 [of "m - 1"] by (cases m) (auto simp: get_fd_def)
  qed (simp add: get_fd_def)
qed (auto simp: close_def dup2_def get_put_fd split: option.split)

lemma get_fd_dup2:
  "get_fd t a = Some e \<Longrightarrow> a \<noteq> b \<Longrightarrow>
     get_fd (dup2 a b t) m = (if m = b then Some (e\<lparr>cloexec := False\<rparr>) else get_fd t m)"
  by (simp add: get_fd_calls)

lemma pipe2_take: "pipe2 p t = fds.take_two \<lparr>target = Rd p, cloexec = True\<rparr> \<lparr>target = Wr p, cloexec = True\<rparr> t"
  by (simp add: pipe2_def fds.take_two_def)

section \<open>The table of a service\<close>

text \<open>
  The terminal at 0 to 2, the pipes to the parent at 3 and 4 - or nothing there, in the manager -, and
  behind them only what \<open>exec\<close> closes.
\<close>

definition service_table :: "table \<Rightarrow> bool" where
  "service_table t \<longleftrightarrow>
     (\<forall>n < 3. get_fd t n = Some \<lparr>target = Terminal n, cloexec = False\<rparr>) \<and>
     (get_fd t 3 = None \<longleftrightarrow> get_fd t 4 = None) \<and>
     (\<forall>n e. 5 \<le> n \<longrightarrow> get_fd t n = Some e \<longrightarrow> cloexec e)"

lemma spawn_fds_result:
  assumes ok: "service_table t" and sp: "spawn_fds p t = (t', tc, rd, wr)"
  shows "5 \<le> rd \<and> 5 \<le> wr \<and> rd \<noteq> wr \<and> get_fd t rd = None \<and> get_fd t wr = None \<and>
    (\<forall>n. get_fd t' n = (if n = rd then Some \<lparr>target = Rd (p + 1), cloexec = True\<rparr>
       else if n = wr then Some \<lparr>target = Wr (p + 2), cloexec = True\<rparr> else get_fd t n)) \<and>
    (\<forall>n. get_fd tc n = (if n = 3 then Some \<lparr>target = Rd (p + 2), cloexec = False\<rparr>
       else if n = 4 then Some \<lparr>target = Wr (p + 1), cloexec = False\<rparr> else if n < 3 then get_fd t n else None))"
proof -
  obtain f0 f1 t1 where 1: "pipe2 p t = (f0, f1, t1)" by (cases "pipe2 p t")
  obtain r0 r1 t2 where 2: "pipe2 (p + 1) t1 = (r0, r1, t2)" by (cases "pipe2 (p + 1) t1")
  obtain w0 w1 t3 where 3: "pipe2 (p + 2) t2 = (w0, w1, t3)" by (cases "pipe2 (p + 2) t2")
  have low: "get_fd t m \<noteq> None" if "m < 3" for m using ok that by (simp add: service_table_def)
  note F = fds.take_two [OF 1 [unfolded pipe2_take], of 3, OF low, simplified]
  have fake: "f0 = 3 \<and> f1 = 4 \<or> get_fd t 3 \<noteq> None \<and> get_fd t 4 \<noteq> None"
    using fds.take_two_at [OF 1 [unfolded pipe2_take] low] ok by (auto simp: service_table_def)
  have low1: "get_fd t1 m \<noteq> None" if "m < 5" for m
  proof -
    have "m < 3 \<or> m = 3 \<or> m = 4" using that by auto
    then show ?thesis using F fake low [of m] by auto
  qed
  note R = fds.take_two [OF 2 [unfolded pipe2_take], of 5, OF low1, simplified]
  have low2: "get_fd t2 m \<noteq> None" if "m < 5" for m using R low1 [OF that] by auto
  note W = fds.take_two [OF 3 [unfolded pipe2_take], of 5, OF low2, simplified]
  from sp 1 2 3 have res: "rd = r0" "wr = w1" "t' = close r1 (close w0 (close f1 (close f0 t3)))"
    "tc = exec (dup2 r1 4 (dup2 w0 3 (close r0 (close w1 (close f1 (close f0 t3))))))"
    by (auto simp: spawn_fds_def Let_def)
  have t3: "get_fd t3 n = (if n = w0 then Some \<lparr>target = Rd (p + 2), cloexec = True\<rparr>
      else if n = w1 then Some \<lparr>target = Wr (p + 2), cloexec = True\<rparr>
      else if n = r0 then Some \<lparr>target = Rd (p + 1), cloexec = True\<rparr>
      else if n = r1 then Some \<lparr>target = Wr (p + 1), cloexec = True\<rparr>
      else if n = f0 then Some \<lparr>target = Rd p, cloexec = True\<rparr>
      else if n = f1 then Some \<lparr>target = Wr p, cloexec = True\<rparr> else get_fd t n)" for n
    using F R W by simp
  have R5: "5 \<le> r1" "5 \<le> w1" using R W by linarith+
  have far: "5 \<le> r0" "5 \<le> r1" "5 \<le> w0" "5 \<le> w1" "r0 \<noteq> r1" "w0 \<noteq> w1" "w0 \<noteq> r0" "w0 \<noteq> r1" "w1 \<noteq> r0" "w1 \<noteq> r1"
    "f0 \<noteq> r0" "f0 \<noteq> r1" "f1 \<noteq> r0" "f1 \<noteq> r1" "f0 \<noteq> w0" "f0 \<noteq> w1" "f1 \<noteq> w0" "f1 \<noteq> w1" "3 \<le> f0" "3 \<le> f1"
    using F R W R5 by (auto split: if_splits)
  have free: "get_fd t r0 = None" "get_fd t r1 = None" "get_fd t w0 = None" "get_fd t w1 = None"
    "get_fd t f0 = None" "get_fd t f1 = None"
    using F R W far by (auto split: if_splits)
  have parent: "get_fd t' n = (if n = r0 then Some \<lparr>target = Rd (p + 1), cloexec = True\<rparr>
       else if n = w1 then Some \<lparr>target = Wr (p + 2), cloexec = True\<rparr> else get_fd t n)" for n
    using far free by (simp add: res(3) get_fd_calls t3)
  define u where "u = close r0 (close w1 (close f1 (close f0 t3)))"
  have u: "get_fd u n = (if n = w0 then Some \<lparr>target = Rd (p + 2), cloexec = True\<rparr>
      else if n = r1 then Some \<lparr>target = Wr (p + 1), cloexec = True\<rparr> else get_fd t n)" for n
    using far free by (simp add: u_def get_fd_calls t3)
  let ?v = "dup2 w0 3 u"
  have v: "get_fd ?v n = (if n = 3 then Some \<lparr>target = Rd (p + 2), cloexec = False\<rparr> else get_fd u n)" for n
    using get_fd_dup2 [of u w0 _ 3 n] far u [of w0] by simp
  have w: "get_fd (dup2 r1 4 ?v) n = (if n = 4 then Some \<lparr>target = Wr (p + 1), cloexec = False\<rparr> else get_fd ?v n)" for n
    using get_fd_dup2 [of ?v r1 _ 4 n] far v [of r1] u [of r1] by simp
  have child: "get_fd tc n = (if n = 3 then Some \<lparr>target = Rd (p + 2), cloexec = False\<rparr>
       else if n = 4 then Some \<lparr>target = Wr (p + 1), cloexec = False\<rparr> else if n < 3 then get_fd t n else None)" for n
  proof -
    have tc: "get_fd tc n = (case get_fd (dup2 r1 4 ?v) n of None \<Rightarrow> None | Some e \<Rightarrow> if cloexec e then None else Some e)"
      unfolding res(4) u_def [symmetric] by (rule get_fd_calls(3))
    consider "n < 3" | "n = 3 \<or> n = 4" | "5 \<le> n" by linarith
    then show ?thesis
    proof cases
      case 1
      with far ok show ?thesis by (auto simp: tc w v u service_table_def)
    next
      case 2
      then show ?thesis by (auto simp: tc w v)
    next
      case 3
      with ok show ?thesis by (auto simp: tc w v u service_table_def split: option.split)
    qed
  qed
  show ?thesis using parent child far free by (simp add: res(1,2))
qed

section \<open>All processes together\<close>

text \<open>
  What a parent keeps of a child (\<open>struct Service\<close>); the processes by their number, \<open>None\<close> when ended, with
  their tables and lists of children; the number of the next pipe.
\<close>

record link =
  child_proc :: nat
  read_fd :: nat
  write_fd :: nat

record procs =
  running :: "(table \<times> link list) option list"
  next_pipe :: nat

definition proc_at :: "procs \<Rightarrow> nat \<Rightarrow> (table \<times> link list) option" where
  "proc_at s i = (if i < length (running s) then running s ! i else None)"

definition spawn_proc :: "nat \<Rightarrow> table \<Rightarrow> link list \<Rightarrow> procs \<Rightarrow> procs" where
  "spawn_proc i t ls s = (case spawn_fds (next_pipe s) t of (t', tc, rd, wr) \<Rightarrow>
     \<lparr>running = (running s)[i := Some (t', ls @ [\<lparr>child_proc = length (running s), read_fd = rd, write_fd = wr\<rparr>])]
        @ [Some (tc, [])],
      next_pipe = next_pipe s + 3\<rparr>)"

text \<open>\<open>deleteNode\<close> closes both ends of the child it unlinks.\<close>

definition delete_fds :: "link \<Rightarrow> table \<Rightarrow> table" where
  "delete_fds l t = close (write_fd l) (close (read_fd l) t)"

inductive pipe_step :: "procs \<Rightarrow> procs \<Rightarrow> bool" where
  spawns: "proc_at s i = Some (t, ls) \<Longrightarrow> pipe_step s (spawn_proc i t ls s)"
| unlinks: "proc_at s i = Some (t, xs @ l # ys) \<Longrightarrow>
    pipe_step s (s\<lparr>running := (running s)[i := Some (delete_fds l t, xs @ ys)]\<rparr>)"
| ends: "proc_at s i = Some (t, ls) \<Longrightarrow> pipe_step s (s\<lparr>running := (running s)[i := None]\<rparr>)"

definition terminal_table :: table where
  "terminal_table = map (\<lambda>n. Some \<lparr>target = Terminal n, cloexec = False\<rparr>) [0..<3]"

definition manager_alone :: procs where
  "manager_alone = \<lparr>running = [Some (terminal_table, [])], next_pipe = 0\<rparr>"

section \<open>The invariant\<close>

definition holds_end :: "procs \<Rightarrow> nat \<Rightarrow> nat \<Rightarrow> obj \<Rightarrow> bool" where
  "holds_end s i n x \<longleftrightarrow> (\<exists>t ls e. proc_at s i = Some (t, ls) \<and> get_fd t n = Some e \<and> target e = x)"

text \<open>A link of a parent with table \<open>t\<close>: its two descriptors are the other ends of 4 and 3 of the child.\<close>

definition link_ok :: "procs \<Rightarrow> table \<Rightarrow> link \<Rightarrow> bool" where
  "link_ok s t l \<longleftrightarrow> 5 \<le> read_fd l \<and> 5 \<le> write_fd l \<and> child_proc l < length (running s) \<and>
     (\<exists>a b. get_fd t (read_fd l) = Some \<lparr>target = Rd a, cloexec = True\<rparr> \<and>
        get_fd t (write_fd l) = Some \<lparr>target = Wr b, cloexec = True\<rparr> \<and>
        (\<forall>tc lc. proc_at s (child_proc l) = Some (tc, lc) \<longrightarrow>
           get_fd tc 4 = Some \<lparr>target = Wr a, cloexec = False\<rparr> \<and> get_fd tc 3 = Some \<lparr>target = Rd b, cloexec = False\<rparr>))"

definition proc_ok :: "procs \<Rightarrow> nat \<Rightarrow> table \<Rightarrow> link list \<Rightarrow> bool" where
  "proc_ok s i t ls \<longleftrightarrow> service_table t \<and> (get_fd t 3 = None \<longleftrightarrow> i = 0) \<and> (\<forall>l \<in> set ls. link_ok s t l) \<and>
     distinct (map read_fd ls) \<and> distinct (map write_fd ls)"

definition pipes_inv :: "procs \<Rightarrow> bool" where
  "pipes_inv s \<longleftrightarrow> (\<forall>i t ls. proc_at s i = Some (t, ls) \<longrightarrow> proc_ok s i t ls) \<and>
     (\<forall>i n p. holds_end s i n (Rd p) \<or> holds_end s i n (Wr p) \<longrightarrow> p < next_pipe s) \<and>
     (\<forall>p i n j m. holds_end s i n (Rd p) \<and> holds_end s j m (Rd p) \<or> holds_end s i n (Wr p) \<and> holds_end s j m (Wr p)
        \<longrightarrow> i = j \<and> n = m) \<and>
     0 < length (running s)"

lemma proc_at_less: "proc_at s i = Some p \<Longrightarrow> i < length (running s)"
  by (auto simp: proc_at_def split: if_splits)

lemma spawn_proc_at:
  assumes "proc_at s i = Some (t, ls)" and "spawn_fds (next_pipe s) t = (t', tc, rd, wr)"
  shows "proc_at (spawn_proc i t ls s) j =
    (if j = i then Some (t', ls @ [\<lparr>child_proc = length (running s), read_fd = rd, write_fd = wr\<rparr>])
     else if j = length (running s) then Some (tc, []) else proc_at s j)"
  using assms(2) proc_at_less [OF assms(1)]
  by (auto simp: spawn_proc_def proc_at_def nth_append nth_list_update)

lemma update_proc_at:
  assumes "proc_at s i = Some p"
  shows "proc_at (s\<lparr>running := (running s)[i := x]\<rparr>) j = (if j = i then x else proc_at s j)"
  using proc_at_less [OF assms] by (auto simp: proc_at_def)

lemma pipes_invD:
  assumes "pipes_inv s"
  shows "proc_at s i = Some (t, ls) \<Longrightarrow> proc_ok s i t ls"
    and "holds_end s i n (Rd p) \<Longrightarrow> p < next_pipe s" and "holds_end s i n (Wr p) \<Longrightarrow> p < next_pipe s"
    and "holds_end s i n (Rd p) \<Longrightarrow> holds_end s j m (Rd p) \<Longrightarrow> i = j \<and> n = m"
    and "holds_end s i n (Wr p) \<Longrightarrow> holds_end s j m (Wr p) \<Longrightarrow> i = j \<and> n = m"
    and "0 < length (running s)"
  using assms unfolding pipes_inv_def by blast+

lemma pipes_invI:
  assumes "\<And>i t ls. proc_at s i = Some (t, ls) \<Longrightarrow> proc_ok s i t ls"
    and "\<And>i n p. holds_end s i n (Rd p) \<or> holds_end s i n (Wr p) \<Longrightarrow> p < next_pipe s"
    and "\<And>p i n j m. holds_end s i n (Rd p) \<Longrightarrow> holds_end s j m (Rd p) \<Longrightarrow> i = j \<and> n = m"
    and "\<And>p i n j m. holds_end s i n (Wr p) \<Longrightarrow> holds_end s j m (Wr p) \<Longrightarrow> i = j \<and> n = m"
    and "0 < length (running s)"
  shows "pipes_inv s"
  using assms unfolding pipes_inv_def by blast

text \<open>A step that only closes descriptors keeps who holds what among the rest.\<close>

lemma fewer_ends:
  assumes inv: "pipes_inv s" and "next_pipe s' = next_pipe s" and "0 < length (running s')"
    and "\<And>i n x. holds_end s' i n x \<Longrightarrow> holds_end s i n x"
    and "\<And>i t ls. proc_at s' i = Some (t, ls) \<Longrightarrow> proc_ok s' i t ls"
  shows "pipes_inv s'"
proof (rule pipes_invI)
  fix p i n j m
  assume "holds_end s' i n (Rd p)" "holds_end s' j m (Rd p)"
  then show "i = j \<and> n = m" using pipes_invD(4) [OF inv] assms(4) by blast
next
  fix p i n j m
  assume "holds_end s' i n (Wr p)" "holds_end s' j m (Wr p)"
  then show "i = j \<and> n = m" using pipes_invD(5) [OF inv] assms(4) by blast
next
  fix i n p
  assume "holds_end s' i n (Rd p) \<or> holds_end s' i n (Wr p)"
  then show "p < next_pipe s'" using pipes_invD(2,3) [OF inv] assms(2,4) by metis
qed (use assms(3,5) in auto)

lemma ends_inv:
  assumes inv: "pipes_inv s" and at: "proc_at s i = Some (t, ls)"
  shows "pipes_inv (s\<lparr>running := (running s)[i := None]\<rparr>)"
proof (rule fewer_ends [OF inv])
  let ?s = "s\<lparr>running := (running s)[i := None]\<rparr>"
  note up = update_proc_at [OF at, of None]
  show "holds_end s j n x" if "holds_end ?s j n x" for j n x
    using that by (auto simp: holds_end_def up split: if_splits)
  show "proc_ok ?s j t ls" if "proc_at ?s j = Some (t, ls)" for j t ls
  proof -
    from that have "proc_at s j = Some (t, ls)" by (auto simp: up split: if_splits)
    from pipes_invD(1) [OF inv this] show ?thesis
      by (auto simp: proc_ok_def link_ok_def up)
  qed
qed (use pipes_invD(6) [OF inv] in simp_all)

lemma link_ok_frame:
  assumes "link_ok s t l" and "length (running s) \<le> length (running s')"
    and "get_fd t' (read_fd l) = get_fd t (read_fd l)" and "get_fd t' (write_fd l) = get_fd t (write_fd l)"
    and "\<And>tc lc. proc_at s' (child_proc l) = Some (tc, lc) \<Longrightarrow> child_proc l < length (running s) \<Longrightarrow>
      \<exists>t0 l0. proc_at s (child_proc l) = Some (t0, l0) \<and> get_fd tc 3 = get_fd t0 3 \<and> get_fd tc 4 = get_fd t0 4"
  shows "link_ok s' t' l"
proof -
  obtain a b where l: "5 \<le> read_fd l" "5 \<le> write_fd l" "child_proc l < length (running s)"
    "get_fd t (read_fd l) = Some \<lparr>target = Rd a, cloexec = True\<rparr>"
    "get_fd t (write_fd l) = Some \<lparr>target = Wr b, cloexec = True\<rparr>"
    "\<And>tc lc. proc_at s (child_proc l) = Some (tc, lc) \<Longrightarrow>
       get_fd tc 4 = Some \<lparr>target = Wr a, cloexec = False\<rparr> \<and> get_fd tc 3 = Some \<lparr>target = Rd b, cloexec = False\<rparr>"
    using assms(1) unfolding link_ok_def by blast
  have "get_fd tc 4 = Some \<lparr>target = Wr a, cloexec = False\<rparr> \<and> get_fd tc 3 = Some \<lparr>target = Rd b, cloexec = False\<rparr>"
    if "proc_at s' (child_proc l) = Some (tc, lc)" for tc lc
    using assms(5) [OF that l(3)] l(6) by fastforce
  with l assms(2-4) show ?thesis by (auto simp: link_ok_def)
qed

lemma service_table_frame:
  assumes "service_table t" and "\<And>n. n < 5 \<Longrightarrow> get_fd t' n = get_fd t n"
    and "\<And>n e. 5 \<le> n \<Longrightarrow> get_fd t' n = Some e \<Longrightarrow> get_fd t n = Some e \<or> cloexec e"
  shows "service_table t'"
proof -
  have "get_fd t' n = get_fd t n" if "n < 3" for n using assms(2) that by simp
  moreover have "get_fd t' 3 = get_fd t 3" "get_fd t' 4 = get_fd t 4" using assms(2) by simp_all
  moreover have "cloexec e" if "5 \<le> n" "get_fd t' n = Some e" for n e
    using assms(1,3) that unfolding service_table_def by blast
  ultimately show ?thesis using assms(1) by (simp add: service_table_def)
qed

lemma unlinks_inv:
  assumes inv: "pipes_inv s" and at: "proc_at s i = Some (t, xs @ l # ys)"
  shows "pipes_inv (s\<lparr>running := (running s)[i := Some (delete_fds l t, xs @ ys)]\<rparr>)"
proof (rule fewer_ends [OF inv])
  let ?t = "delete_fds l t" and ?s = "s\<lparr>running := (running s)[i := Some (delete_fds l t, xs @ ys)]\<rparr>"
  note up = update_proc_at [OF at]
  note ok = pipes_invD(1) [OF inv at]
  have l: "5 \<le> read_fd l" "5 \<le> write_fd l" using ok by (auto simp: proc_ok_def link_ok_def)
  have get: "get_fd ?t n = (if n = read_fd l \<or> n = write_fd l then None else get_fd t n)" for n
    by (simp add: delete_fds_def get_fd_calls)
  show "holds_end s j n x" if "holds_end ?s j n x" for j n x
    using that at by (auto simp: holds_end_def up get split: if_splits)
  have near: "\<exists>t0 l0. proc_at s c = Some (t0, l0) \<and> get_fd tc 3 = get_fd t0 3 \<and> get_fd tc 4 = get_fd t0 4"
    if "proc_at ?s c = Some (tc, lc)" for c tc lc
    using that at l by (auto simp: up get split: if_splits)
  show "proc_ok ?s j u us" if j: "proc_at ?s j = Some (u, us)" for j u us
  proof (cases "j = i")
    case False
    with j have "proc_at s j = Some (u, us)" by (simp add: up)
    note P = pipes_invD(1) [OF inv this]
    moreover have "link_ok ?s u k" if "link_ok s u k" for k
      using that by (rule link_ok_frame) (simp, rule refl, rule refl, rule near)
    ultimately show ?thesis by (simp add: proc_ok_def)
  next
    case True
    with j have u: "u = ?t" "us = xs @ ys" by (simp_all add: up)
    have "service_table t" using ok by (simp add: proc_ok_def)
    then have st: "service_table ?t"
      by (rule service_table_frame) (use l in \<open>auto simp: get split: if_splits\<close>)
    have fresh: "read_fd l \<notin> read_fd ` set (xs @ ys)" "write_fd l \<notin> write_fd ` set (xs @ ys)"
      using ok by (simp_all add: proc_ok_def image_Un)
    have "link_ok ?s ?t k" if k: "k \<in> set (xs @ ys)" for k
    proof (rule link_ok_frame)
      show "link_ok s t k" using ok k by (auto simp: proc_ok_def)
      have "link_ok s t l" using ok by (auto simp: proc_ok_def)
      with \<open>link_ok s t k\<close> have "read_fd k \<noteq> write_fd l" "write_fd k \<noteq> read_fd l"
        by (auto simp: link_ok_def)
      moreover have "read_fd k \<noteq> read_fd l" "write_fd k \<noteq> write_fd l"
        using fresh imageI [OF k, of read_fd] imageI [OF k, of write_fd] by metis+
      ultimately show "get_fd ?t (read_fd k) = get_fd t (read_fd k)" "get_fd ?t (write_fd k) = get_fd t (write_fd k)"
        by (simp_all add: get)
    qed (simp, rule near)
    moreover have "get_fd ?t 3 = get_fd t 3" using l by (simp add: get)
    moreover have "get_fd t 3 = None \<longleftrightarrow> i = 0" "distinct (map read_fd (xs @ ys))" "distinct (map write_fd (xs @ ys))"
      using ok by (simp_all add: proc_ok_def)
    ultimately show ?thesis using st unfolding u True proc_ok_def by metis
  qed
qed (use pipes_invD(6) [OF inv] in simp_all)

lemma spawns_inv:
  assumes inv: "pipes_inv s" and at: "proc_at s i = Some (t, ls)"
  shows "pipes_inv (spawn_proc i t ls s)"
proof -
  obtain t' tc rd wr where sp: "spawn_fds (next_pipe s) t = (t', tc, rd, wr)"
    by (cases "spawn_fds (next_pipe s) t")
  let ?s = "spawn_proc i t ls s" and ?p = "next_pipe s" and ?c = "length (running s)"
  let ?l = "\<lparr>child_proc = ?c, read_fd = rd, write_fd = wr\<rparr>"
  note up = spawn_proc_at [OF at sp]
  note ok = pipes_invD(1) [OF inv at]
  have i: "i < ?c" using proc_at_less [OF at] .
  have t: "service_table t" using ok by (simp add: proc_ok_def)
  note R = spawn_fds_result [OF t sp]
  have far: "5 \<le> rd" "5 \<le> wr" "rd \<noteq> wr" "get_fd t rd = None" "get_fd t wr = None" using R by simp_all
  have t': "get_fd t' n = (if n = rd then Some \<lparr>target = Rd (?p + 1), cloexec = True\<rparr>
       else if n = wr then Some \<lparr>target = Wr (?p + 2), cloexec = True\<rparr> else get_fd t n)" for n
    using R by simp
  have tc: "get_fd tc n = (if n = 3 then Some \<lparr>target = Rd (?p + 2), cloexec = False\<rparr>
       else if n = 4 then Some \<lparr>target = Wr (?p + 1), cloexec = False\<rparr> else if n < 3 then get_fd t n else None)" for n
    using R by simp
  have len: "length (running ?s) = Suc ?c" "next_pipe ?s = ?p + 3" by (simp_all add: spawn_proc_def sp)
  have new: "proc_at s ?c = None" by (simp add: proc_at_def)
  have near: "\<exists>t0 l0. proc_at s c = Some (t0, l0) \<and> get_fd u 3 = get_fd t0 3 \<and> get_fd u 4 = get_fd t0 4"
    if "proc_at ?s c = Some (u, us)" "c < ?c" for c u us
    using that at far t' [of 3] t' [of 4] by (auto simp: up split: if_splits)
  have std: "get_fd t n = Some \<lparr>target = Terminal n, cloexec = False\<rparr>" if "n < 3" for n
    using t that by (simp add: service_table_def)
  have holds: "holds_end ?s j n x \<longleftrightarrow> (j = i \<and> n = rd \<and> x = Rd (?p + 1)) \<or> (j = i \<and> n = wr \<and> x = Wr (?p + 2)) \<or>
      (j = ?c \<and> n = 3 \<and> x = Rd (?p + 2)) \<or> (j = ?c \<and> n = 4 \<and> x = Wr (?p + 1)) \<or>
      (j = ?c \<and> n < 3 \<and> x = Terminal n) \<or> holds_end s j n x" for j n x
    using at far i new std by (auto simp: holds_end_def up t' tc)
  show ?thesis
  proof (rule pipes_invI)
    fix j u us
    assume j: "proc_at ?s j = Some (u, us)"
    consider "j = i" | "j = ?c" | "j \<noteq> i" "j \<noteq> ?c" by blast
    then show "proc_ok ?s j u us"
    proof cases
      case 1
      then have u: "u = t'" "us = ls @ [?l]" using j by (simp_all add: up)
      have "service_table t'"
        using t far by (rule_tac service_table_frame [of t]) (auto simp: t' split: if_splits)
      moreover have old: "read_fd k \<noteq> rd \<and> write_fd k \<noteq> wr \<and> link_ok ?s t' k" if k: "k \<in> set ls" for k
      proof -
        have lk: "link_ok s t k" using ok k by (simp add: proc_ok_def)
        then have ne: "read_fd k \<noteq> rd" "read_fd k \<noteq> wr" "write_fd k \<noteq> rd" "write_fd k \<noteq> wr"
          using far by (auto simp: link_ok_def)
        from lk have "link_ok ?s t' k"
          by (rule link_ok_frame) (simp add: len, simp add: t' ne, simp add: t' ne, rule near)
        with ne show ?thesis by simp
      qed
      moreover have "link_ok ?s t' ?l"
        using far i by (auto simp: link_ok_def len t' up tc)
      ultimately show ?thesis
        using ok far 1 unfolding u by (auto simp: proc_ok_def t')
    next
      case 2
      then have u: "u = tc" "us = []" using j i by (auto simp: up)
      have "service_table tc" using std by (auto simp: service_table_def tc split: if_splits)
      with 2 i show ?thesis by (auto simp: u proc_ok_def tc)
    next
      case 3
      with j have "proc_at s j = Some (u, us)" by (simp add: up)
      note P = pipes_invD(1) [OF inv this]
      moreover have "link_ok ?s u k" if "link_ok s u k" for k
        using that by (rule link_ok_frame) (simp add: len, rule refl, rule refl, rule near)
      ultimately show ?thesis by (simp add: proc_ok_def)
    qed
  next
    fix j n p
    assume "holds_end ?s j n (Rd p) \<or> holds_end ?s j n (Wr p)"
    then show "p < next_pipe ?s"
      using pipes_invD(2,3) [OF inv, of j n p] unfolding holds len(2) by auto
  next
    fix p j n k m
    assume "holds_end ?s j n (Rd p)" "holds_end ?s k m (Rd p)"
    then show "j = k \<and> n = m"
      using pipes_invD(2) [OF inv, of _ _ p] pipes_invD(4) [OF inv, of j n p k m] unfolding holds by fastforce
  next
    fix p j n k m
    assume "holds_end ?s j n (Wr p)" "holds_end ?s k m (Wr p)"
    then show "j = k \<and> n = m"
      using pipes_invD(3) [OF inv, of _ _ p] pipes_invD(5) [OF inv, of j n p k m] unfolding holds by fastforce
  next
    show "0 < length (running ?s)" by (simp add: len)
  qed
qed

lemma manager_alone_inv: "pipes_inv manager_alone"
proof -
  have at: "proc_at manager_alone i = Some (t, ls) \<longleftrightarrow> i = 0 \<and> t = terminal_table \<and> ls = []" for i t ls
    by (auto simp: proc_at_def manager_alone_def)
  have "get_fd terminal_table n = (if n < 3 then Some \<lparr>target = Terminal n, cloexec = False\<rparr> else None)" for n
    by (simp add: get_fd_def terminal_table_def)
  moreover have "0 < length (running manager_alone)" by (simp add: manager_alone_def)
  ultimately show ?thesis
    by (intro pipes_invI) (auto simp: at holds_end_def proc_ok_def service_table_def split: if_splits)
qed

interpretation pipes: transition_invariant pipe_step "\<lambda>s. s = manager_alone" pipes_inv
proof unfold_locales
  show "pipes_inv t" if "pipes_inv s" "pipe_step s t" for s t
    using that(2,1) by cases (auto intro: spawns_inv unlinks_inv ends_inv)
qed (simp add: manager_alone_inv)

end
