(* ===== verification/Svc_Props.thy ===== *)
theory Svc_Props
  imports Svc_Session Svc_Protocol Svc_Pipes
begin

text \<open>
  The properties of the service manager, with a manager that has a child and a grandchild as the
  witness state.
\<close>

definition seeds :: "nat \<Rightarrow> nat" where "seeds p = 1000 + p mod 1000"

lemma seeds_small: "seeds p < 2 ^ 31"
  by (simp add: seeds_def)

definition family :: service where
  "family = Live ''Manager'' 5 1 Ready [Live ''A'' 7 1 Ready [Live ''B'' 9 0 Ready []]]"

lemma family_ok: "tree_ok family" "all_live family" "names family = [''Manager'', ''A'', ''B'']" "name_of family = ''Manager''"
  by (simp_all add: tree_ok_def family_def)

lemma words_ok: "sword ''A''" "sword ''B''" "fit_name ''C''" "fit_name ''A''" "kill_name ''A''" "kill_name ''X''"
    "party_name ''A''" "party_name ''B''"
  by (simp_all add: word_def fit_name_def kill_name_def party_name_def MAX_SERVICE_NAME_LEN_def)

section \<open>Spawn and kill\<close>

text \<open>C11: A spawn command visits the services in the order of the tree up to the first with the name of the
  parent, which gets the new service as its last child; every visited service and the manager print
  what the assignment asks for. If no service has the name, all are visited and nothing changes.\<close>

theorem spawn_inserts_child:
  assumes "tree_ok t" and "sword P" and "fit_name C" and "C \<notin> set (names t)" and "command = ''spawn '' @ P @ '' '' @ C"
  shows "manager_cmd rnd p command t = Some
      (if P \<in> set (names t)
       then (add_under P (newborn rnd p C) t,
         map (\<lambda>n. received n command) (visited P (names t)) @ [birth rnd p C, spawned P C])
       else (t, map (\<lambda>n. received n command) (names t) @ [not_exist P])) \<and>
    (P \<in> set (names t) \<longrightarrow> (\<exists>xs ys. names t = xs @ ys \<and> names (add_under P (newborn rnd p C) t) = xs @ [C] @ ys))"
proof -
  have "all_live t" using assms(1) svc_ok_live by (simp add: tree_ok_def)
  from manager_spawn_spec [OF assms(2,3) this new_name_room(1) [OF this assms(4)] assms(5)] add_under_names(1) [of P t "newborn rnd p C"]
  show ?thesis by (auto simp: newborn_def)
qed

theorem spawn_inserts_child_witness:
  "manager_cmd seeds 12 ''spawn A C'' family = Some (add_under ''A'' (newborn seeds 12 ''C'') family,
    [received ''Manager'' ''spawn A C'', received ''A'' ''spawn A C'', birth seeds 12 ''C'', spawned ''A'' ''C''])"
  using spawn_inserts_child [OF family_ok(1) words_ok(1,3) _ refl, of seeds 12]
  by (simp add: family_ok(3) del: manager_cmd.simps)

text \<open>C3: A kill command removes the subtree of the first service with the name and reports the number of its
  other services; the rest of the tree stays in its order. For the name of the manager everything
  ends; if no service has the name, nothing changes.\<close>

theorem kill_removes_subtree:
  assumes "tree_ok t" and "kill_name T" and "command = ''kill '' @ T"
  shows "manager_cmd rnd p command t = Some
      (if name_of t = T then (Dead T, [received T command, killed T (int (length (names t)) - 1)])
       else if T \<in> set (names t)
       then (prune T t, map (\<lambda>n. received n command) (visited T (names t)) @ [killed T (int (length (sub_names T t)) - 1)])
       else (t, map (\<lambda>n. received n command) (names t) @ [not_exist T])) \<and>
    (T \<in> set (names t) \<and> name_of t \<noteq> T \<longrightarrow>
       (\<exists>xs ys. names t = xs @ sub_names T t @ ys \<and> names (prune T t) = xs @ ys \<and> T \<notin> set xs))"
proof -
  have live: "all_live t" using assms(1) svc_ok_live by (simp add: tree_ok_def)
  from manager_kill_spec [OF assms(2) live assms(3)] names_prune [OF live, of T] show ?thesis by blast
qed

theorem kill_removes_subtree_witness:
  "manager_cmd seeds 12 ''kill A'' family = Some (prune ''A'' family,
    [received ''Manager'' ''kill A'', received ''A'' ''kill A'', killed ''A'' 1]) \<and> names (prune ''A'' family) = [''Manager'']"
proof -
  have "sub_names ''A'' family = [''A'', ''B'']" "names (prune ''A'' family) = [''Manager'']"
    by (simp_all add: family_def)
  with kill_removes_subtree [OF family_ok(1) words_ok(5) refl, of seeds 12] show ?thesis
    by (simp add: family_ok(3,4) del: manager_cmd.simps)
qed

section \<open>Sessions\<close>

text \<open>C15: In every session with well-formed commands, exchanges in all their interleavings included, every
  process counts its children right, none is dead or out of step in the tree, no party is left waiting
  and every secret stays a non-negative \<open>int\<close>, until the manager is killed. The program does not keep
  the names unique: the next command breaks it exactly when it spawns, under a service that is there,
  one with a name that is taken.\<close>

theorem services_invariant:
  assumes "session rnd t" and "\<And>p. rnd p < 2 ^ 31"
  shows "(t = Dead ''Manager'' \<or> svc_ok t \<and> name_of t = ''Manager'') \<and>
    (\<forall>p r t' out. req_ok t r \<and> manager_step rnd p (req_text r) t t' out \<and> distinct (names t) \<longrightarrow>
      distinct (names t') = (\<not> (\<exists>P C. r = Spawn P C \<and> P \<in> set (names t) \<and> C \<in> set (names t))))"
proof (intro conjI allI impI)
  show inv: "t = Dead ''Manager'' \<or> svc_ok t \<and> name_of t = ''Manager''" by (rule session_inv [OF assms])
  fix p r t' out
  assume cmd: "req_ok t r \<and> manager_step rnd p (req_text r) t t' out \<and> distinct (names t)"
  then have "manager_cmd rnd p (req_text r) t \<noteq> None" by (auto elim: manager_stepE)
  with inv have "svc_ok t" by auto
  from req_step(2) [OF this, of r rnd p t' out] assms(2) [of p] cmd
  show "distinct (names t') = (\<not> (\<exists>P C. r = Spawn P C \<and> P \<in> set (names t) \<and> C \<in> set (names t)))" by blast
qed

definition lone :: service where "lone = fst (manager_start seeds 1)"

lemma lone_ok: "session seeds lone" "svc_ok lone" "names lone = [''Manager'']" "lone \<noteq> Dead ''Manager''"
  "req_ok lone (Spawn ''Manager'' ''C'')"
proof -
  show s: "session seeds lone" unfolding lone_def by (rule session.start)
  show n: "names lone = [''Manager'']" and d: "lone \<noteq> Dead ''Manager''" by (simp_all add: lone_def manager_start_def)
  show "svc_ok lone" using session_inv [OF s seeds_small] d by simp
  show "req_ok lone (Spawn ''Manager'' ''C'')"
    using words_ok(3) by (simp add: lone_def manager_start_def word_def)
qed

lemma lone_spawns:
  "session seeds (add_under ''Manager'' (newborn seeds 2 ''C'') lone)"
  "names (add_under ''Manager'' (newborn seeds 2 ''C'') lone) = [''Manager'', ''C'']"
proof -
  have "all_live lone" by (rule svc_ok_live [OF lone_ok(2)])
  moreover have "room ''Manager'' ''C'' lone" using lone_ok(5) by simp
  ultimately have "\<exists>out. manager_cmd seeds 2 (req_text (Spawn ''Manager'' ''C'')) lone = Some (add_under ''Manager'' (newborn seeds 2 ''C'') lone, out)"
    using manager_spawn_spec [OF _ words_ok(3) _ _ refl, of "''Manager''" lone seeds 2] lone_ok(3)
    by (auto simp: word_def simp del: manager_cmd.simps room.simps)
  then obtain out where "manager_step seeds 2 (req_text (Spawn ''Manager'' ''C'')) lone (add_under ''Manager'' (newborn seeds 2 ''C'') lone) out"
    using plain_step [OF split_req [OF lone_ok(5), unfolded request.case]] by auto
  from session.command [OF lone_ok(1,5) this]
  show "session seeds (add_under ''Manager'' (newborn seeds 2 ''C'') lone)" .
  show "names (add_under ''Manager'' (newborn seeds 2 ''C'') lone) = [''Manager'', ''C'']"
    by (simp add: lone_def manager_start_def newborn_def)
qed

theorem services_invariant_witness:
  "\<exists>t. session seeds t \<and> names t = [''Manager'', ''C''] \<and> svc_ok t"
  using services_invariant [OF lone_spawns(1) seeds_small] lone_spawns by force

text \<open>C16: In every reachable state a well-formed command on a line of its own is read as it was written and
  carried out to the end. A spawn or kill has one outcome. An exchange finds its two parties, and
  however they and the manager go on from there, it is over after at most 24 actions with the command
  done; until then some process can act: no buffer overflows, and no process waits for what never
  comes.\<close>

theorem commands_are_answered:
  assumes "session rnd t" and "\<And>p. rnd p < 2 ^ 31" and "t \<noteq> Dead ''Manager''" and "req_ok t r"
    and "CHR 0x0A \<notin> set (req_text r)"
  shows "read_cmd 0 (req_text r @ CHR 0x0A # rest) = (req_text r, rest) \<and>
    (case r of
       Exchange A B \<Rightarrow> \<exists>t1 out n1 s1 n2 s2. manager_cmd rnd p (request_text A B) t = Some (t1, out) \<and>
         marked First t1 = [(n1, s1)] \<and> marked Second t1 = [(n2, s2)] \<and>
         (\<forall>k x. (exch_step (n1 = name_of t) A B ^^ k)
             (exch_start (n1 = name_of t) (n1 \<noteq> name_of t \<and> n2 \<notin> set (sub_names n1 t)) n1 s1 n2 s2) x \<longrightarrow>
           k \<le> 24 \<and> (if exch_done (n1 = name_of t) x
             then manager_step rnd p (request_text A B) t
               (settle (key (end_first x)) (key (end_second x)) t1) (out @ lines (common x))
             else \<exists>y. exch_step (n1 = name_of t) A B x y))
     | _ \<Rightarrow> \<exists>t' out. manager_cmd rnd p (req_text r) t = Some (t', out))"
proof -
  have t: "svc_ok t" using session_inv [OF assms(1,2)] assms(3) by blast
  have "length (req_text r) < MAX_CMD_LEN" by (rule req_text_fits [OF assms(4)])
  then have "read_cmd 0 (req_text r @ CHR 0x0A # rest) = (req_text r, rest)"
    using read_cmd_line [OF assms(5), of 0] by simp
  then show ?thesis
    using plain_answered [OF t assms(4)] exchange_answered [OF t] assms(4) by (cases r) simp_all
qed

theorem commands_are_answered_witness:
  "\<exists>t' out. manager_cmd seeds 2 ''spawn Manager C'' lone = Some (t', out)"
proof -
  have "CHR 0x0A \<notin> set (req_text (Spawn ''Manager'' ''C''))" by simp
  from commands_are_answered [OF lone_ok(1) seeds_small lone_ok(4,5) this] show ?thesis by simp
qed

section \<open>Exchanges\<close>

text \<open>C13: An exchange between two services of the tree can be carried out, and however the parties and the
  manager interleave, in the end exactly their two secrets are swapped, and the lines of the request,
  of both parties and of the manager have been printed.\<close>

theorem exchange_swaps_secrets:
  assumes "tree_ok t" and "req_ok t (Exchange A B)"
  shows "(\<exists>t' out. manager_step rnd p (request_text A B) t t' out) \<and>
    (\<forall>t' out. manager_step rnd p (request_text A B) t t' out \<longrightarrow>
      secrets t' = swapped A B (secrets t) \<and>
      mset out = mset (map (\<lambda>n. received n (request_text A B)) (reached A B 0 (names t))) +
        {#acquired A B (the (map_of (secrets t) B)), acquired B A (the (map_of (secrets t) A)), exchanged A B#})"
proof -
  have AB: "party_name A" "party_name B" "A \<noteq> B" "A \<in> set (names t)" "B \<in> set (names t)" using assms(2) by auto
  from exchange_possible [OF assms(1) AB] exchange_result [OF assms(1) AB] show ?thesis by blast
qed

theorem exchange_swaps_secrets_witness:
  "\<exists>t' out. manager_step seeds 3 (request_text ''A'' ''B'') family t' out \<and>
     secrets t' = [(''Manager'', 5), (''A'', 9), (''B'', 7)]"
proof -
  have "req_ok family (Exchange ''A'' ''B'')" using words_ok(7,8) by (simp add: family_ok(3))
  moreover have "secrets family = [(''Manager'', 5), (''A'', 7), (''B'', 9)]" by (simp add: family_def)
  ultimately show ?thesis
    using exchange_swaps_secrets [OF family_ok(1), of "''A''" "''B''" seeds 3] by (fastforce simp: swapped_def)
qed

text \<open>The passing of the secrets through the two pipes never gets stuck: in every reachable state all is
  done or some process can go on, a run has at most 24 steps, and at its end the secrets are swapped
  and the files and pipes removed.\<close>

theorem exchange_never_stuck:
  assumes "(exch_step boss a b ^^ k) (exch_start boss spin n1 s1 n2 s2) x" and "boss \<longrightarrow> \<not> spin"
    and "unat s1 < 2 ^ 31" and "unat s2 < 2 ^ 31"
  shows "k \<le> 24 \<and> (exch_done boss x \<or> (\<exists>y. exch_step boss a b x y)) \<and>
    (exch_done boss x \<longrightarrow> key (end_first x) = s2 \<and> key (end_second x) = s1 \<and>
      mset (lines (common x)) = {#acquired n1 n2 s2, acquired n2 n1 s1, exchanged a b#} \<and>
      \<not> fifos (common x) \<and> \<not> file_first (common x) \<and> \<not> file_second (common x))"
proof -
  have inv: "exch_inv boss a b n1 s1 n2 s2 x"
    by (rule exch.reach_inv_from [OF relpow_reach [OF assms(1)] exch_start_inv [OF assms(2)]])
  then have "pc_first x + pc_second x + pc_manager x \<le> 24"
    by (auto simp: exch_inv_def order_ok_def split: if_splits)
  then have "k \<le> 24" using exch_run_count [OF assms(1)] by linarith
  with exch_progress [OF inv] exch_done_result [OF inv _ assms(3,4)] show ?thesis by blast
qed

theorem exchange_never_stuck_witness:
  "\<exists>y. exch_step False ''A'' ''B'' (exch_start False True ''A'' 7 ''B'' 9) y"
  using exchange_never_stuck [where boss = False and a = "''A''" and b = "''B''" and k = 0 and spin = True
      and x = "exch_start False True ''A'' 7 ''B'' 9" and ?n1.0 = "''A''" and ?s1.0 = 7 and ?n2.0 = "''B''" and ?s2.0 = 9]
  by (simp add: exch_done_def exch_start_def)

text \<open>C7: The request of an exchange may as well be one step. With the messages that ask the parties and
  their replies interleaved with everything else, for each position of the parties in the tree, a run
  has at most 34 steps and never gets stuck; with the request forgotten it is a run of the passing of
  the secrets alone; and at its end no message is left and the secrets are swapped.\<close>

theorem request_is_one_step:
  assumes "(proto_step l a b ^^ k) (proto_start n1 s1 n2 s2) z" and "unat s1 < 2 ^ 31" and "unat s2 < 2 ^ 31"
  shows "k \<le> 34 \<and> reach (exch_step (l = Boss) a b) (exch_start (l = Boss) (l = Apart) n1 s1 n2 s2) (core l z) \<and>
    (proto_done l z \<or> (\<exists>z'. proto_step l a b z z')) \<and>
    (proto_done l z \<longrightarrow> mails z = {} \<and> key (p_first z) = s2 \<and> key (p_second z) = s1 \<and>
      mset (lines (p_common z)) = {#acquired n1 n2 s2, acquired n2 n1 s1, exchanged a b#} \<and>
      \<not> fifos (p_common z) \<and> \<not> file_first (p_common z) \<and> \<not> file_second (p_common z))"
proof -
  have z: "reach (proto_step l a b) (proto_start n1 s1 n2 s2) z" using assms(1) by (rule relpow_reach)
  note inv = proto_reach_inv [OF z]
  have "proto_done l z \<longrightarrow> mails z = {} \<and> key (p_first z) = s2 \<and> key (p_second z) = s1 \<and>
      mset (lines (p_common z)) = {#acquired n1 n2 s2, acquired n2 n1 s1, exchanged a b#} \<and>
      \<not> fifos (p_common z) \<and> \<not> file_first (p_common z) \<and> \<not> file_second (p_common z)"
    using proto_done_core [OF inv(1)] exch_done_result [OF inv(2) _ assms(2,3)] by (auto simp: core_def)
  then show ?thesis using proto_run_bound [OF assms(1)] proto_reach_core [OF z] proto_progress [OF z] by blast
qed

theorem request_is_one_step_witness:
  "\<exists>k z. (proto_step Nested ''A'' ''B'' ^^ k) (proto_start ''A'' 7 ''B'' 9) z \<and> k \<le> 34 \<and> proto_done Nested z \<and>
     key (p_first z) = 9 \<and> key (p_second z) = 7 \<and> mails z = {}"
proof -
  obtain k z where run: "(proto_step Nested ''A'' ''B'' ^^ k) (proto_start ''A'' 7 ''B'' 9) z" "proto_done Nested z"
    using proto_completes [OF reach_init] by blast
  from request_is_one_step [OF run(1)] run show ?thesis by fastforce
qed

text \<open>C14: However the services spawn, kill and end, each link of a parent to a living child is a pair of pipes
  between just these two: the ends that the parent keeps are the other ends of the descriptors 3 and 4
  of the child, and no other process, and no other descriptor, has an end of either pipe.\<close>

theorem wires_are_private:
  assumes "reach pipe_step manager_alone s" and "proc_at s i = Some (t, ls)" and "l \<in> set ls"
    and "proc_at s (child_proc l) = Some (tc, lc)"
  shows "\<exists>a b. a \<noteq> b \<and> get_fd t (read_fd l) = Some \<lparr>target = Rd a, cloexec = True\<rparr> \<and>
      get_fd tc 4 = Some \<lparr>target = Wr a, cloexec = False\<rparr> \<and>
      get_fd t (write_fd l) = Some \<lparr>target = Wr b, cloexec = True\<rparr> \<and>
      get_fd tc 3 = Some \<lparr>target = Rd b, cloexec = False\<rparr> \<and>
      {(j, n, x). holds_end s j n x \<and> x \<in> {Rd a, Wr a, Rd b, Wr b}} =
        {(i, read_fd l, Rd a), (child_proc l, 4, Wr a), (i, write_fd l, Wr b), (child_proc l, 3, Rd b)}"
proof -
  have inv: "pipes_inv s" by (rule pipes.reach_inv [OF refl assms(1)])
  have "link_ok s t l" using pipes_invD(1) [OF inv assms(2)] assms(3) by (simp add: proc_ok_def)
  then obtain a b where five: "5 \<le> read_fd l" and ends: "get_fd t (read_fd l) = Some \<lparr>target = Rd a, cloexec = True\<rparr>"
      "get_fd tc 4 = Some \<lparr>target = Wr a, cloexec = False\<rparr>"
      "get_fd t (write_fd l) = Some \<lparr>target = Wr b, cloexec = True\<rparr>"
      "get_fd tc 3 = Some \<lparr>target = Rd b, cloexec = False\<rparr>"
    using assms(4) unfolding link_ok_def by blast
  then have held: "holds_end s i (read_fd l) (Rd a)" "holds_end s (child_proc l) 4 (Wr a)"
      "holds_end s i (write_fd l) (Wr b)" "holds_end s (child_proc l) 3 (Rd b)"
    using assms(2,4) by (auto simp: holds_end_def)
  have rd: "j = j' \<and> n = n'" if "holds_end s j n (Rd p)" "holds_end s j' n' (Rd p)" for j j' n n' p
    using pipes_invD(4) [OF inv that] .
  have wr: "j = j' \<and> n = n'" if "holds_end s j n (Wr p)" "holds_end s j' n' (Wr p)" for j j' n n' p
    using pipes_invD(5) [OF inv that] .
  have "a \<noteq> b" using rd [of i "read_fd l" a "child_proc l" 3] held five by auto
  moreover have "holds_end s j n x \<and> x \<in> {Rd a, Wr a, Rd b, Wr b} \<longleftrightarrow>
      (j, n, x) \<in> {(i, read_fd l, Rd a), (child_proc l, 4, Wr a), (i, write_fd l, Wr b), (child_proc l, 3, Rd b)}" for j n x
    using held rd wr by blast
  ultimately show ?thesis using ends by (intro exI [of _ a] exI [of _ b]) auto
qed

text \<open>A manager with two children, and a grandchild below the first.\<close>

definition spawn_again :: "nat \<Rightarrow> procs \<Rightarrow> procs" where
  "spawn_again i s = (case proc_at s i of None \<Rightarrow> s | Some (t, ls) \<Rightarrow> spawn_proc i t ls s)"

definition wired :: procs where
  "wired = spawn_again 1 (spawn_again 0 (spawn_again 0 manager_alone))"

lemma spawn_again_reach: "reach pipe_step z s \<Longrightarrow> reach pipe_step z (spawn_again i s)"
  by (auto simp: spawn_again_def split: option.split intro: reach_step pipe_step.spawns)

lemma spawn_again_at:
  assumes "proc_at s i = Some (t, ls)"
  obtains t' tc rd wr where "\<And>j. proc_at (spawn_again i s) j =
      (if j = i then Some (t', ls @ [\<lparr>child_proc = length (running s), read_fd = rd, write_fd = wr\<rparr>])
       else if j = length (running s) then Some (tc, []) else proc_at s j)"
    and "length (running (spawn_again i s)) = Suc (length (running s))"
proof -
  obtain t' tc rd wr where "spawn_fds (next_pipe s) t = (t', tc, rd, wr)" by (cases "spawn_fds (next_pipe s) t")
  then show thesis
    using that spawn_proc_at [OF assms] assms by (auto simp: spawn_again_def spawn_proc_def)
qed

theorem wires_are_private_witness:
  "\<exists>(l :: link) a b. a \<noteq> b \<and> {(j, n, x). holds_end wired j n x \<and> x \<in> {Rd a, Wr a, Rd b, Wr b}} =
      {(1, read_fd l, Rd a), (3, 4, Wr a), (1, write_fd l, Wr b), (3, 3, Rd b)}"
proof -
  have "proc_at manager_alone 0 = Some (terminal_table, [])" "length (running manager_alone) = 1"
    by (simp_all add: proc_at_def manager_alone_def)
  note 0 = this
  obtain t1 where 1: "proc_at (spawn_again 0 manager_alone) 0 = Some t1"
      "length (running (spawn_again 0 manager_alone)) = 2" "\<exists>t. proc_at (spawn_again 0 manager_alone) 1 = Some (t, [])"
    by (rule spawn_again_at [OF 0(1)]) (use 0(2) in auto)
  obtain t2 ls2 where t1: "t1 = (t2, ls2)" by (cases t1)
  let ?s = "spawn_again 0 (spawn_again 0 manager_alone)"
  obtain t where 2: "proc_at ?s 1 = Some (t, [])" "length (running ?s) = 3"
    by (rule spawn_again_at [OF 1(1) [unfolded t1]]) (use 1(2,3) in auto)
  obtain u us l where 3: "proc_at wired 1 = Some (u, [l])" "proc_at wired (child_proc l) = Some (us, [])" "child_proc l = 3"
    by (rule spawn_again_at [OF 2(1)]) (use 2(2) in \<open>auto simp: wired_def\<close>)
  have "reach pipe_step manager_alone wired"
    unfolding wired_def by (intro spawn_again_reach reach_init)
  from wires_are_private [OF this 3(1) list.set_intros(1) 3(2), unfolded 3(3)]
  obtain a b where ab: "a \<noteq> b" "{(j, n, x). holds_end wired j n x \<and> x \<in> {Rd a, Wr a, Rd b, Wr b}} =
      {(1, read_fd l, Rd a), (3, 4, Wr a), (1, write_fd l, Wr b), (3, 3, Rd b)}"
    by (elim exE conjE) (rule that)
  show ?thesis by (rule exI [of _ l], rule exI [of _ a], rule exI [of _ b], rule conjI [OF ab])
qed

text \<open>A secret from \<open>rand\<close> survives the way through \<open>intTostr\<close>, the pipe and \<open>atoi\<close> with its conversions
  between \<open>unsigned long\<close> and \<open>int\<close>, and its text fits the buffers; so does every count.\<close>

theorem secret_round_trip:
  assumes "unat s < 2 ^ 31"
  shows "from_text (to_text s) = s \<and> length (to_text s) \<le> 11 \<and> atoi (intTostr n) = n"
proof -
  have "- (2 ^ 31) \<le> sint (ucast s :: 32 word)" "sint (ucast s :: 32 word) < 2 ^ 31"
    using sint_ge [of "ucast s :: 32 word"] sint_lt [of "ucast s :: 32 word"] by simp_all
  then show ?thesis using secret_text [OF assms] intTostr_length by (simp add: to_text_def)
qed

theorem secret_round_trip_witness: "from_text (to_text 2147483647) = 2147483647"
  using secret_round_trip [of 2147483647 0] by simp

section \<open>What goes wrong\<close>

text \<open>C29: To spawn a second child of a name does not work: the new process is made, but the reply is read from
  the first child of that name. If that one lives, it has nothing to say, and the manager waits for
  ever (the spawn itself has succeeded, it is the read that has no result). If it is dead, its pipe is
  at the end: the manager reports that it received nothing, but counts and keeps the new child, whose
  own reply stays unread.\<close>

theorem duplicate_child_spawn:
  assumes "sword n" and "fit_name C" and "find_child C ks = Some i"
  shows "MySpawn rnd p C = Some (newborn rnd p C, [birth rnd p C]) \<and>
    find_child C (addChild (newborn rnd p C) ks) = Some i \<and>
    (case ks ! i of
       Live _ _ _ _ _ \<Rightarrow> read_reply ks i = None \<and>
         manager_cmd rnd p (''spawn '' @ n @ '' '' @ C) (Live n sec cn pt ks) = None
     | Dead _ \<Rightarrow> read_reply ks i = Some '''' \<and>
         manager_cmd rnd p (''spawn '' @ n @ '' '' @ C) (Live n sec cn pt ks) =
           Some (Live n sec (cn + 1) pt (ks @ [unread (newborn rnd p C)]),
             [received n (''spawn '' @ n @ '' '' @ C), birth rnd p C, ''kkkk'', ''NO RECIEVE: SPAWN '' @ n @ '' '' @ C]))"
proof -
  note old = find_child_old [OF assms(3)]
  have C: "sword C" using assms(2) by (simp add: fit_name_def)
  have cmd: "manager_cmd rnd p (''spawn '' @ n @ '' '' @ C) (Live n sec cn pt ks) = do {
      (reply, ks', out) \<leftarrow> spawn_child rnd p C ks;
      Some (Live n sec (cn + 1) pt ks', received n (''spawn '' @ n @ '' '' @ C) # out @ (if reply = ''Y''
        then [spawned n C] else [''kk'' @ reply @ ''kk'', ''NO RECIEVE: SPAWN '' @ n @ '' '' @ C])) }"
    by (simp add: split_spawn [OF assms(1) C] nth_word_def manager_spawn_def case_prod_unfold del: append_Cons append_Nil)
  show ?thesis
    using old unfolding cmd
    by (cases "ks ! i") (simp_all add: MySpawn_fit [OF assms(2)] spawn_child_old [OF assms(2,3)] read_reply_cases)
qed

theorem duplicate_child_spawn_witness:
  "manager_cmd seeds 12 ''spawn Manager A'' family = None \<and>
   manager_cmd seeds 12 ''spawn Manager A'' (Live ''Manager'' 5 1 Ready [Dead ''A'']) =
     Some (Live ''Manager'' 5 2 Ready [Dead ''A'', Live ''A'' 1012 0 Behind []],
       [''Manager has received spawn Manager A'', ''A has been spawned, pid: 12, secret: 1012'', ''kkkk'',
        ''NO RECIEVE: SPAWN Manager A''])"
proof -
  have n: "sword ''Manager''" by (simp add: word_def)
  note dup = duplicate_child_spawn [OF n words_ok(4), of _ _ seeds 12 5 1 Ready]
  have "birth seeds 12 ''A'' = ''A has been spawned, pid: 12, secret: 1012''"
    by (simp add: birth_def started_def seeds_def intTostr_def nat_str.simps digit_def char_of_def bit_simps)
  with dup [of "[Live ''A'' 7 1 Ready [Live ''B'' 9 0 Ready []]]" 0] dup [of "[Dead ''A'']" 0] show ?thesis
    by (simp add: family_def newborn_def received_def seeds_def del: manager_cmd.simps)
qed

text \<open>C30: A third word in a kill command takes the place of the mark \<open>N\<close> for the children: the first child of the
  manager and all below it die, whatever name was given, and the manager keeps the dead child in its
  list and reports the kill of the given name.\<close>

theorem third_word_kills_first_child:
  assumes "kill_name X" and "sword Q" and "length Q < 3" and "Q \<noteq> ''N''"
    and "all_live k" and "X \<noteq> n" and "X \<noteq> name_of k"
    and "command = ''kill '' @ X @ '' '' @ Q"
  shows "manager_cmd rnd p command (Live n sec cn pt (k # ks)) = Some
    (Live n sec cn pt (Dead (name_of k) # ks), [received n command, killed X (int (length (names k)) - 1)])"
proof -
  have w: "sword X" "length X \<le> 100" using assms(1) by (simp_all add: kill_name_def)
  have split: "split_words command = Some [''kill'', X, Q]"
    using words3 [of "''kill''" X Q] w assms(2) by (simp add: assms(8) split_words_def word_def)
  have "split_words (command @ '' N'') = Some [''kill'', X, Q, ''N'']"
    using words4 [of "''kill''" X Q "''N''"] w assms(2) by (simp add: assms(8) split_words_def word_def)
  then have "deadly X (command @ '' N'')" using assms(3,4) by (simp add: deadly_def)
  note die = child_die_spec [OF assms(1,5) this, of rnd p]
  have "0 < length (names k)" using assms(5) by (cases k) auto
  moreover have "strcpy MAX_CMD_LEN (command @ '' N'') = Some (command @ '' N'')"
    using w assms(3) by (simp add: assms(8) strcpy_def MAX_CMD_LEN_def)
  ultimately show ?thesis
    using die assms(6,7) by (simp add: split nth_word_def manager_kill_def)
qed

theorem third_word_kills_first_child_witness:
  "manager_cmd seeds 12 ''kill X Q'' family =
     Some (Live ''Manager'' 5 1 Ready [Dead ''A''], [received ''Manager'' ''kill X Q'', killed ''X'' 1])"
proof -
  have "all_live (Live ''A'' 7 1 Ready [Live ''B'' 9 0 Ready []])" by simp
  from third_word_kills_first_child [OF words_ok(6) _ _ _ this, of "''Q''" "''Manager''" "''kill X Q''" seeds 12 5 1 Ready "[]"]
  show ?thesis by (simp add: family_def word_def del: manager_cmd.simps)
qed

end
